(* ===== verification/Dns_Types.thy ===== *)
theory Dns_Types
  imports Prelude_Go
begin

text \<open>
  The part of the DNS library \<^verbatim>\<open>github.com/miekg/dns\<close> that the program sees. The library is not part
  of the repository, so its functions are the fields of a record \<open>dns_lib\<close> that every definition
  calling the library takes as an argument; its messages and resource records are given with the
  fields the program reads or writes. What the program relies on is stated by the predicates at the
  end, each a sentence of the library's documentation, and appears as a hypothesis where it is used.

  Messages and records are values here. The Go code shares them by pointer, but copies a message
  with \<^verbatim>\<open>Copy\<close> before it stores it in the cache and again when it takes it out, so that a later
  write to a message never reaches the cache.
\<close>

section \<open>Protocol constants\<close>

definition TypeA :: u16 where "TypeA = 1"
definition TypeNS :: u16 where "TypeNS = 2"
definition TypePTR :: u16 where "TypePTR = 12"
definition TypeAAAA :: u16 where "TypeAAAA = 28"
definition TypeOPT :: u16 where "TypeOPT = 41"
definition TypeANY :: u16 where "TypeANY = 255"
definition ClassINET :: u16 where "ClassINET = 1"

definition RcodeSuccess :: int where "RcodeSuccess = 0"
definition RcodeServerFailure :: int where "RcodeServerFailure = 2"
definition RcodeNameError :: int where "RcodeNameError = 3"

lemmas dns_consts = TypeA_def TypeNS_def TypePTR_def TypeAAAA_def TypeOPT_def TypeANY_def
  ClassINET_def RcodeSuccess_def RcodeServerFailure_def RcodeNameError_def

section \<open>Records and messages\<close>

text \<open>\<^verbatim>\<open>net.IP\<close> is a byte slice; the empty list is also its nil value.\<close>

type_synonym IP = "u8 list"

record RR_Header =
  Hdr_Name :: string
  Rrtype :: u16
  Class :: u16
  Ttl :: u32

text \<open>The Go type of a record, as a type switch sees it; other kinds keep their text.\<close>

datatype RData = RA IP | RAAAA IP | RPTR string | ROther string

record RR =
  Hdr :: RR_Header
  Data :: RData

record Question =
  Q_Name :: string
  Qtype :: u16
  Qclass :: u16

text \<open>\<open>OtherBits\<close> stands for the header bits the program never looks at.\<close>

record Msg =
  Id :: u16
  Response :: bool
  Authoritative :: bool
  Truncated :: bool
  RecursionAvailable :: bool
  Rcode :: int
  OtherBits :: nat
  MQuestion :: "Question list"
  Answer :: "RR list"
  Ns :: "RR list"
  Extra :: "RR list"

text \<open>\<^verbatim>\<open>new(dns.Msg)\<close>: every field at its zero value.\<close>

definition newMsg :: Msg where
  "newMsg = \<lparr>Id = 0, Response = False, Authoritative = False, Truncated = False,
     RecursionAvailable = False, Rcode = 0, OtherBits = 0,
     MQuestion = [], Answer = [], Ns = [], Extra = []\<rparr>"

section \<open>The library's functions\<close>

text \<open>
  \<open>NewRR\<close> gives an error, or no record when the text holds none, or the first record.
  \<open>TypeToString\<close> and \<open>StringToType\<close> are Go maps; the first is only read for its value, which is
  the empty string when the key is absent.
\<close>

record dns_lib =
  CanonicalName :: "string \<Rightarrow> string"
  Fqdn :: "string \<Rightarrow> string"
  IsSubDomain :: "string \<Rightarrow> string \<Rightarrow> bool"
  TypeToString :: "u16 \<Rightarrow> string"
  StringToType :: "string \<Rightarrow> u16 option"
  NewRR :: "string \<Rightarrow> string + RR option"
  SetQuestion :: "Msg \<Rightarrow> string \<Rightarrow> u16 \<Rightarrow> Msg"
  SetRcode :: "Msg \<Rightarrow> int \<Rightarrow> Msg"
  Pack :: "Msg \<Rightarrow> string + u8 list"
  Unpack :: "u8 list \<Rightarrow> string + Msg"

text \<open>Reading a missing key of \<^verbatim>\<open>dns.StringToType\<close> without the second result gives 0.\<close>

definition StringToType0 :: "dns_lib \<Rightarrow> string \<Rightarrow> u16" where
  "StringToType0 D s = (case StringToType D s of None \<Rightarrow> 0 | Some t \<Rightarrow> t)"

section \<open>Documented behaviour the program relies on\<close>

definition is_canonical :: "string \<Rightarrow> bool" where
  "is_canonical s \<longleftrightarrow> ToLower s = s \<and> HasSuffix s ''.''"

text \<open>``A name in canonical form is lowercase and fully qualified. Only US-ASCII letters are affected.''\<close>

definition CanonicalName_doc :: "dns_lib \<Rightarrow> bool" where
  "CanonicalName_doc D \<longleftrightarrow>
     (\<forall>s. is_canonical (CanonicalName D s)) \<and>
     (\<forall>s. is_canonical s \<longrightarrow> CanonicalName D s = s)"

text \<open>\<^verbatim>\<open>SetQuestion\<close> sets the question section to the one question, of class IN, and an identifier.\<close>

definition SetQuestion_doc :: "dns_lib \<Rightarrow> bool" where
  "SetQuestion_doc D \<longleftrightarrow>
     (\<forall>m n t. MQuestion (SetQuestion D m n t) = [\<lparr>Q_Name = n, Qtype = t, Qclass = ClassINET\<rparr>] \<and>
        Answer (SetQuestion D m n t) = Answer m \<and> Ns (SetQuestion D m n t) = Ns m \<and>
        Extra (SetQuestion D m n t) = Extra m)"

text \<open>\<^verbatim>\<open>SetRcode\<close> makes a reply to the request with the given response code and no records.\<close>

definition SetRcode_doc :: "dns_lib \<Rightarrow> bool" where
  "SetRcode_doc D \<longleftrightarrow>
     (\<forall>r c. Id (SetRcode D r c) = Id r \<and> Response (SetRcode D r c) \<and> Rcode (SetRcode D r c) = c \<and>
        MQuestion (SetRcode D r c) = take 1 (MQuestion r) \<and>
        Answer (SetRcode D r c) = [] \<and> Ns (SetRcode D r c) = [] \<and> Extra (SetRcode D r c) = [])"

text \<open>
  The two tables name the same types, \<open>ANY\<close> among them; a type's name is a non-empty word without
  a colon.
\<close>

definition TypeTables_doc :: "dns_lib \<Rightarrow> bool" where
  "TypeTables_doc D \<longleftrightarrow>
     (\<forall>s t. StringToType D s = Some t \<longrightarrow> TypeToString D t = s \<and> s \<noteq> '''' \<and> CHR '':'' \<notin> set s) \<and>
     (\<forall>t. TypeToString D t \<noteq> '''' \<longrightarrow> StringToType D (TypeToString D t) = Some t) \<and>
     StringToType D ''ANY'' = Some TypeANY"

section \<open>A concrete library for the witnesses\<close>

text \<open>
  A small instance that satisfies the predicates above, used only where a witness needs a concrete
  library: it knows five types and parses the three records listed.
\<close>

definition dot_suffix :: "string \<Rightarrow> string" where
  "dot_suffix s = (if HasSuffix s ''.'' then s else s @ ''.'')"

definition sample_types :: "(string \<times> u16) list" where
  "sample_types = [(''A'', TypeA), (''NS'', TypeNS), (''PTR'', TypePTR), (''AAAA'', TypeAAAA), (''ANY'', TypeANY)]"

definition sample_rr :: "string \<Rightarrow> u16 \<Rightarrow> u32 \<Rightarrow> RData \<Rightarrow> RR" where
  "sample_rr n t ttl d = \<lparr>Hdr = \<lparr>Hdr_Name = n, Rrtype = t, Class = ClassINET, Ttl = ttl\<rparr>, Data = d\<rparr>"

definition sample_records :: "(string \<times> RR option) list" where
  "sample_records =
    [('''', None),
     (''h.local. 60 IN A 192.0.2.1'', Some (sample_rr ''h.local.'' TypeA 60 (RA [192, 0, 2, 1]))),
     (''h.local. 60 IN A 192.0.2.2'', Some (sample_rr ''h.local.'' TypeA 60 (RA [192, 0, 2, 2])))]"

definition sample_lib :: dns_lib where
  "sample_lib = \<lparr>
     CanonicalName = (\<lambda>s. ToLower (dot_suffix s)),
     Fqdn = dot_suffix,
     IsSubDomain = (\<lambda>p c. HasSuffix (ToLower (dot_suffix c)) (ToLower (dot_suffix p))),
     TypeToString = (\<lambda>t. case map_of (map (\<lambda>(a, b). (b, a)) sample_types) t of None \<Rightarrow> '''' | Some s \<Rightarrow> s),
     StringToType = map_of sample_types,
     NewRR = (\<lambda>s. case map_of sample_records s of None \<Rightarrow> Inl ''parse error'' | Some r \<Rightarrow> Inr r),
     SetQuestion = (\<lambda>m n t. m\<lparr>Id := 1, MQuestion := [\<lparr>Q_Name = n, Qtype = t, Qclass = ClassINET\<rparr>]\<rparr>),
     SetRcode = (\<lambda>r c. newMsg\<lparr>Id := Id r, Response := True, Rcode := c, MQuestion := take 1 (MQuestion r)\<rparr>),
     Pack = (\<lambda>m. Inr []),
     Unpack = (\<lambda>b. Inr newMsg)\<rparr>"

lemma lower_char_dot [simp]: "lower_char c = CHR ''.'' \<longleftrightarrow> c = CHR ''.''"
  by (subst lower_char_eq_iff) simp_all

lemma HasSuffix_ToLower_dot [simp]: "HasSuffix (ToLower s) ''.'' \<longleftrightarrow> HasSuffix s ''.''"
  by (auto simp: HasSuffix_single ToLower_def last_map)

lemma sample_canonical: "CanonicalName_doc sample_lib"
  by (auto simp: CanonicalName_doc_def sample_lib_def is_canonical_def dot_suffix_def)
     (simp add: HasSuffix_single)+

lemma sample_set_question: "SetQuestion_doc sample_lib"
  by (simp add: SetQuestion_doc_def sample_lib_def)

lemma sample_set_rcode: "SetRcode_doc sample_lib"
  by (simp add: SetRcode_doc_def sample_lib_def newMsg_def)

lemma sample_type_tables: "TypeTables_doc sample_lib"
  by (auto simp: TypeTables_doc_def sample_lib_def sample_types_def dns_consts split: if_splits option.splits)

end
