(* ===== verification/Blocklist.thy ===== *)
theory Blocklist
  imports Dns_Types
begin

text \<open>
  Package \<^verbatim>\<open>blocklist\<close>: the trie of \<^verbatim>\<open>trie.go\<close> (\<open>level\<close>, one definition per method) and the list of
  \<^verbatim>\<open>blocklist.go\<close> around it. The trie is walked from the last label of a name, so that a node blocks
  every name below it. The abstract view is a set of entries \<open>(labels, qtype)\<close>: the locale
  \<open>block_set\<close> states what adding, deleting and matching mean on such a set, and is interpreted by
  the trie.
\<close>

section \<open>trie.go\<close>

primrec contains :: "'a list \<Rightarrow> 'a \<Rightarrow> bool" where
  "contains [] value = False"
| "contains (v # vs) value = (if value = v then True else contains vs value)"

datatype level =
  Level (BlockAny: bool) (BlockQtype: "u16 list") (Children: "(string \<times> level) list")

definition NewLevel :: level where
  "NewLevel = Level False [] []"

fun level_Add :: "level \<Rightarrow> string list \<Rightarrow> u16 \<Rightarrow> level" where
  "level_Add (Level a qs cs) parts qtype =
     (if parts = [] then
        (if qtype = TypeANY then Level True qs cs
         else if \<not> contains qs qtype then Level a (qs @ [qtype]) cs
         else Level a qs cs)
      else
        (let child = (case gm_get cs (last parts) of None \<Rightarrow> NewLevel | Some c \<Rightarrow> c)
         in Level a qs (gm_set (last parts) (level_Add child (butlast parts) qtype) cs)))"

fun level_Match :: "level \<Rightarrow> string list \<Rightarrow> u16 \<Rightarrow> bool" where
  "level_Match (Level a qs cs) parts qtype =
     (if a then True
      else if contains qs qtype then True
      else if parts \<noteq> [] then
        (case gm_get cs (last parts) of
           None \<Rightarrow> False
         | Some child \<Rightarrow> level_Match child (butlast parts) qtype)
      else False)"

text \<open>The loop of \<^verbatim>\<open>Delete\<close> over the blocked types: the first one equal to the type is cut out.\<close>

primrec cut_first :: "u16 \<Rightarrow> u16 list \<Rightarrow> u16 list option" where
  "cut_first qtype [] = None"
| "cut_first qtype (v # vs) =
     (if qtype = v then Some vs else map_option (Cons v) (cut_first qtype vs))"

fun level_Delete :: "level \<Rightarrow> string list \<Rightarrow> u16 \<Rightarrow> bool \<times> level" where
  "level_Delete (Level a qs cs) parts qtype =
     (if parts = [] then
        (if qtype = TypeANY \<and> a then (True, Level False qs cs)
         else (case cut_first qtype qs of
                 Some qs' \<Rightarrow> (True, Level a qs' cs)
               | None \<Rightarrow> (False, Level a qs cs)))
      else
        (case gm_get cs (last parts) of
           Some child \<Rightarrow>
             (let (found, child') = level_Delete child (butlast parts) qtype
              in (found, Level a qs (gm_set (last parts) child' cs)))
         | None \<Rightarrow> (False, Level a qs cs)))"

text \<open>
  \<^verbatim>\<open>DeleteTree\<close> cuts the subtree off its parent. With no labels it reads \<^verbatim>\<open>parts[-1]\<close>, a panic.
\<close>

fun level_DeleteTree :: "level \<Rightarrow> string list \<Rightarrow> (bool \<times> level) go" where
  "level_DeleteTree (Level a qs cs) parts =
     (if length parts = 1 then
        Inr (gm_get cs (hd parts) \<noteq> None, Level a qs (gm_del (hd parts) cs))
      else if parts = [] then Inl IndexOutOfRange
      else
        (case gm_get cs (last parts) of
           Some child \<Rightarrow>
             (case level_DeleteTree child (butlast parts) of
                Inl p \<Rightarrow> Inl p
              | Inr (ok, child') \<Rightarrow> Inr (ok, Level a qs (gm_set (last parts) child' cs)))
         | None \<Rightarrow> Inr (False, Level a qs cs)))"

fun level_Count :: "level \<Rightarrow> nat" where
  "level_Count (Level a qs cs) =
     (if a then 1 else 0) + length qs + sum_list (map (\<lambda>(k, v). level_Count v) cs)"

record BlockEntry =
  BE_Name :: string
  BE_Block :: "string list"

fun level_Dump :: "dns_lib \<Rightarrow> level \<Rightarrow> string list \<Rightarrow> BlockEntry list" where
  "level_Dump D (Level a qs cs) pfx =
     (let block = (if a then [''ANY''] else []) @ map (TypeToString D) qs
      in (if length block > 0 then [\<lparr>BE_Name = Join ''.'' pfx @ ''.'', BE_Block = block\<rparr>] else []) @
         concat (map (\<lambda>(k, v). level_Dump D v (k # pfx)) cs))"

text \<open>The text of a node and the lines \<^verbatim>\<open>PrintTree\<close> writes to standard output.\<close>

definition fmt_slice :: "string list \<Rightarrow> string" where
  "fmt_slice xs = ''['' @ Join '' '' xs @ '']''"

definition level_String :: "dns_lib \<Rightarrow> level \<Rightarrow> string" where
  "level_String D l =
     ''BlockAny: '' @ (if BlockAny l then ''true'' else ''false'') @
     '' / BlockQtype: '' @ fmt_slice (map (TypeToString D) (BlockQtype l)) @
     '' / Children: '' @ fmt_slice (map fst (Children l))"

fun level_PrintTree :: "dns_lib \<Rightarrow> level \<Rightarrow> string list \<Rightarrow> string list" where
  "level_PrintTree D (Level a qs cs) pfx =
     (Join ''.'' pfx @ ''. >> '' @ level_String D (Level a qs cs)) #
     concat (map (\<lambda>(k, v). level_PrintTree D v (pfx @ [k])) cs)"

declare level_Add.simps [simp del] level_Match.simps [simp del] level_Delete.simps [simp del]
  level_DeleteTree.simps [simp del] level_Count.simps [simp del] level_Dump.simps [simp del]
  level_PrintTree.simps [simp del]

section \<open>blocklist.go\<close>

definition splitName :: "string \<Rightarrow> string list" where
  "splitName name =
     (if name = '''' \<or> name = ''.'' then []
      else Split CHR ''.'' (ToLower (TrimSuffix name ''.'')))"

text \<open>The mutex is held for the whole of each operation, so an operation is one step on the trie.\<close>

record BlockList =
  Root :: level

definition BlockList_New :: BlockList where
  "BlockList_New = \<lparr>Root = NewLevel\<rparr>"

definition BlockList_Add :: "BlockList \<Rightarrow> string \<Rightarrow> u16 \<Rightarrow> BlockList" where
  "BlockList_Add b name qtype = b\<lparr>Root := level_Add (Root b) (splitName name) qtype\<rparr>"

datatype bl_error = InvalidQtype string string | InvalidEntry string | InvalidHosts string

definition AddEntry :: "dns_lib \<Rightarrow> BlockList \<Rightarrow> string \<Rightarrow> u16 \<Rightarrow> bl_error + BlockList" where
  "AddEntry D b entry default_qtype =
     (case Split CHR '':'' entry of
        [n] \<Rightarrow> Inr (BlockList_Add b n default_qtype)
      | [n, t] \<Rightarrow>
          (case StringToType D t of
             None \<Rightarrow> Inl (InvalidQtype n t)
           | Some qtype \<Rightarrow> Inr (BlockList_Add b n qtype))
      | split \<Rightarrow> Inl (InvalidEntry (Join '':'' split)))"

definition AddHostsEntry :: "dns_lib \<Rightarrow> BlockList \<Rightarrow> string \<Rightarrow> bl_error + BlockList" where
  "AddHostsEntry D b entry =
     (let split = re_split_space3 entry
      in if length split = 1 then Inl (InvalidHosts entry)
         else let ip = split ! 0; domain = split ! 1
              in if ip \<noteq> ''0.0.0.0'' \<or> domain = ''0.0.0.0'' then Inr b
                 else AddEntry D b domain TypeANY)"

definition BlockList_Match :: "BlockList \<Rightarrow> string \<Rightarrow> u16 \<Rightarrow> bool" where
  "BlockList_Match b qname qtype = level_Match (Root b) (splitName qname) qtype"

definition BlockList_Delete :: "BlockList \<Rightarrow> string \<Rightarrow> u16 \<Rightarrow> bool \<times> BlockList" where
  "BlockList_Delete b qname qtype =
     (let (found, root) = level_Delete (Root b) (splitName qname) qtype
      in (found, b\<lparr>Root := root\<rparr>))"

definition DeleteEntry :: "dns_lib \<Rightarrow> BlockList \<Rightarrow> string \<Rightarrow> u16 \<Rightarrow> bl_error + bool \<times> BlockList" where
  "DeleteEntry D b entry default_qtype =
     (case Split CHR '':'' entry of
        [n] \<Rightarrow> Inr (BlockList_Delete b n default_qtype)
      | [n, t] \<Rightarrow>
          (case StringToType D t of
             None \<Rightarrow> Inl (InvalidQtype n t)
           | Some qtype \<Rightarrow> Inr (BlockList_Delete b n qtype))
      | split \<Rightarrow> Inl (InvalidEntry (Join '':'' split)))"

definition BlockList_DeleteTree :: "BlockList \<Rightarrow> string \<Rightarrow> (bool \<times> BlockList) go" where
  "BlockList_DeleteTree b qname =
     (case level_DeleteTree (Root b) (splitName qname) of
        Inl p \<Rightarrow> Inl p
      | Inr (ok, root) \<Rightarrow> Inr (ok, b\<lparr>Root := root\<rparr>))"

definition BlockList_Dump :: "dns_lib \<Rightarrow> BlockList \<Rightarrow> BlockEntry list" where
  "BlockList_Dump D b = level_Dump D (Root b) []"

definition BlockList_Count :: "BlockList \<Rightarrow> nat" where
  "BlockList_Count b = level_Count (Root b)"

definition BlockList_PrintTree :: "dns_lib \<Rightarrow> BlockList \<Rightarrow> string list" where
  "BlockList_PrintTree D b = level_PrintTree D (Root b) []"

text \<open>The line functions handed to \<^verbatim>\<open>util.URLReader\<close>.\<close>

definition MakeBlockListReaderf :: "dns_lib \<Rightarrow> u16 \<Rightarrow> BlockList \<Rightarrow> string \<Rightarrow> bl_error + BlockList" where
  "MakeBlockListReaderf D default_qtype b line =
     (let line = TrimSpace line
      in if length line = 0 \<or> line ! 0 = CHR ''#'' then Inr b
         else AddEntry D b line default_qtype)"

definition MakeBlockListHostsReaderf :: "dns_lib \<Rightarrow> BlockList \<Rightarrow> string \<Rightarrow> bl_error + BlockList" where
  "MakeBlockListHostsReaderf D b line =
     (let line = TrimSpace line
      in if length line = 0 \<or> line ! 0 = CHR ''#'' then Inr b
         else AddHostsEntry D b line)"

section \<open>The abstract view: a set of entries\<close>

text \<open>
  \<open>node_at\<close> follows a path from the root (the reversed labels of a name); the entries of a trie are
  the pairs of a name and a type that some node on the name's path holds.
\<close>

fun node_at :: "level \<Rightarrow> string list \<Rightarrow> level option" where
  "node_at l [] = Some l"
| "node_at l (p # ps) =
     (case gm_get (Children l) p of None \<Rightarrow> None | Some c \<Rightarrow> node_at c ps)"

definition node_blocks :: "level \<Rightarrow> u16 \<Rightarrow> bool" where
  "node_blocks n q = (if q = TypeANY then BlockAny n else q \<in> set (BlockQtype n))"

definition entry_at :: "level \<Rightarrow> string list \<Rightarrow> u16 \<Rightarrow> bool" where
  "entry_at l path q = (case node_at l path of None \<Rightarrow> False | Some n \<Rightarrow> node_blocks n q)"

definition level_entries :: "level \<Rightarrow> (string list \<times> u16) set" where
  "level_entries l = {(parts, q). entry_at l (rev parts) q}"

text \<open>The invariant: no type twice in a node, \<open>ANY\<close> only as the flag, child labels distinct.\<close>

fun level_wf :: "level \<Rightarrow> bool" where
  "level_wf (Level a qs cs) \<longleftrightarrow>
     distinct qs \<and> TypeANY \<notin> set qs \<and> gm_wf cs \<and> (\<forall>(k, c) \<in> set cs. level_wf c)"

declare level_wf.simps [simp del]

subsection \<open>The interface\<close>

locale block_set =
  fixes empty :: 's
    and add :: "'s \<Rightarrow> 'k list \<Rightarrow> 'q \<Rightarrow> 's"
    and del :: "'s \<Rightarrow> 'k list \<Rightarrow> 'q \<Rightarrow> bool \<times> 's"
    and matches :: "'s \<Rightarrow> 'k list \<Rightarrow> 'q \<Rightarrow> bool"
    and entries :: "'s \<Rightarrow> ('k list \<times> 'q) set"
    and inv :: "'s \<Rightarrow> bool"
    and any :: 'q
  assumes entries_empty: "entries empty = {}"
    and entries_add: "inv s \<Longrightarrow> entries (add s p q) = insert (p, q) (entries s)"
    and entries_del: "inv s \<Longrightarrow> entries (snd (del s p q)) = entries s - {(p, q)}"
    and found_del: "inv s \<Longrightarrow> fst (del s p q) \<longleftrightarrow> (p, q) \<in> entries s"
    and matches_entries: "inv s \<Longrightarrow>
      matches s p q \<longleftrightarrow> (\<exists>t. suffix t p \<and> ((t, any) \<in> entries s \<or> (t, q) \<in> entries s))"
    and inv_empty: "inv empty"
    and inv_add: "inv s \<Longrightarrow> inv (add s p q)"
    and inv_del: "inv s \<Longrightarrow> inv (snd (del s p q))"
begin

lemma matches_add_iff:
  "inv s \<Longrightarrow> matches (add s t u) p q \<longleftrightarrow> matches s p q \<or> (suffix t p \<and> (u = any \<or> u = q))"
  by (auto simp: matches_entries inv_add entries_add)

lemma matches_mono:
  assumes "inv s" "inv s'" "entries s \<subseteq> entries s'" "matches s p q"
  shows "matches s' p q"
  using assms by (auto simp: matches_entries)

lemma matches_cong:
  assumes "inv s" "inv s'" "entries s = entries s'"
  shows "matches s p q \<longleftrightarrow> matches s' p q"
  using assms by (simp add: matches_entries)

lemma del_undoes_add:
  assumes "inv s" "(t, u) \<notin> entries s"
  shows "fst (del (add s t u) t u) \<and> (matches (snd (del (add s t u) t u)) p q \<longleftrightarrow> matches s p q)"
proof -
  have "entries (snd (del (add s t u) t u)) = entries s"
    using assms by (simp add: entries_del entries_add inv_add)
  then show ?thesis
    using assms by (simp add: matches_entries found_del entries_add inv_add inv_del)
qed

lemma fold_add:
  "inv s \<Longrightarrow> inv (fold (\<lambda>(p, q) s. add s p q) xs s) \<and>
     entries (fold (\<lambda>(p, q) s. add s p q) xs s) = entries s \<union> set xs"
  by (induction xs arbitrary: s) (auto simp: inv_add entries_add)

lemma load_order_irrelevant:
  assumes "set xs = set ys"
  shows "matches (fold (\<lambda>(p, q) s. add s p q) xs empty) p q \<longleftrightarrow>
         matches (fold (\<lambda>(p, q) s. add s p q) ys empty) p q"
  using assms fold_add [OF inv_empty, of xs] fold_add [OF inv_empty, of ys]
  by (intro matches_cong) (simp_all add: entries_empty)

end

subsection \<open>Following paths\<close>

lemma contains_iff [simp]: "contains xs v \<longleftrightarrow> v \<in> set xs"
  by (induction xs) auto

lemma cut_first_eq: "cut_first q xs = (if q \<in> set xs then Some (remove1 q xs) else None)"
  by (induction xs) auto

lemma level_Add_Nil [trie_simps]:
  "level_Add l [] q =
     (if q = TypeANY then Level True (BlockQtype l) (Children l)
      else if q \<in> set (BlockQtype l) then l
      else Level (BlockAny l) (BlockQtype l @ [q]) (Children l))"
  by (cases l) (simp add: level_Add.simps)

lemma level_Add_snoc [trie_simps]:
  "level_Add l (ps @ [p]) q =
     Level (BlockAny l) (BlockQtype l)
       (gm_set p (level_Add (case gm_get (Children l) p of None \<Rightarrow> NewLevel | Some c \<Rightarrow> c) ps q)
          (Children l))"
  by (cases l) (simp add: level_Add.simps Let_def)

lemma level_Match_Nil [trie_simps]: "level_Match l [] q \<longleftrightarrow> BlockAny l \<or> q \<in> set (BlockQtype l)"
  by (cases l) (simp add: level_Match.simps)

lemma level_Match_snoc [trie_simps]:
  "level_Match l (ps @ [p]) q \<longleftrightarrow> BlockAny l \<or> q \<in> set (BlockQtype l) \<or>
     (case gm_get (Children l) p of None \<Rightarrow> False | Some c \<Rightarrow> level_Match c ps q)"
  by (cases l) (simp add: level_Match.simps split: option.splits)

lemma level_Delete_Nil [trie_simps]:
  "level_Delete l [] q =
     (if q = TypeANY \<and> BlockAny l then (True, Level False (BlockQtype l) (Children l))
      else (q \<in> set (BlockQtype l), Level (BlockAny l) (remove1 q (BlockQtype l)) (Children l)))"
  by (cases l) (simp add: level_Delete.simps cut_first_eq remove1_idem)

lemma level_Delete_snoc [trie_simps]:
  "level_Delete l (ps @ [p]) q =
     (case gm_get (Children l) p of
        None \<Rightarrow> (False, l)
      | Some c \<Rightarrow> (fst (level_Delete c ps q),
          Level (BlockAny l) (BlockQtype l) (gm_set p (snd (level_Delete c ps q)) (Children l))))"
  by (cases l) (simp add: level_Delete.simps case_prod_unfold Let_def split: option.splits)

lemma entry_at_Nil [trie_simps]: "entry_at l [] q = node_blocks l q"
  by (simp add: entry_at_def)

lemma entry_at_Cons [trie_simps]:
  "entry_at l (p # ps) q = (case gm_get (Children l) p of None \<Rightarrow> False | Some c \<Rightarrow> entry_at c ps q)"
  by (simp add: entry_at_def split: option.splits)

lemma entry_at_Level [trie_simps]:
  "entry_at (Level a qs cs) (p # ps) q = (case gm_get cs p of None \<Rightarrow> False | Some c \<Rightarrow> entry_at c ps q)"
  by (simp add: entry_at_Cons)

lemma node_blocks_Level [trie_simps]:
  "node_blocks (Level a qs cs) q = (if q = TypeANY then a else q \<in> set qs)"
  by (simp add: node_blocks_def)

lemma entry_at_New [simp]: "\<not> entry_at NewLevel path q"
  by (cases path) (simp_all add: trie_simps NewLevel_def)

lemma level_wf_iff:
  "level_wf l \<longleftrightarrow> distinct (BlockQtype l) \<and> TypeANY \<notin> set (BlockQtype l) \<and> gm_wf (Children l) \<and>
     (\<forall>(k, c) \<in> set (Children l). level_wf c)"
  by (cases l) (simp add: level_wf.simps)

lemma level_wf_child: "level_wf l \<Longrightarrow> gm_get (Children l) p = Some c \<Longrightarrow> level_wf c"
  by (auto simp: level_wf_iff [of l] dest: gm_get_in)

lemma level_wf_New [simp]: "level_wf NewLevel"
  by (simp add: NewLevel_def level_wf.simps)

lemma level_wf_set_child:
  "level_wf l \<Longrightarrow> level_wf c \<Longrightarrow> level_wf (Level (BlockAny l) (BlockQtype l) (gm_set p c (Children l)))"
  by (auto simp: level_wf_iff [of l] level_wf.simps dest: gm_set_in)

subsection \<open>Every operation keeps the invariant and acts on the entries\<close>

lemma level_wf_Add: "level_wf l \<Longrightarrow> level_wf (level_Add l parts q)"
proof (induction parts arbitrary: l rule: rev_induct)
  case Nil
  then show ?case by (simp add: trie_simps level_wf.simps level_wf_iff [of l])
next
  case (snoc p ps)
  then show ?case
    by (auto simp: trie_simps intro!: level_wf_set_child dest: level_wf_child split: option.splits)
qed

lemma entry_at_Add:
  "entry_at (level_Add l parts q) path q' \<longleftrightarrow> (path = rev parts \<and> q' = q) \<or> entry_at l path q'"
proof (induction parts arbitrary: l path rule: rev_induct)
  case Nil
  then show ?case by (cases path) (auto simp: trie_simps node_blocks_def)
next
  case (snoc p ps)
  then show ?case
    by (cases path) (auto simp: trie_simps node_blocks_def split: option.splits)
qed

lemma level_entries_Add: "level_entries (level_Add l parts q) = insert (parts, q) (level_entries l)"
  by (auto simp: level_entries_def entry_at_Add)

lemma level_Match_path:
  "level_wf l \<Longrightarrow> level_Match l parts q \<longleftrightarrow>
     (\<exists>path. prefix path (rev parts) \<and> (entry_at l path TypeANY \<or> entry_at l path q))"
proof (induction parts arbitrary: l rule: rev_induct)
  case Nil
  then show ?case by (auto simp: trie_simps node_blocks_def level_wf_iff [of l])
next
  case (snoc p ps)
  have child: "gm_get (Children l) p = Some c \<Longrightarrow> level_Match c ps q \<longleftrightarrow>
     (\<exists>path. prefix path (rev ps) \<and> (entry_at c path TypeANY \<or> entry_at c path q))" for c
    using snoc level_wf_child by blast
  have root: "entry_at l [] TypeANY \<or> entry_at l [] q \<longleftrightarrow> BlockAny l \<or> q \<in> set (BlockQtype l)"
    using snoc.prems by (auto simp: trie_simps node_blocks_def level_wf_iff [of l])
  have "(\<exists>path. prefix path (rev (ps @ [p])) \<and> (entry_at l path TypeANY \<or> entry_at l path q)) \<longleftrightarrow>
      (entry_at l [] TypeANY \<or> entry_at l [] q) \<or>
      (\<exists>path. prefix path (rev ps) \<and> (entry_at l (p # path) TypeANY \<or> entry_at l (p # path) q))"
    by (auto simp: prefix_Cons)
  then show ?case
    unfolding root by (auto simp: trie_simps child split: option.splits)
qed

lemma level_Match_entries:
  assumes "level_wf l"
  shows "level_Match l parts q \<longleftrightarrow>
    (\<exists>t. suffix t parts \<and> ((t, TypeANY) \<in> level_entries l \<or> (t, q) \<in> level_entries l))"
proof
  assume "level_Match l parts q"
  then obtain path where "prefix path (rev parts)" "entry_at l path TypeANY \<or> entry_at l path q"
    using level_Match_path [OF assms] by blast
  then show "\<exists>t. suffix t parts \<and> ((t, TypeANY) \<in> level_entries l \<or> (t, q) \<in> level_entries l)"
    by (intro exI [of _ "rev path"]) (auto simp: level_entries_def suffix_to_prefix)
next
  assume "\<exists>t. suffix t parts \<and> ((t, TypeANY) \<in> level_entries l \<or> (t, q) \<in> level_entries l)"
  then show "level_Match l parts q"
    by (auto simp: level_Match_path [OF assms] level_entries_def suffix_to_prefix)
qed

lemma level_wf_Delete: "level_wf l \<Longrightarrow> level_wf (snd (level_Delete l parts q))"
proof (induction parts arbitrary: l rule: rev_induct)
  case Nil
  then show ?case by (auto simp: trie_simps level_wf.simps level_wf_iff [of l])
next
  case (snoc p ps)
  then show ?case
    by (auto simp: trie_simps intro!: level_wf_set_child dest: level_wf_child split: option.splits)
qed

lemma entry_at_Delete:
  "level_wf l \<Longrightarrow>
     (fst (level_Delete l parts q) \<longleftrightarrow> entry_at l (rev parts) q) \<and>
     (entry_at (snd (level_Delete l parts q)) path q' \<longleftrightarrow>
        entry_at l path q' \<and> \<not> (path = rev parts \<and> q' = q))"
proof (induction parts arbitrary: l path rule: rev_induct)
  case Nil
  then show ?case
    by (cases path) (auto simp: trie_simps node_blocks_def level_wf_iff [of l])
next
  case (snoc p ps)
  then show ?case
    by (cases path)
       (auto simp: trie_simps node_blocks_def dest: level_wf_child split: option.splits)
qed

lemma level_entries_New: "level_entries NewLevel = {}"
  by (simp add: level_entries_def)

lemma level_entries_Delete:
  "level_wf l \<Longrightarrow> level_entries (snd (level_Delete l parts q)) = level_entries l - {(parts, q)}"
  by (auto simp: level_entries_def entry_at_Delete)

lemma found_Delete: "level_wf l \<Longrightarrow> fst (level_Delete l parts q) \<longleftrightarrow> (parts, q) \<in> level_entries l"
  by (simp add: level_entries_def entry_at_Delete)

interpretation trie: block_set NewLevel level_Add level_Delete level_Match level_entries level_wf TypeANY
  by unfold_locales
     (simp_all add: level_entries_New level_entries_Add level_entries_Delete found_Delete
       level_Match_entries level_wf_Add level_wf_Delete)

subsection \<open>Deleting a subtree\<close>

lemma level_DeleteTree_single [trie_simps]:
  "level_DeleteTree l [p] =
     Inr (gm_get (Children l) p \<noteq> None, Level (BlockAny l) (BlockQtype l) (gm_del p (Children l)))"
  by (cases l) (simp add: level_DeleteTree.simps)

lemma level_DeleteTree_snoc [trie_simps]:
  "ps \<noteq> [] \<Longrightarrow> level_DeleteTree l (ps @ [p]) =
     (case gm_get (Children l) p of
        None \<Rightarrow> Inr (False, l)
      | Some c \<Rightarrow> (case level_DeleteTree c ps of
           Inl e \<Rightarrow> Inl e
         | Inr (ok, c') \<Rightarrow> Inr (ok, Level (BlockAny l) (BlockQtype l) (gm_set p c' (Children l)))))"
  by (cases l) (simp add: level_DeleteTree.simps split: option.splits sum.splits prod.splits)

lemma level_wf_del_child:
  "level_wf l \<Longrightarrow> level_wf (Level (BlockAny l) (BlockQtype l) (gm_del p (Children l)))"
  by (auto simp: level_wf_iff [of l] level_wf.simps dest: gm_del_in)

lemma level_DeleteTree_ok:
  "parts \<noteq> [] \<Longrightarrow> \<exists>l'. level_DeleteTree l parts = Inr (node_at l (rev parts) \<noteq> None, l') \<and>
     (\<forall>path q. entry_at l' path q \<longleftrightarrow> entry_at l path q \<and> \<not> prefix (rev parts) path) \<and>
     (level_wf l \<longrightarrow> level_wf l')"
proof (induction parts arbitrary: l rule: rev_induct)
  case (snoc p ps)
  show ?case
  proof (cases "ps = []")
    case True
    have "entry_at (Level (BlockAny l) (BlockQtype l) (gm_del p (Children l))) path q \<longleftrightarrow>
        entry_at l path q \<and> \<not> prefix [p] path" for path q
      by (cases path) (auto simp: trie_simps node_blocks_def split: option.splits)
    with True show ?thesis
      by (auto simp: trie_simps level_wf_del_child split: option.splits)
  next
    case False
    show ?thesis
    proof (cases "gm_get (Children l) p")
      case None
      then have "entry_at l path q \<Longrightarrow> \<not> prefix (p # rev ps) path" for path q
        by (cases path) (auto simp: trie_simps)
      with False None show ?thesis by (auto simp: trie_simps)
    next
      case (Some c)
      from snoc.IH [OF False, of c] obtain c' where c':
        "level_DeleteTree c ps = Inr (node_at c (rev ps) \<noteq> None, c')"
        "\<And>path q. entry_at c' path q \<longleftrightarrow> entry_at c path q \<and> \<not> prefix (rev ps) path"
        "level_wf c \<Longrightarrow> level_wf c'" by blast
      have "entry_at (Level (BlockAny l) (BlockQtype l) (gm_set p c' (Children l))) path q \<longleftrightarrow>
          entry_at l path q \<and> \<not> prefix (p # rev ps) path" for path q
        using Some by (cases path) (auto simp: trie_simps node_blocks_def c'(2))
      moreover have "level_wf l \<Longrightarrow>
          level_wf (Level (BlockAny l) (BlockQtype l) (gm_set p c' (Children l)))"
        using Some c'(3) level_wf_child level_wf_set_child by blast
      ultimately show ?thesis using False Some c'(1) by (simp add: trie_simps)
    qed
  qed
qed simp

lemma level_entries_DeleteTree:
  assumes "level_wf l" "parts \<noteq> []"
  obtains l' where "level_DeleteTree l parts = Inr (node_at l (rev parts) \<noteq> None, l')"
    "level_entries l' = {(n, q) \<in> level_entries l. \<not> suffix parts n}" "level_wf l'"
proof -
  from level_DeleteTree_ok [OF assms(2), of l] obtain l' where l':
    "level_DeleteTree l parts = Inr (node_at l (rev parts) \<noteq> None, l')"
    "\<And>path q. entry_at l' path q \<longleftrightarrow> entry_at l path q \<and> \<not> prefix (rev parts) path"
    "level_wf l \<longrightarrow> level_wf l'" by blast
  have "level_entries l' = {(n, q) \<in> level_entries l. \<not> suffix parts n}"
    by (auto simp: level_entries_def l'(2) suffix_to_prefix)
  with l' assms(1) that show thesis by blast
qed

subsection \<open>Counting\<close>

definition path_entries :: "level \<Rightarrow> (string list \<times> u16) set" where
  "path_entries l = {(path, q). entry_at l path q}"

lemma node_entries:
  "TypeANY \<notin> set qs \<Longrightarrow>
     {q. node_blocks (Level a qs cs) q} = (if a then {TypeANY} else {}) \<union> set qs"
  by (auto simp: node_blocks_def)

lemma path_entries_Level:
  assumes "gm_wf cs"
  shows "path_entries (Level a qs cs) = Pair [] ` {q. node_blocks (Level a qs cs) q} \<union>
    (\<Union>(k, c) \<in> set cs. (\<lambda>(p, q). (k # p, q)) ` path_entries c)"
proof -
  have deep: "(p # ps, q) \<in> path_entries (Level a qs cs) \<longleftrightarrow>
      (\<exists>c. (p, c) \<in> set cs \<and> (ps, q) \<in> path_entries c)" for p ps q
    by (auto simp: path_entries_def trie_simps map_of_eq_Some_iff [OF assms, symmetric]
        simp del: map_of_eq_Some_iff split: option.splits)
  have root: "([], q) \<in> path_entries (Level a qs cs) \<longleftrightarrow> node_blocks (Level a qs cs) q" for q
    by (simp add: path_entries_def trie_simps)
  show ?thesis
  proof (intro set_eqI iffI)
    fix x assume x: "x \<in> path_entries (Level a qs cs)"
    show "x \<in> Pair [] ` {q. node_blocks (Level a qs cs) q} \<union>
        (\<Union>(k, c) \<in> set cs. (\<lambda>(p, q). (k # p, q)) ` path_entries c)"
    proof (cases "fst x")
      case Nil
      with x show ?thesis by (cases x) (simp add: root)
    next
      case (Cons p ps)
      with x obtain c where "(p, c) \<in> set cs" "(ps, snd x) \<in> path_entries c"
        by (cases x) (auto simp: deep)
      with Cons show ?thesis
        by (intro UnI2 UN_I [of "(p, c)"]) (auto simp: prod_eq_iff intro: rev_image_eqI)
    qed
  next
    fix x assume "x \<in> Pair [] ` {q. node_blocks (Level a qs cs) q} \<union>
        (\<Union>(k, c) \<in> set cs. (\<lambda>(p, q). (k # p, q)) ` path_entries c)"
    then show "x \<in> path_entries (Level a qs cs)" by (auto simp: root deep)
  qed
qed

lemma Count_path_entries:
  "level_wf l \<Longrightarrow> finite (path_entries l) \<and> level_Count l = card (path_entries l)"
proof (induction l rule: level_Count.induct)
  case (1 a qs cs)
  from "1.prems" have wf: "distinct qs" "TypeANY \<notin> set qs" "gm_wf cs"
    "\<And>k c. (k, c) \<in> set cs \<Longrightarrow> level_wf c" by (auto simp: level_wf.simps)
  let ?root = "Pair ([] :: string list) ` {q. node_blocks (Level a qs cs) q}"
  let ?sub = "\<lambda>kc. (\<lambda>(p, q). (fst kc # p, q)) ` path_entries (snd kc)"
  have IH: "finite (path_entries (snd kc)) \<and> level_Count (snd kc) = card (path_entries (snd kc))"
    if "kc \<in> set cs" for kc
    using "1.IH" [of kc "fst kc" "snd kc"] wf(4) [of "fst kc" "snd kc"] that by simp
  have inj: "inj_on (\<lambda>(p, q). (k # p, q)) A" for k :: string and A :: "(string list \<times> u16) set"
    by (auto simp: inj_on_def)
  have cs: "distinct cs" using wf(3) by (simp add: distinct_map)
  have key: "kc = kc'" if "kc \<in> set cs" "kc' \<in> set cs" "fst kc = fst kc'" for kc kc'
    using wf(3) that by (metis eq_key_imp_eq_value prod.collapse)
  have "card (\<Union>kc \<in> set cs. ?sub kc) = (\<Sum>kc \<in> set cs. card (?sub kc))"
    by (rule card_UN_disjoint) (use IH key in auto)
  also have "\<dots> = (\<Sum>kc \<in> set cs. level_Count (snd kc))"
    using IH by (intro sum.cong) (simp_all add: card_image [OF inj])
  also have "\<dots> = sum_list (map (\<lambda>(k, v). level_Count v) cs)"
    using cs by (simp add: sum.distinct_set_conv_list case_prod_unfold)
  finally have sub: "card (\<Union>kc \<in> set cs. ?sub kc) = sum_list (map (\<lambda>(k, v). level_Count v) cs)" .
  have root: "finite ?root" "card ?root = (if a then 1 else 0) + length qs"
    using wf(1,2) by (auto simp: node_entries card_image inj_on_def distinct_card)
  have pe: "path_entries (Level a qs cs) = ?root \<union> (\<Union>kc \<in> set cs. ?sub kc)"
    by (simp add: path_entries_Level [OF wf(3)] case_prod_unfold)
  have "finite (\<Union>kc \<in> set cs. ?sub kc)" using IH by simp
  moreover have "?root \<inter> (\<Union>kc \<in> set cs. ?sub kc) = {}" by auto
  ultimately show ?case
    using root sub unfolding pe by (simp add: card_Un_disjoint level_Count.simps)
qed

lemma Count_entries: "level_wf l \<Longrightarrow> finite (level_entries l) \<and> level_Count l = card (level_entries l)"
proof -
  assume wf: "level_wf l"
  have im: "level_entries l = (\<lambda>(p, q). (rev p, q)) ` path_entries l"
    by (force simp: level_entries_def path_entries_def)
  have "inj_on (\<lambda>(p, q). (rev p, q)) (path_entries l)" by (auto simp: inj_on_def)
  with Count_path_entries [OF wf] show ?thesis by (simp add: im card_image)
qed

section \<open>Names\<close>

lemma in_ToLower:
  assumes "\<not> (97 \<le> (of_char d :: nat) \<and> (of_char d :: nat) \<le> 122)"
    and "\<not> (65 \<le> (of_char d :: nat) \<and> (of_char d :: nat) \<le> 90)"
  shows "d \<in> set (ToLower s) \<longleftrightarrow> d \<in> set s"
proof -
  have "d \<in> set (ToLower s) \<longleftrightarrow> (\<exists>c \<in> set s. lower_char c = d)"
    by (auto simp: ToLower_def)
  then show ?thesis using assms by (simp add: lower_char_eq_iff)
qed

lemma dot_in_ToLower: "CHR ''.'' \<in> set (ToLower s) \<longleftrightarrow> CHR ''.'' \<in> set s"
  by (simp add: in_ToLower)

lemma ToLower_Nil_iff [simp]: "ToLower s = [] \<longleftrightarrow> s = []"
  by (simp add: ToLower_def)

lemma TrimSuffix_dot_ToLower: "TrimSuffix (ToLower s) ''.'' = ToLower (TrimSuffix s ''.'')"
  by (auto simp: TrimSuffix_single ToLower_def last_map map_butlast)

lemma ToLower_eq_dot [simp]: "ToLower s = ''.'' \<longleftrightarrow> s = ''.''"
  by (auto simp: ToLower_def map_eq_Cons_conv)

lemma splitName_ToLower: "splitName (ToLower n) = splitName n"
  by (simp add: splitName_def TrimSuffix_dot_ToLower)

lemma splitName_dot: "n \<noteq> '''' \<Longrightarrow> last n \<noteq> CHR ''.'' \<Longrightarrow> splitName (n @ ''.'') = splitName n"
  by (auto simp: splitName_def TrimSuffix_id HasSuffix_single)

lemma splitName_Nil_iff: "splitName n = [] \<longleftrightarrow> n = '''' \<or> n = ''.''"
  by (simp add: splitName_def)

text \<open>The names that label lists stand for: \<open>splitName\<close> reads them back.\<close>

definition name_labels :: "string list \<Rightarrow> bool" where
  "name_labels parts \<longleftrightarrow> parts \<noteq> [''''] \<and> (\<forall>p \<in> set parts. CHR ''.'' \<notin> set p \<and> ToLower p = p)"

lemma splitName_labels: "name_labels (splitName n)"
proof (cases "n = '''' \<or> n = ''.''")
  case False
  let ?s = "TrimSuffix n ''.''"
  have ne: "?s \<noteq> ''''"
    using False by (cases n rule: rev_cases) (auto simp: TrimSuffix_single)
  have sp: "splitName n = map ToLower (Split CHR ''.'' ?s)"
    using False by (simp add: splitName_def Split_ToLower)
  have "Split CHR ''.'' ?s \<noteq> ['''']"
    using ne Join_Split [of "CHR ''.''" ?s] by auto
  moreover have "CHR ''.'' \<notin> set (ToLower p)" if "p \<in> set (Split CHR ''.'' ?s)" for p
    using Split_parts [OF that] by (simp add: dot_in_ToLower)
  ultimately show ?thesis
    by (auto simp: name_labels_def sp map_eq_Cons_conv)
qed (auto simp: name_labels_def splitName_def)

lemma ToLower_Join: "\<forall>p \<in> set parts. ToLower p = p \<Longrightarrow> ToLower (Join ''.'' parts) = Join ''.'' parts"
  by (induction "''.''" parts rule: Join.induct) (auto simp: ToLower_append ToLower_Cons)

lemma Join_Nil_iff: "Join ''.'' parts = '''' \<longleftrightarrow> parts = [] \<or> parts = ['''']"
  by (induction "''.''" parts rule: Join.induct) auto

lemma splitName_Join:
  assumes "name_labels parts"
  shows "splitName (Join ''.'' parts @ ''.'') = parts"
proof (cases "parts = []")
  case False
  with assms have "Join ''.'' parts \<noteq> ''''" by (simp add: Join_Nil_iff name_labels_def)
  then have "splitName (Join ''.'' parts @ ''.'') = Split CHR ''.'' (ToLower (Join ''.'' parts))"
    by (simp add: splitName_def)
  also have "\<dots> = parts"
    using False assms by (simp add: ToLower_Join Split_Join name_labels_def)
  finally show ?thesis .
qed (simp add: splitName_def)

section \<open>Dumping\<close>

definition node_dump :: "dns_lib \<Rightarrow> level \<Rightarrow> string list" where
  "node_dump D n = (if BlockAny n then [''ANY''] else []) @ map (TypeToString D) (BlockQtype n)"

lemma node_at_Cons_Some:
  "node_at l (k # path) = Some n \<longleftrightarrow> (\<exists>c. gm_get (Children l) k = Some c \<and> node_at c path = Some n)"
  by (simp split: option.splits)

lemma level_Dump_set:
  "level_wf l \<Longrightarrow> e \<in> set (level_Dump D l pfx) \<longleftrightarrow>
     (\<exists>path n. node_at l path = Some n \<and> node_dump D n \<noteq> [] \<and>
        e = \<lparr>BE_Name = Join ''.'' (rev path @ pfx) @ ''.'', BE_Block = node_dump D n\<rparr>)"
proof (induction D l pfx rule: level_Dump.induct)
  case (1 D a qs cs pfx)
  let ?is = "\<lambda>l pfx path. \<exists>n. node_at l path = Some n \<and> node_dump D n \<noteq> [] \<and>
        e = \<lparr>BE_Name = Join ''.'' (rev path @ pfx) @ ''.'', BE_Block = node_dump D n\<rparr>"
  from "1.prems" have wf: "gm_wf cs" "\<And>k c. (k, c) \<in> set cs \<Longrightarrow> level_wf c"
    by (auto simp: level_wf.simps)
  have IHc: "e \<in> set (level_Dump D (snd kc) (fst kc # pfx)) \<longleftrightarrow> (\<exists>path. ?is (snd kc) (fst kc # pfx) path)"
    if "kc \<in> set cs" for kc
    using "1.IH" [OF refl that prod.collapse] wf(2) [of "fst kc" "snd kc"] that by simp
  have sub: "(\<exists>(k, c) \<in> set cs. e \<in> set (level_Dump D c (k # pfx))) \<longleftrightarrow>
      (\<exists>k path. ?is (Level a qs cs) pfx (k # path))"
  proof -
    have "(\<exists>(k, c) \<in> set cs. e \<in> set (level_Dump D c (k # pfx))) \<longleftrightarrow>
        (\<exists>(k, c) \<in> set cs. \<exists>path. ?is c (k # pfx) path)"
      by (intro bex_cong refl) (auto simp only: IHc case_prod_beta prod.collapse)
    also have "\<dots> \<longleftrightarrow> (\<exists>k c path. gm_get cs k = Some c \<and> ?is c (k # pfx) path)"
      using wf(1) by (auto simp: Bex_def)
    also have "\<dots> \<longleftrightarrow> (\<exists>k path. ?is (Level a qs cs) pfx (k # path))"
      by (simp add: node_at_Cons_Some del: node_at.simps(2)) blast
    finally show ?thesis .
  qed
  have "e \<in> set (level_Dump D (Level a qs cs) pfx) \<longleftrightarrow>
      ?is (Level a qs cs) pfx [] \<or> (\<exists>(k, c) \<in> set cs. e \<in> set (level_Dump D c (k # pfx)))"
    by (auto simp: level_Dump.simps Let_def node_dump_def)
  also have "\<dots> \<longleftrightarrow> (\<exists>path. ?is (Level a qs cs) pfx path)"
    unfolding sub by (metis list.exhaust)
  finally show ?case .
qed

section \<open>Entries of a list\<close>

definition bl_entries :: "BlockList \<Rightarrow> (string list \<times> u16) set" where
  "bl_entries b = level_entries (Root b)"

definition bl_wf :: "BlockList \<Rightarrow> bool" where
  "bl_wf b \<longleftrightarrow> level_wf (Root b)"

text \<open>When a set of entries blocks a name: an entry for the name or a parent, for the type or \<open>ANY\<close>.\<close>

definition blocked_by :: "(string list \<times> u16) set \<Rightarrow> string list \<Rightarrow> u16 \<Rightarrow> bool" where
  "blocked_by E parts q \<longleftrightarrow> (\<exists>t. suffix t parts \<and> ((t, TypeANY) \<in> E \<or> (t, q) \<in> E))"

lemma bl_New [simp]: "bl_wf BlockList_New" "bl_entries BlockList_New = {}"
  by (simp_all add: bl_wf_def bl_entries_def BlockList_New_def level_entries_New)

lemma bl_Add [simp]:
  "bl_wf b \<Longrightarrow> bl_wf (BlockList_Add b n q)"
  "bl_entries (BlockList_Add b n q) = insert (splitName n, q) (bl_entries b)"
  by (simp_all add: bl_wf_def bl_entries_def BlockList_Add_def level_wf_Add level_entries_Add)

lemma bl_Delete:
  assumes "bl_wf b"
  shows "bl_wf (snd (BlockList_Delete b n q))"
    "bl_entries (snd (BlockList_Delete b n q)) = bl_entries b - {(splitName n, q)}"
    "fst (BlockList_Delete b n q) \<longleftrightarrow> (splitName n, q) \<in> bl_entries b"
  using assms
  by (simp_all add: bl_wf_def bl_entries_def BlockList_Delete_def case_prod_unfold Let_def
      level_wf_Delete level_entries_Delete found_Delete)

lemma bl_Match: "bl_wf b \<Longrightarrow> BlockList_Match b n q \<longleftrightarrow> blocked_by (bl_entries b) (splitName n) q"
  by (simp add: bl_wf_def bl_entries_def BlockList_Match_def level_Match_entries blocked_by_def)

lemma bl_Count: "bl_wf b \<Longrightarrow> BlockList_Count b = card (bl_entries b)"
  by (simp add: bl_wf_def bl_entries_def BlockList_Count_def Count_entries)

lemma bl_DeleteTree:
  assumes "bl_wf b" "splitName n \<noteq> []"
  obtains ok b' where "BlockList_DeleteTree b n = Inr (ok, b')" "bl_wf b'"
    "bl_entries b' = {(m, q) \<in> bl_entries b. \<not> suffix (splitName n) m}"
    "ok \<longleftrightarrow> node_at (Root b) (rev (splitName n)) \<noteq> None"
proof -
  from assms obtain l' where
    "level_DeleteTree (Root b) (splitName n) = Inr (node_at (Root b) (rev (splitName n)) \<noteq> None, l')"
    "level_entries l' = {(m, q) \<in> level_entries (Root b). \<not> suffix (splitName n) m}" "level_wf l'"
    unfolding bl_wf_def by (rule level_entries_DeleteTree)
  then show thesis
    by (intro that [of "node_at (Root b) (rev (splitName n)) \<noteq> None" "b\<lparr>Root := l'\<rparr>"])
       (simp_all add: BlockList_DeleteTree_def bl_wf_def bl_entries_def)
qed

lemma bl_DeleteTree_root: "splitName n = [] \<Longrightarrow> BlockList_DeleteTree b n = Inl IndexOutOfRange"
  by (cases "Root b") (simp add: BlockList_DeleteTree_def level_DeleteTree.simps)

lemma bl_DeleteTree_total: "splitName n \<noteq> [] \<Longrightarrow> \<exists>ok b'. BlockList_DeleteTree b n = Inr (ok, b')"
  using level_DeleteTree_ok [of "splitName n" "Root b"] by (auto simp: BlockList_DeleteTree_def)

section \<open>Loading entries\<close>

text \<open>The loop over a list of entries (\<^verbatim>\<open>user_config.Block\<close>): it stops at the first bad entry.\<close>

fun AddEntries :: "dns_lib \<Rightarrow> u16 \<Rightarrow> BlockList \<Rightarrow> string list \<Rightarrow> bl_error + BlockList" where
  "AddEntries D q b [] = Inr b"
| "AddEntries D q b (x # xs) = (case AddEntry D b x q of Inl e \<Rightarrow> Inl e | Inr b' \<Rightarrow> AddEntries D q b' xs)"

text \<open>What one entry means: its labels and type, if it is well formed.\<close>

definition parse_entry :: "dns_lib \<Rightarrow> u16 \<Rightarrow> string \<Rightarrow> (string list \<times> u16) option" where
  "parse_entry D default_qtype entry =
     (case Split CHR '':'' entry of
        [n] \<Rightarrow> Some (splitName n, default_qtype)
      | [n, t] \<Rightarrow> map_option (Pair (splitName n)) (StringToType D t)
      | _ \<Rightarrow> None)"

lemma AddEntry_parse:
  "AddEntry D b s q =
     (case parse_entry D q s of
        Some (p, t) \<Rightarrow> Inr (b\<lparr>Root := level_Add (Root b) p t\<rparr>)
      | None \<Rightarrow> AddEntry D b s q)"
  by (simp add: AddEntry_def parse_entry_def BlockList_Add_def split: list.splits option.splits)

lemma AddEntry_Some:
  "parse_entry D q s = Some (p, t) \<Longrightarrow> AddEntry D b s q = Inr (b\<lparr>Root := level_Add (Root b) p t\<rparr>)"
  using AddEntry_parse [of D b s q] by simp

lemma AddEntry_ok_iff: "(\<exists>b'. AddEntry D b s q = Inr b') \<longleftrightarrow> parse_entry D q s \<noteq> None"
  by (auto simp: AddEntry_def parse_entry_def split: list.splits option.splits)

lemma AddEntries_ok:
  assumes "\<forall>s \<in> set xs. parse_entry D q s \<noteq> None" "bl_wf b"
  shows "\<exists>b'. AddEntries D q b xs = Inr b' \<and> bl_wf b' \<and>
    bl_entries b' = bl_entries b \<union> {e. \<exists>s \<in> set xs. parse_entry D q s = Some e}"
  using assms
proof (induction xs arbitrary: b)
  case (Cons x xs)
  then obtain p t where pt: "parse_entry D q x = Some (p, t)" by auto
  let ?b = "b\<lparr>Root := level_Add (Root b) p t\<rparr>"
  have "bl_wf ?b" "bl_entries ?b = insert (p, t) (bl_entries b)"
    using Cons.prems by (simp_all add: bl_wf_def bl_entries_def level_wf_Add level_entries_Add)
  with Cons.IH [of ?b] Cons.prems pt show ?case by (auto simp: AddEntry_Some)
qed simp

lemma AddEntries_Inr:
  assumes "AddEntries D q b xs = Inr b'"
  shows "\<forall>s \<in> set xs. parse_entry D q s \<noteq> None"
  using assms
proof (induction xs arbitrary: b)
  case (Cons x xs)
  then obtain b1 where b1: "AddEntry D b x q = Inr b1" "AddEntries D q b1 xs = Inr b'"
    by (auto split: sum.splits)
  with Cons.IH [OF b1(2)] AddEntry_ok_iff [of D b x q] show ?case by simp
qed simp

definition entry_lines :: "BlockEntry \<Rightarrow> string list" where
  "entry_lines e = map (\<lambda>t. BE_Name e @ '':'' @ t) (BE_Block e)"

definition dump_lines :: "dns_lib \<Rightarrow> BlockList \<Rightarrow> string list" where
  "dump_lines D b = concat (map entry_lines (BlockList_Dump D b))"

definition dumpable :: "dns_lib \<Rightarrow> string list \<times> u16 \<Rightarrow> bool" where
  "dumpable D = (\<lambda>(p, q). name_labels p \<and> (\<forall>l \<in> set p. CHR '':'' \<notin> set l) \<and> TypeToString D q \<noteq> '''')"

lemma colon_not_in_ToLower: "CHR '':'' \<notin> set s \<Longrightarrow> CHR '':'' \<notin> set (ToLower s)"
  by (simp add: in_ToLower)

lemma Split_subset: "p \<in> set (Split c s) \<Longrightarrow> set p \<subseteq> set s"
  by (induction s arbitrary: p) (fastforce split: if_splits list.splits)+

lemma splitName_no_colon: "CHR '':'' \<notin> set n \<Longrightarrow> p \<in> set (splitName n) \<Longrightarrow> CHR '':'' \<notin> set p"
proof -
  assume n: "CHR '':'' \<notin> set n" and p: "p \<in> set (splitName n)"
  have "CHR '':'' \<notin> set (TrimSuffix n ''.'')"
    using n by (auto simp: TrimSuffix_single dest: in_set_butlastD)
  then show "CHR '':'' \<notin> set p"
    using p Split_subset colon_not_in_ToLower by (fastforce simp: splitName_def split: if_splits)
qed

lemma parse_entry_dumpable:
  assumes "TypeTables_doc D" "TypeToString D q0 \<noteq> ''''" "parse_entry D q0 s = Some e"
  shows "dumpable D e"
proof -
  obtain n t where e: "e = (splitName n, t)" and n: "n \<in> set (Split CHR '':'' s)"
    and t: "TypeToString D t \<noteq> ''''"
    using assms by (auto simp: parse_entry_def TypeTables_doc_def split: list.splits)
  from Split_parts [OF n] have "\<forall>l \<in> set (splitName n). CHR '':'' \<notin> set l"
    using splitName_no_colon by blast
  with e t show ?thesis by (simp add: dumpable_def splitName_labels)
qed

lemma set_Join: "set (Join sep ps) \<subseteq> set sep \<union> (\<Union>p \<in> set ps. set p)"
  by (induction sep ps rule: Join.induct) auto

lemma parse_entry_line:
  assumes "TypeTables_doc D" "dumpable D (p, q)"
  shows "parse_entry D q0 ((Join ''.'' p @ ''.'') @ '':'' @ TypeToString D q) = Some (p, q)"
proof -
  have 1: "CHR '':'' \<notin> set (Join ''.'' p @ ''.'')"
    using assms(2) set_Join [of "''.''" p] by (auto simp: dumpable_def)
  have 2: "StringToType D (TypeToString D q) = Some q" "CHR '':'' \<notin> set (TypeToString D q)"
    using assms by (auto simp: TypeTables_doc_def dumpable_def)
  have "Split CHR '':'' ((Join ''.'' p @ ''.'') @ CHR '':'' # TypeToString D q) =
      [Join ''.'' p @ ''.'', TypeToString D q]"
    by (simp only: Split_append_sep [OF 1] Split_no_sep [OF 2(2)])
  with 2 assms(2) show ?thesis
    by (simp add: parse_entry_def splitName_Join dumpable_def)
qed

lemma dump_lines_set:
  assumes "TypeTables_doc D" "bl_wf b"
  shows "x \<in> set (dump_lines D b) \<longleftrightarrow>
    (\<exists>(p, q) \<in> bl_entries b. x = (Join ''.'' p @ ''.'') @ '':'' @ TypeToString D q)"
proof -
  have any: "TypeToString D TypeANY = ''ANY''" using assms(1) by (auto simp: TypeTables_doc_def)
  have node: "t \<in> set (node_dump D n) \<longleftrightarrow> (\<exists>q. node_blocks n q \<and> t = TypeToString D q)"
    if "level_wf n" for n t
  proof -
    have "{q. node_blocks n q} = (if BlockAny n then {TypeANY} else {}) \<union> set (BlockQtype n)"
      using that node_entries [of "BlockQtype n" "BlockAny n" "Children n"]
      by (simp add: level_wf_iff [of n])
    then have "set (node_dump D n) = TypeToString D ` {q. node_blocks n q}"
      by (simp add: node_dump_def any image_Un)
    then show ?thesis by auto
  qed
  have wf: "node_at l path = Some n \<Longrightarrow> level_wf l \<Longrightarrow> level_wf n" for l path n
    by (induction l path rule: node_at.induct) (auto dest: level_wf_child split: option.splits)
  have "x \<in> set (dump_lines D b) \<longleftrightarrow> (\<exists>e. e \<in> set (level_Dump D (Root b) []) \<and> x \<in> set (entry_lines e))"
    by (auto simp: dump_lines_def BlockList_Dump_def)
  also have "\<dots> \<longleftrightarrow> (\<exists>path n. node_at (Root b) path = Some n \<and> node_dump D n \<noteq> [] \<and>
      x \<in> set (entry_lines \<lparr>BE_Name = Join ''.'' (rev path) @ ''.'', BE_Block = node_dump D n\<rparr>))"
    using assms(2) by (simp add: level_Dump_set bl_wf_def) blast
  also have "\<dots> \<longleftrightarrow> (\<exists>path n t. node_at (Root b) path = Some n \<and>
      t \<in> set (node_dump D n) \<and> x = (Join ''.'' (rev path) @ ''.'') @ '':'' @ t)"
    by (auto simp: entry_lines_def image_iff) fastforce
  also have "\<dots> \<longleftrightarrow> (\<exists>path q. entry_at (Root b) path q \<and>
      x = (Join ''.'' (rev path) @ ''.'') @ '':'' @ TypeToString D q)"
    using node wf assms(2) by (fastforce simp: entry_at_def bl_wf_def split: option.splits)
  also have "\<dots> \<longleftrightarrow> (\<exists>(p, q) \<in> bl_entries b. x = (Join ''.'' p @ ''.'') @ '':'' @ TypeToString D q)"
    by (auto simp: bl_entries_def level_entries_def) (metis rev_rev_ident)+
  finally show ?thesis .
qed

lemma DeleteEntry_parse:
  "parse_entry D q s = Some (p, t) \<Longrightarrow>
     DeleteEntry D b s q = Inr (fst (level_Delete (Root b) p t), b\<lparr>Root := snd (level_Delete (Root b) p t)\<rparr>)"
  by (auto simp: DeleteEntry_def parse_entry_def BlockList_Delete_def case_prod_unfold Let_def
      split: list.splits option.splits)

section \<open>Runs of operations\<close>

text \<open>Sequences of operations on a list, and what each means on the set of entries.\<close>

datatype bl_op = OpAdd string u16 | OpDelete string u16 | OpDeleteTree string

fun bl_step :: "bl_op \<Rightarrow> BlockList \<Rightarrow> BlockList go" where
  "bl_step (OpAdd n q) b = Inr (BlockList_Add b n q)"
| "bl_step (OpDelete n q) b = Inr (snd (BlockList_Delete b n q))"
| "bl_step (OpDeleteTree n) b = map_sum id snd (BlockList_DeleteTree b n)"

fun bl_run :: "bl_op list \<Rightarrow> BlockList \<Rightarrow> BlockList go" where
  "bl_run [] b = Inr b"
| "bl_run (x # xs) b = (case bl_step x b of Inl p \<Rightarrow> Inl p | Inr b' \<Rightarrow> bl_run xs b')"

fun spec_step :: "bl_op \<Rightarrow> (string list \<times> u16) set \<Rightarrow> (string list \<times> u16) set" where
  "spec_step (OpAdd n q) E = insert (splitName n, q) E"
| "spec_step (OpDelete n q) E = E - {(splitName n, q)}"
| "spec_step (OpDeleteTree n) E = {(m, q) \<in> E. \<not> suffix (splitName n) m}"

fun op_ok :: "bl_op \<Rightarrow> bool" where
  "op_ok (OpDeleteTree n) \<longleftrightarrow> n \<noteq> '''' \<and> n \<noteq> ''.''"
| "op_ok _ \<longleftrightarrow> True"

lemma bl_step_refines:
  assumes "bl_wf b" "op_ok x"
  shows "\<exists>b'. bl_step x b = Inr b' \<and> bl_wf b' \<and> bl_entries b' = spec_step x (bl_entries b)"
proof (cases x)
  case (OpDeleteTree n)
  with assms have "splitName n \<noteq> []" by (simp add: splitName_Nil_iff)
  with assms(1) obtain ok b' where "BlockList_DeleteTree b n = Inr (ok, b')" "bl_wf b'"
    "bl_entries b' = {(m, q) \<in> bl_entries b. \<not> suffix (splitName n) m}" by (rule bl_DeleteTree)
  with OpDeleteTree show ?thesis by simp
qed (use assms bl_Delete in auto)

lemma bl_run_refines:
  "bl_wf b \<Longrightarrow> \<forall>x \<in> set xs. op_ok x \<Longrightarrow>
     \<exists>b'. bl_run xs b = Inr b' \<and> bl_wf b' \<and> bl_entries b' = fold spec_step xs (bl_entries b)"
proof (induction xs arbitrary: b)
  case (Cons x xs)
  then obtain b1 where "bl_step x b = Inr b1" "bl_wf b1" "bl_entries b1 = spec_step x (bl_entries b)"
    using bl_step_refines [of b x] by auto
  with Cons show ?case by force
qed simp

section \<open>Properties\<close>

text \<open>
  Claim C2. The blocklist is a set of entries: after any sequence of additions, deletions and
  subtree deletions (of names other than the root) on a new list, no operation has panicked, a name
  is matched exactly when it or one of its parent domains has an entry for the queried type or for
  ANY, and \<^verbatim>\<open>Count\<close> is the number of entries.
\<close>

theorem blocklist_refines_entry_set:
  assumes "\<forall>x \<in> set xs. op_ok x"
  shows "\<exists>b. bl_run xs BlockList_New = Inr b \<and>
    (\<forall>n q. BlockList_Match b n q \<longleftrightarrow> blocked_by (fold spec_step xs {}) (splitName n) q) \<and>
    BlockList_Count b = card (fold spec_step xs {})"
  using bl_run_refines [OF bl_New(1) assms] by (auto simp: bl_Match bl_Count)

theorem blocklist_refines_entry_set_witness:
  "let xs = [OpAdd ''Ads.Example.com'' TypeANY, OpAdd ''x.org.'' TypeA, OpDelete ''x.org'' TypeA,
             OpDeleteTree ''example.com'']
   in \<exists>b. bl_run xs BlockList_New = Inr b \<and>
    (\<forall>n q. BlockList_Match b n q \<longleftrightarrow> blocked_by (fold spec_step xs {}) (splitName n) q) \<and>
    BlockList_Count b = card (fold spec_step xs {})"
  unfolding Let_def by (rule blocklist_refines_entry_set) simp


text \<open>
  Claim C26. A dump is faithful: for a list loaded from entries, writing every line of the dump as
  \<^verbatim>\<open>name:TYPE\<close> and loading those into a new list succeeds and gives a list that matches the same
  queries and has the same count.
\<close>

theorem dump_reload:
  assumes "TypeTables_doc D" "TypeToString D q0 \<noteq> ''''" "AddEntries D q0 BlockList_New xs = Inr b"
  shows "\<exists>b'. AddEntries D TypeANY BlockList_New (dump_lines D b) = Inr b' \<and>
    (\<forall>n q. BlockList_Match b' n q \<longleftrightarrow> BlockList_Match b n q) \<and> BlockList_Count b' = BlockList_Count b"
proof -
  have b: "bl_wf b" "bl_entries b = {e. \<exists>s \<in> set xs. parse_entry D q0 s = Some e}"
    using AddEntries_ok [OF AddEntries_Inr [OF assms(3)] bl_New(1)] assms(3) by auto
  have dump: "dumpable D e" if "e \<in> bl_entries b" for e
    using that parse_entry_dumpable [OF assms(1,2)] unfolding b(2) by blast
  let ?line = "\<lambda>e. (Join ''.'' (fst e) @ ''.'') @ '':'' @ TypeToString D (snd e)"
  have img: "set (dump_lines D b) = ?line ` bl_entries b"
    using dump_lines_set [OF assms(1) b(1)] by (auto simp: case_prod_unfold simp del: append_assoc)
  have parse: "parse_entry D TypeANY (?line e) = Some e" if "e \<in> bl_entries b" for e
    using parse_entry_line [OF assms(1), of "fst e" "snd e" TypeANY] dump [OF that] by simp
  have "\<forall>s \<in> set (dump_lines D b). parse_entry D TypeANY s \<noteq> None"
    using parse unfolding img by blast
  from AddEntries_ok [OF this bl_New(1)] obtain b' where b':
    "AddEntries D TypeANY BlockList_New (dump_lines D b) = Inr b'" "bl_wf b'"
    "bl_entries b' = {e. \<exists>s \<in> set (dump_lines D b). parse_entry D TypeANY s = Some e}" by auto
  have "bl_entries b' = bl_entries b"
    unfolding b'(3) img using parse by (auto simp del: append_assoc)
  with b'(1,2) b(1) show ?thesis by (simp add: bl_Match bl_Count)
qed

theorem dump_reload_witness:
  "\<exists>b b'. AddEntries sample_lib TypeANY BlockList_New [''a.b:A'', ''C.d'', ''.:AAAA''] = Inr b \<and>
    AddEntries sample_lib TypeANY BlockList_New (dump_lines sample_lib b) = Inr b' \<and>
    (\<forall>n q. BlockList_Match b' n q \<longleftrightarrow> BlockList_Match b n q) \<and> BlockList_Count b' = BlockList_Count b"
proof -
  have "\<forall>s \<in> set [''a.b:A'', ''C.d'', ''.:AAAA'']. parse_entry sample_lib TypeANY s \<noteq> None"
    by (simp add: parse_entry_def sample_lib_def sample_types_def)
  from AddEntries_ok [OF this bl_New(1)] obtain b where
    b: "AddEntries sample_lib TypeANY BlockList_New [''a.b:A'', ''C.d'', ''.:AAAA''] = Inr b" by blast
  have "TypeToString sample_lib TypeANY \<noteq> ''''"
    by (simp add: sample_lib_def sample_types_def dns_consts)
  from dump_reload [OF sample_type_tables this b] b show ?thesis by blast
qed

text \<open>
  Deleting an entry undoes adding it: for an entry string that parses and whose entry is
  not yet present, \<^verbatim>\<open>AddEntry\<close> followed by \<^verbatim>\<open>DeleteEntry\<close> of the same string reports it found and
  leaves every match as it was.
\<close>

theorem DeleteEntry_undoes_AddEntry:
  assumes "bl_wf b" "parse_entry D q0 s = Some e" "e \<notin> bl_entries b"
  shows "\<exists>b1 b2. AddEntry D b s q0 = Inr b1 \<and> DeleteEntry D b1 s q0 = Inr (True, b2) \<and>
    (\<forall>n q. BlockList_Match b2 n q \<longleftrightarrow> BlockList_Match b n q)"
proof -
  obtain p t where e: "e = (p, t)" by (cases e)
  let ?l = "level_Add (Root b) p t"
  have "fst (level_Delete ?l p t) \<and>
      (level_Match (snd (level_Delete ?l p t)) m q \<longleftrightarrow> level_Match (Root b) m q)" for m q
    using assms(1,3) unfolding bl_wf_def bl_entries_def e by (rule trie.del_undoes_add)
  then show ?thesis
    using assms(2) unfolding e by (simp add: AddEntry_Some DeleteEntry_parse BlockList_Match_def)
qed

theorem DeleteEntry_undoes_AddEntry_witness:
  "\<exists>b1 b2. AddEntry sample_lib BlockList_New ''ads.com:A'' TypeANY = Inr b1 \<and>
    DeleteEntry sample_lib b1 ''ads.com:A'' TypeANY = Inr (True, b2) \<and>
    (\<forall>n q. BlockList_Match b2 n q \<longleftrightarrow> BlockList_Match BlockList_New n q)"
  by (rule DeleteEntry_undoes_AddEntry [where e = "(splitName ''ads.com'', TypeA)"])
     (simp_all add: parse_entry_def sample_lib_def sample_types_def)

text \<open>Two spellings of a name, and of an entry: letter case and one final dot of the name may differ.\<close>

definition same_name :: "string \<Rightarrow> string \<Rightarrow> bool" where
  "same_name m n \<longleftrightarrow> ToLower (TrimSuffix m ''.'') = ToLower (TrimSuffix n ''.'')"

definition respelled :: "string \<Rightarrow> string \<Rightarrow> bool" where
  "respelled x y \<longleftrightarrow> (\<exists>n n' r. x = n @ r \<and> y = n' @ r \<and> CHR '':'' \<notin> set n \<and> CHR '':'' \<notin> set n' \<and>
     (r = [] \<or> hd r = CHR '':'') \<and> same_name n n')"

lemma splitName_eq_iff: "splitName a = splitName b \<longleftrightarrow> ToLower (TrimSuffix a ''.'') = ToLower (TrimSuffix b ''.'')"
proof -
  have alt: "splitName n = (if ToLower (TrimSuffix n ''.'') = '''' then [] else Split CHR ''.'' (ToLower (TrimSuffix n ''.'')))" for n
  proof -
    have "TrimSuffix n ''.'' = '''' \<longleftrightarrow> n = '''' \<or> n = ''.''"
      by (cases n rule: rev_cases) (auto simp: TrimSuffix_single)
    then show ?thesis by (auto simp: splitName_def ToLower_def)
  qed
  have inj: "Split c x = Split c y \<longleftrightarrow> x = y" for c x y by (metis Join_Split)
  have nil: "[] = Split c x \<longleftrightarrow> False" for c x by (metis Split_not_Nil)
  show ?thesis
    by (cases "ToLower (TrimSuffix a ''.'') = ''''"; cases "ToLower (TrimSuffix b ''.'') = ''''") (simp_all add: alt inj nil ToLower_def)
qed

lemma parse_entry_respelled:
  assumes "respelled x y"
  shows "parse_entry D q0 x = parse_entry D q0 y"
proof -
  from assms obtain n n' r where x: "x = n @ r" "y = n' @ r" "CHR '':'' \<notin> set n" "CHR '':'' \<notin> set n'"
    "r = [] \<or> hd r = CHR '':''" "splitName n = splitName n'" by (auto simp: respelled_def same_name_def splitName_eq_iff)
  show ?thesis
  proof (cases r)
    case Nil
    then show ?thesis using x by (simp add: parse_entry_def Split_no_sep)
  next
    case (Cons c t)
    then have "Split CHR '':'' x = n # Split CHR '':'' t" "Split CHR '':'' y = n' # Split CHR '':'' t"
      using x by (simp_all add: Split_append_sep)
    then show ?thesis using x(6) by (cases "Split CHR '':'' t"; cases "tl (Split CHR '':'' t)") (simp_all add: parse_entry_def)
  qed
qed

text \<open>
  Spelling and order do not matter: when every entry of one load appears in the other up to letter case
  and a final dot of its name, in any order and number, the second load succeeds as the first does, and
  the two lists match the same queries, whose names may differ in letter case and a final dot as well.
\<close>

theorem load_order_and_case_irrelevant:
  assumes "AddEntries D q0 BlockList_New xs = Inr b" "\<forall>y \<in> set ys. \<exists>x \<in> set xs. respelled x y" "\<forall>x \<in> set xs. \<exists>y \<in> set ys. respelled x y"
    "same_name m n"
  shows "\<exists>b'. AddEntries D q0 BlockList_New ys = Inr b' \<and> (BlockList_Match b' m q \<longleftrightarrow> BlockList_Match b n q)"
proof -
  have img: "parse_entry D q0 ` set ys = parse_entry D q0 ` set xs"
    using assms(2,3) parse_entry_respelled [where D = D and ?q0.0 = q0] by (auto simp: image_iff) metis+
  have xs: "\<forall>s \<in> set xs. parse_entry D q0 s \<noteq> None" using assms(1) by (rule AddEntries_Inr)
  then have "None \<notin> parse_entry D q0 ` set ys" unfolding img by auto
  then have ys: "\<forall>s \<in> set ys. parse_entry D q0 s \<noteq> None" by (metis imageI)
  have set_eq: "{e. \<exists>s \<in> set zs. parse_entry D q0 s = Some e} = {e. Some e \<in> parse_entry D q0 ` set zs}" for zs by force
  from AddEntries_ok [OF xs bl_New(1)] AddEntries_ok [OF ys bl_New(1)] assms(1)
  obtain b' where "AddEntries D q0 BlockList_New ys = Inr b'" "bl_wf b" "bl_wf b'"
    "bl_entries b' = bl_entries b" by (auto simp: set_eq img)
  with assms(4) show ?thesis by (auto simp: bl_Match same_name_def splitName_eq_iff [symmetric])
qed

theorem load_order_and_case_irrelevant_witness:
  "\<exists>b b'. AddEntries sample_lib TypeANY BlockList_New [''a.b'', ''c.d:A''] = Inr b \<and>
    AddEntries sample_lib TypeANY BlockList_New [''c.d.:A'', ''a.b'', ''a.b.''] = Inr b' \<and>
    (BlockList_Match b' ''x.a.b.'' TypeA \<longleftrightarrow> BlockList_Match b ''x.a.b'' TypeA)"
proof -
  have "\<forall>s \<in> set [''a.b'', ''c.d:A'']. parse_entry sample_lib TypeANY s \<noteq> None"
    by (simp add: parse_entry_def sample_lib_def sample_types_def)
  from AddEntries_ok [OF this bl_New(1)] obtain b where
    b: "AddEntries sample_lib TypeANY BlockList_New [''a.b'', ''c.d:A''] = Inr b" by blast
  have dot: "same_name (n @ ''.'') n" "same_name n n" "same_name n (n @ ''.'')" if "\<not> HasSuffix n ''.''" for n
    using that by (simp_all add: same_name_def TrimSuffix_id)
  have plain: "respelled (n @ r) (n' @ r)" if "CHR '':'' \<notin> set n" "CHR '':'' \<notin> set n'" "r = [] \<or> hd r = CHR '':''" "same_name n n'" for n n' r
    using that unfolding respelled_def by blast
  have r: "respelled ''a.b'' ''a.b''" "respelled ''a.b'' ''a.b.''" "respelled ''c.d:A'' ''c.d.:A''"
    using plain [of "''a.b''" "''a.b''" "[]"] plain [of "''a.b''" "''a.b.''" "[]"] plain [of "''c.d''" "''c.d.''" "'':A''"]
      dot [of "''a.b''"] dot [of "''c.d''"] by (simp_all add: HasSuffix_single)
  have "same_name ''x.a.b.'' ''x.a.b''" using dot(1) [of "''x.a.b''"] by (simp add: HasSuffix_single)
  with load_order_and_case_irrelevant [OF b, of "[''c.d.:A'', ''a.b'', ''a.b.'']" "''x.a.b.''" "''x.a.b''" TypeA] b r show ?thesis by simp
qed

text \<open>
  A line of a hosts file adds its domain (for every type) exactly when its address is
  0.0.0.0 and its domain is not; text after the domain is ignored, and other lines change nothing.
\<close>

theorem AddHostsEntry_line:
  assumes "\<forall>c \<in> set (ip @ domain). \<not> re_space c" "ws \<noteq> []" "\<forall>c \<in> set ws. re_space c" "domain \<noteq> []"
    "comment = [] \<or> re_space (hd comment)"
  shows "AddHostsEntry D b (ip @ ws @ domain @ comment) =
    (if ip = ''0.0.0.0'' \<and> domain \<noteq> ''0.0.0.0'' then AddEntry D b domain TypeANY else Inr b)"
proof -
  have ip: "takeWhile (\<lambda>c. \<not> re_space c) (ip @ ws @ r) = ip"
    "dropWhile (\<lambda>c. \<not> re_space c) (ip @ ws @ r) = ws @ r" for r
    using assms(1,2,3) by (cases ws; simp add: takeWhile_append2 dropWhile_append2)+
  have ws: "dropWhile re_space (ws @ domain @ comment) = domain @ comment"
    using assms(1,3,4) by (cases domain) (simp_all add: dropWhile_append2)
  have dom: "takeWhile (\<lambda>c. \<not> re_space c) (domain @ comment) = domain"
    using assms(1,5) by (cases comment) (simp_all add: takeWhile_append2)
  have "\<exists>rest. re_split_space3 (ip @ ws @ domain @ comment) = ip # domain # rest"
    using assms(2) by (simp add: re_split_space3_def Let_def ip ws dom)
  then show ?thesis by (auto simp: AddHostsEntry_def Let_def)
qed

theorem AddHostsEntry_line_witness:
  "AddHostsEntry sample_lib BlockList_New (''0.0.0.0'' @ '' '' @ ''ads.com'' @ '' # tracker'') =
    (if ''0.0.0.0'' = ''0.0.0.0'' \<and> ''ads.com'' \<noteq> ''0.0.0.0''
     then AddEntry sample_lib BlockList_New ''ads.com'' TypeANY else Inr BlockList_New)"
  by (rule AddHostsEntry_line) (simp_all add: re_space_def)

end
