(* ===== verification/Go_Net.thy ===== *)
theory Go_Net
  imports Dns_Types
begin

unbundle bit_operations_syntax

text \<open>
  The functions of Go's \<^verbatim>\<open>net\<close>, \<^verbatim>\<open>net/netip\<close> and \<^verbatim>\<open>regexp\<close> packages that the sources use on addresses:
  \<^verbatim>\<open>IP.To4\<close> and \<^verbatim>\<open>To16\<close>, \<^verbatim>\<open>IPNet.Contains\<close>, \<^verbatim>\<open>CIDRMask\<close>, \<^verbatim>\<open>ParseIP\<close>, \<^verbatim>\<open>ParseCIDR\<close>,
  \<^verbatim>\<open>SplitHostPort\<close> and \<^verbatim>\<open>JoinHostPort\<close>. A nil address or mask is the empty list. The lemmas show
  that printing and parsing dotted addresses are inverse and that \<^verbatim>\<open>Contains\<close> compares exactly the
  bits of the prefix.
\<close>

section \<open>Addresses\<close>

definition v4InV6Prefix :: IP where
  "v4InV6Prefix = [0, 0, 0, 0, 0, 0, 0, 0, 0, 0, 255, 255]"

definition To4 :: "IP \<Rightarrow> IP" where
  "To4 ip =
     (if length ip = 4 then ip
      else if length ip = 16 \<and> take 12 ip = v4InV6Prefix then drop 12 ip
      else [])"

definition To16 :: "IP \<Rightarrow> IP" where
  "To16 ip =
     (if length ip = 4 then v4InV6Prefix @ ip
      else if length ip = 16 then ip
      else [])"

record IPNet =
  NetIP :: IP
  NetMask :: "u8 list"

definition networkNumberAndMask :: "IPNet \<Rightarrow> IP \<times> u8 list" where
  "networkNumberAndMask n =
     (let ip = (if To4 (NetIP n) \<noteq> [] then To4 (NetIP n) else NetIP n);
          m = NetMask n
      in if To4 (NetIP n) = [] \<and> length (NetIP n) \<noteq> 16 then ([], [])
         else if length m = 4 then (if length ip \<noteq> 4 then ([], []) else (ip, m))
         else if length m = 16 then (if length ip = 4 then (ip, drop 12 m) else (ip, m))
         else ([], []))"

definition IPNet_Contains :: "IPNet \<Rightarrow> IP \<Rightarrow> bool" where
  "IPNet_Contains n ip =
     (let (nn, m) = networkNumberAndMask n;
          ip = (if To4 ip \<noteq> [] then To4 ip else ip)
      in if length ip \<noteq> length nn then False
         else list_all (\<lambda>(a, k, b). a AND k = b AND k) (zip nn (zip m ip)))"

fun cidr_bytes :: "nat \<Rightarrow> nat \<Rightarrow> u8 list" where
  "cidr_bytes 0 n = []"
| "cidr_bytes (Suc l) n =
     (if 8 \<le> n then 255 # cidr_bytes l (n - 8) else NOT (drop_bit n 255) # cidr_bytes l 0)"

definition CIDRMask :: "nat \<Rightarrow> nat \<Rightarrow> u8 list" where
  "CIDRMask ones bits = (if bits \<noteq> 32 \<and> bits \<noteq> 128 \<or> ones > bits then [] else cidr_bytes (bits div 8) ones)"

definition IP_Mask :: "IP \<Rightarrow> u8 list \<Rightarrow> IP" where
  "IP_Mask ip msk =
     (let m' = (if length msk = 16 \<and> length ip = 4 \<and> take 12 msk = replicate 12 255 then drop 12 msk else msk);
          ip' = (if length m' = 4 \<and> length ip = 16 \<and> take 12 ip = v4InV6Prefix then drop 12 ip else ip)
      in if length ip' \<noteq> length m' then [] else map2 (AND) ip' m')"

text \<open>\<^verbatim>\<open>IPMask.Size\<close>: the number of leading ones and the width, \<open>(0, 0)\<close> for a mask with gaps.\<close>

fun byte_ones :: "nat \<Rightarrow> u8 \<Rightarrow> nat option" where
  "byte_ones 0 v = (if v = 0 then Some 0 else None)"
| "byte_ones (Suc k) v =
     (if v AND 128 \<noteq> 0 then map_option Suc (byte_ones k (push_bit 1 v))
      else if v = 0 then Some 0 else None)"

fun simpleMaskLength :: "u8 list \<Rightarrow> nat option" where
  "simpleMaskLength [] = Some 0"
| "simpleMaskLength (v # vs) =
     (if v = 255 then map_option ((+) 8) (simpleMaskLength vs)
      else case byte_ones 8 v of None \<Rightarrow> None
           | Some k \<Rightarrow> if list_all (\<lambda>b. b = 0) vs then Some k else None)"

definition Mask_Size :: "u8 list \<Rightarrow> nat \<times> nat" where
  "Mask_Size m = (case simpleMaskLength m of None \<Rightarrow> (0, 0) | Some n \<Rightarrow> (n, 8 * length m))"

section \<open>Parsing addresses\<close>

definition parse_octet :: "string \<Rightarrow> u8 option" where
  "parse_octet s =
     (if s \<noteq> [] \<and> list_all is_digit s \<and> (length s = 1 \<or> hd s \<noteq> CHR ''0'') \<and> dec_value s \<le> 255
      then Some (of_nat (dec_value s)) else None)"

definition parseIPv4 :: "string \<Rightarrow> u8 list option" where
  "parseIPv4 s =
     (case map parse_octet (Split CHR ''.'' s) of
        [Some a, Some b, Some c, Some d] \<Rightarrow> Some [a, b, c, d]
      | _ \<Rightarrow> None)"

text \<open>
  The loop of \<^verbatim>\<open>parseIPv6\<close> over the 16-bit groups: the bytes read so far, where \<^verbatim>\<open>::\<close> was seen, and
  the rest of the text. Each round adds two bytes, and the loop stops at sixteen.
\<close>

function v6_loop :: "u8 list \<Rightarrow> nat option \<Rightarrow> string \<Rightarrow> (u8 list \<times> nat option \<times> string) option" where
  "v6_loop ip ell s =
     (if 16 \<le> length ip then Some (ip, ell, s)
      else
        let digs = takeWhile is_hex s; rest = dropWhile is_hex s;
            ip' = ip @ [of_nat (hex_value digs div 256), of_nat (hex_value digs)]
        in if 4 < length digs \<or> digs = [] then None
           else if rest \<noteq> [] \<and> hd rest = CHR ''.'' then
             (if ell = None \<and> length ip \<noteq> 12 then None
              else if 16 < length ip + 4 then None
              else map_option (\<lambda>f. (ip @ f, ell, [])) (parseIPv4 s))
           else if rest = [] then Some (ip', ell, [])
           else if hd rest \<noteq> CHR '':'' \<or> length rest = 1 then None
           else if hd (tl rest) \<noteq> CHR '':'' then v6_loop ip' ell (tl rest)
           else if ell \<noteq> None then None
           else if tl (tl rest) = [] then Some (ip', Some (length ip'), [])
           else v6_loop ip' (Some (length ip')) (tl (tl rest)))"
  by pat_completeness auto
termination
  by (relation "measure (\<lambda>(ip, ell, s). 16 - length ip)") auto

declare v6_loop.simps [simp del]

definition v6_finish :: "u8 list \<times> nat option \<times> string \<Rightarrow> u8 list option" where
  "v6_finish = (\<lambda>(ip, ell, s).
     if s \<noteq> [] then None
     else if length ip < 16 then
       (case ell of None \<Rightarrow> None
        | Some e \<Rightarrow> Some (take e ip @ replicate (16 - length ip) 0 @ drop e ip))
     else if ell \<noteq> None then None
     else Some ip)"

definition parseIPv6 :: "string \<Rightarrow> (u8 list \<times> string) option" where
  "parseIPv6 str =
     (let s = takeWhile (\<lambda>c. c \<noteq> CHR ''%'') str;
          z = dropWhile (\<lambda>c. c \<noteq> CHR ''%'') str
      in if z \<noteq> [] \<and> tl z = [] then None
         else map_option (\<lambda>ip. (ip, tl z))
           (if HasPrefix s ''::'' then
              (if drop 2 s = [] then Some (replicate 16 0)
               else Option.bind (v6_loop [] (Some 0) (drop 2 s)) v6_finish)
            else Option.bind (v6_loop [] None s) v6_finish))"

text \<open>
  \<^verbatim>\<open>netip.ParseAddr\<close>: the first dot, colon or percent sign decides. The result is the width, the
  sixteen bytes of \<^verbatim>\<open>As16\<close> and the zone.
\<close>

definition ParseAddr16 :: "string \<Rightarrow> (nat \<times> u8 list \<times> string) option" where
  "ParseAddr16 s =
     (case find (\<lambda>c. c = CHR ''.'' \<or> c = CHR '':'' \<or> c = CHR ''%'') s of
        Some c \<Rightarrow>
          if c = CHR ''.'' then map_option (\<lambda>ip. (32, v4InV6Prefix @ ip, [])) (parseIPv4 s)
          else if c = CHR '':'' then map_option (\<lambda>(ip, z). (128, ip, z)) (parseIPv6 s)
          else None
      | None \<Rightarrow> None)"

definition ParseIP :: "string \<Rightarrow> IP" where
  "ParseIP s = (case ParseAddr16 s of Some (w, ip, z) \<Rightarrow> (if z = [] then ip else []) | None \<Rightarrow> [])"

text \<open>\<^verbatim>\<open>dtoi\<close> takes the leading digits; \<^verbatim>\<open>ParseCIDR\<close> wants all of the mask to be digits.\<close>

definition ParseCIDR :: "string \<Rightarrow> (IP \<times> IPNet) option" where
  "ParseCIDR s =
     (case SplitN2 CHR ''/'' s of
        [addr, msk] \<Rightarrow>
          (case ParseAddr16 addr of
             None \<Rightarrow> None
           | Some (w, ip, z) \<Rightarrow>
               if z \<noteq> [] \<or> msk = [] \<or> \<not> list_all is_digit msk \<or> dec_value msk > w then None
               else let m = CIDRMask (dec_value msk) w
                    in Some (ip, \<lparr>NetIP = IP_Mask ip m, NetMask = m\<rparr>))
      | _ \<Rightarrow> None)"

section \<open>Hosts and ports\<close>

definition IndexByte :: "char \<Rightarrow> string \<Rightarrow> nat option" where
  "IndexByte c s = (if c \<in> set s then Some (length (takeWhile (\<lambda>x. x \<noteq> c) s)) else None)"

definition LastIndexByte :: "char \<Rightarrow> string \<Rightarrow> nat option" where
  "LastIndexByte c s =
     (if c \<in> set s then Some (length s - 1 - length (takeWhile (\<lambda>x. x \<noteq> c) (rev s))) else None)"

definition SplitHostPort :: "string \<Rightarrow> (string \<times> string) option" where
  "SplitHostPort hostport =
     (case LastIndexByte CHR '':'' hostport of
        None \<Rightarrow> None
      | Some i \<Rightarrow>
          if hd hostport = CHR ''['' then
            (case IndexByte CHR '']'' hostport of
               None \<Rightarrow> None
             | Some e \<Rightarrow>
                 if Suc e \<noteq> i then None
                 else if CHR ''['' \<in> set (drop 1 hostport) \<or> CHR '']'' \<in> set (drop (Suc e) hostport) then None
                 else Some (take (e - 1) (drop 1 hostport), drop (Suc i) hostport))
          else if CHR '':'' \<in> set (take i hostport) then None
          else if CHR ''['' \<in> set hostport \<or> CHR '']'' \<in> set hostport then None
          else Some (take i hostport, drop (Suc i) hostport))"

definition JoinHostPort :: "string \<Rightarrow> string \<Rightarrow> string" where
  "JoinHostPort host port =
     (if CHR '':'' \<in> set host then ''['' @ host @ '']:'' @ port else host @ '':'' @ port)"

text \<open>\<^verbatim>\<open>regexp.MustCompile(`%.+$`).ReplaceAllString(s, "")\<close>: the leftmost match runs to the end.\<close>

fun strip_zone :: "string \<Rightarrow> string" where
  "strip_zone [] = []"
| "strip_zone (c # cs) =
     (if c = CHR ''%'' \<and> cs \<noteq> [] \<and> CHR 0x0A \<notin> set cs then [] else c # strip_zone cs)"

text \<open>\<^verbatim>\<open>regexp.MustCompile(`:\d+$`).MatchString(s)\<close>.\<close>

definition has_port :: "string \<Rightarrow> bool" where
  "has_port s =
     (let digs = takeWhile is_digit (rev s); rest = dropWhile is_digit (rev s)
      in digs \<noteq> [] \<and> rest \<noteq> [] \<and> hd rest = CHR '':'')"

section \<open>Printing and parsing dotted addresses\<close>

definition dotted :: "u8 list \<Rightarrow> string" where
  "dotted bs = Join ''.'' (map (\<lambda>b. fmt_d (unat b)) bs)"

lemma parse_octet_fmt_d: "parse_octet (fmt_d (unat (b :: u8))) = Some b"
proof -
  have lt: "unat b \<le> 255" using unat_u8 [of b] by simp
  have "length (fmt_d (unat b)) = 1 \<or> hd (fmt_d (unat b)) \<noteq> CHR ''0''"
    using fmt_d_hd [of "unat b"] by (cases "unat b = 0") (simp_all add: fmt_d.simps)
  with lt show ?thesis
    by (auto simp: parse_octet_def list_all_iff fmt_d_digits dec_value_fmt_d)
qed

lemma digit_not_dot: "is_digit c \<Longrightarrow> c \<noteq> CHR ''.'' \<and> c \<noteq> CHR '':'' \<and> c \<noteq> CHR ''%''"
  by (auto simp: is_digit_def)

lemma parseIPv4_dotted: "parseIPv4 (dotted [a, b, c, d]) = Some [a, b, c, d]"
proof -
  have "CHR ''.'' \<notin> set (fmt_d n)" for n using fmt_d_digits digit_not_dot by blast
  then have "Split CHR ''.'' (dotted [a, b, c, d]) = map (\<lambda>b. fmt_d (unat b)) [a, b, c, d]"
    unfolding dotted_def by (intro Split_Join) auto
  then show ?thesis by (simp add: parseIPv4_def parse_octet_fmt_d)
qed

lemma find_skip: "\<forall>x \<in> set xs. \<not> P x \<Longrightarrow> P y \<Longrightarrow> find P (xs @ y # ys) = Some y"
  by (induction xs) auto

lemma ParseAddr16_dotted: "ParseAddr16 (dotted [a, b, c, d]) = Some (32, v4InV6Prefix @ [a, b, c, d], [])"
proof -
  have "\<exists>r. dotted [a, b, c, d] = fmt_d (unat a) @ CHR ''.'' # r" by (simp add: dotted_def)
  then obtain r where r: "dotted [a, b, c, d] = fmt_d (unat a) @ CHR ''.'' # r" ..
  have "find (\<lambda>c. c = CHR ''.'' \<or> c = CHR '':'' \<or> c = CHR ''%'') (dotted [a, b, c, d]) = Some CHR ''.''"
    unfolding r by (rule find_skip) (use fmt_d_digits digit_not_dot in blast)+
  then show ?thesis by (simp add: ParseAddr16_def parseIPv4_dotted)
qed

lemma ParseIP_dotted: "ParseIP (dotted [a, b, c, d]) = v4InV6Prefix @ [a, b, c, d]"
  by (simp add: ParseIP_def ParseAddr16_dotted)

lemma set_dotted: "ch \<in> set (dotted ip) \<Longrightarrow> is_digit ch \<or> ch = CHR ''.''"
proof (induction ip rule: induct_list012)
  case (3 x y zs)
  then show ?case by (auto simp: dotted_def dest: fmt_d_digits)
qed (auto simp: dotted_def dest: fmt_d_digits)

lemma To4_mapped: "length ip = 4 \<Longrightarrow> To4 (v4InV6Prefix @ ip) = ip"
  by (simp add: To4_def v4InV6Prefix_def)

section \<open>Prefix comparison\<close>

definition byte_bits :: "u8 \<Rightarrow> bool list" where
  "byte_bits b = map (\<lambda>i. bit b (7 - i)) [0..<8]"

definition ip_bits :: "u8 list \<Rightarrow> bool list" where
  "ip_bits ip = concat (map byte_bits ip)"

lemma byte_bits_nth: "i < 8 \<Longrightarrow> byte_bits b ! i = bit b (7 - i)"
  by (simp add: byte_bits_def)

lemma length_byte_bits [simp]: "length (byte_bits b) = 8"
  by (simp add: byte_bits_def)

lemma u8_max: "(255 :: u8) = - 1"
  by simp

lemma and_255 [simp]: "x AND 255 = (x :: u8)"
  unfolding u8_max by (rule and.right_neutral)

lemma bit_255: "bit (255 :: u8) k \<longleftrightarrow> k < 8"
  unfolding u8_max by (simp add: bit_minus_1_iff)

lemma byte_mask_bit: "i < 8 \<Longrightarrow> n \<le> 8 \<Longrightarrow> bit (NOT (drop_bit n 255) :: u8) i \<longleftrightarrow> 8 - n \<le> i"
  using bit_255 [of "n + i"] by (auto simp: bit_not_iff bit_drop_bit_eq)

lemma byte_agree:
  assumes "n \<le> 8"
  shows "(a AND NOT (drop_bit n 255) = b AND NOT (drop_bit n 255)) \<longleftrightarrow>
    take n (byte_bits a) = take n (byte_bits (b :: u8))"
proof -
  have "(a AND NOT (drop_bit n 255) = b AND NOT (drop_bit n 255)) \<longleftrightarrow>
      (\<forall>i < 8. 8 - n \<le> i \<longrightarrow> bit a i = bit b i)"
    using assms by (auto simp: bit_eq_iff bit_and_iff byte_mask_bit)
  also have "\<dots> \<longleftrightarrow> (\<forall>j < n. bit a (7 - j) = bit b (7 - j))"
  proof (rule iffI; intro allI impI)
    fix j assume h: "\<forall>i < 8. 8 - n \<le> i \<longrightarrow> bit a i = bit b i" and j: "j < n"
    show "bit a (7 - j) = bit b (7 - j)"
      using j assms by (intro h [rule_format]) arith+
  next
    fix i assume h: "\<forall>j < n. bit a (7 - j) = bit b (7 - j)" and i: "i < (8 :: nat)" "8 - n \<le> i"
    have "bit a (7 - (7 - i)) = bit b (7 - (7 - i))" using i assms by (intro h [rule_format]) arith
    then show "bit a i = bit b i" using i by simp
  qed
  also have "\<dots> \<longleftrightarrow> take n (byte_bits a) = take n (byte_bits b)"
    using assms by (auto simp: list_eq_iff_nth_eq byte_bits_nth)
  finally show ?thesis .
qed

lemma byte_agree_full: "a = b \<longleftrightarrow> byte_bits a = byte_bits (b :: u8)"
  using byte_agree [of 8 a b] by (simp add: drop_bit_eq_div)

lemma masked_agree:
  assumes "length a = l" "length b = l"
  shows "list_all (\<lambda>(a, k, b). a AND k = b AND k) (zip a (zip (cidr_bytes l n) b)) \<longleftrightarrow>
    take n (ip_bits a) = take n (ip_bits b)"
  using assms
proof (induction l arbitrary: a b n)
  case (Suc l)
  then obtain x xs y ys where a: "a = x # xs" "length xs = l" and b: "b = y # ys" "length ys = l"
    by (auto simp: length_Suc_conv)
  have bits: "take n (ip_bits (z # zs)) = take n (byte_bits z) @ take (n - 8) (ip_bits zs)" for z zs
    by (simp add: ip_bits_def)
  have same_len: "length (take n (byte_bits x)) = length (take n (byte_bits y))" by simp
  show ?case
  proof (cases "8 \<le> n")
    case True
    then show ?thesis
      using Suc.IH [OF a(2) b(2), of "n - 8"] by (simp add: a b bits byte_agree_full [of x y])
  next
    case False
    then show ?thesis
      using Suc.IH [OF a(2) b(2), of 0] by (simp add: a b bits byte_agree [of n x y])
  qed
qed (simp add: ip_bits_def)

lemma length_cidr_bytes [simp]: "length (cidr_bytes l n) = l"
  by (induction l n rule: cidr_bytes.induct) auto

text \<open>The two families of networks that \<^verbatim>\<open>ParseCIDR\<close> makes.\<close>

lemma Contains_v4:
  assumes "length a = 4" "n \<le> 32"
  shows "IPNet_Contains \<lparr>NetIP = a, NetMask = CIDRMask n 32\<rparr> ip \<longleftrightarrow>
    To4 ip \<noteq> [] \<and> take n (ip_bits a) = take n (ip_bits (To4 ip))"
proof -
  have net: "networkNumberAndMask \<lparr>NetIP = a, NetMask = CIDRMask n 32\<rparr> = (a, cidr_bytes 4 n)"
    using assms by (auto simp: networkNumberAndMask_def To4_def CIDRMask_def Let_def)
  have To4: "To4 ip \<noteq> [] \<longleftrightarrow> length (To4 ip) = 4" "To4 ip = [] \<Longrightarrow> length ip \<noteq> 4"
    by (auto simp: To4_def v4InV6Prefix_def split: if_splits)
  then show ?thesis
    using masked_agree [of a 4 "To4 ip" n] assms by (auto simp: IPNet_Contains_def net)
qed

lemma Contains_v6:
  assumes "length a = 16" "take 12 a \<noteq> v4InV6Prefix" "n \<le> 128"
  shows "IPNet_Contains \<lparr>NetIP = a, NetMask = CIDRMask n 128\<rparr> ip \<longleftrightarrow>
    To4 ip = [] \<and> length ip = 16 \<and> take n (ip_bits a) = take n (ip_bits ip)"
proof -
  have net: "networkNumberAndMask \<lparr>NetIP = a, NetMask = CIDRMask n 128\<rparr> = (a, cidr_bytes 16 n)"
    using assms by (auto simp: networkNumberAndMask_def To4_def CIDRMask_def Let_def)
  have To4: "To4 ip \<noteq> [] \<Longrightarrow> length (To4 ip) = 4"
    by (auto simp: To4_def split: if_splits)
  then show ?thesis
    using masked_agree [of a 16 ip n] assms by (auto simp: IPNet_Contains_def net)
qed

lemma SplitN2_append: "c \<notin> set s \<Longrightarrow> SplitN2 c (s @ c # t) = [s, t]"
proof -
  assume "c \<notin> set s"
  then have "dropWhile (\<lambda>x. x \<noteq> c) (s @ c # t) = c # t" "takeWhile (\<lambda>x. x \<noteq> c) (s @ c # t) = s"
    by (induction s) auto
  then show ?thesis by (simp add: SplitN2_def)
qed

lemma ParseCIDR_dotted:
  assumes "n \<le> 32"
  shows "ParseCIDR (dotted [a, b, c, d] @ ''/'' @ fmt_d n) =
    Some (v4InV6Prefix @ [a, b, c, d], \<lparr>NetIP = map2 (AND) [a, b, c, d] (CIDRMask n 32), NetMask = CIDRMask n 32\<rparr>)"
proof -
  have "CHR ''/'' \<notin> set (dotted [a, b, c, d])" using set_dotted [of "CHR ''/''"] by (auto simp: is_digit_def)
  moreover have "list_all is_digit (fmt_d n)" using fmt_d_digits by (auto simp: list_all_iff)
  moreover have "length (CIDRMask n 32) = 4" using assms by (simp add: CIDRMask_def)
  ultimately show ?thesis
    using assms by (simp add: ParseCIDR_def SplitN2_append ParseAddr16_dotted dec_value_fmt_d IP_Mask_def v4InV6Prefix_def Let_def)
qed

lemma masked_idem:
  "list_all (\<lambda>(a, k, b). a AND k = b AND k) (zip (map2 (AND) xs m) (zip m ys)) =
   list_all (\<lambda>(a, k, b). a AND k = b AND k) (zip xs (zip m (ys :: u8 list)))"
proof (induction xs arbitrary: m ys)
  case (Cons x xs)
  then show ?case by (cases m; cases ys) (auto simp: and.assoc)
qed simp

lemma Contains_masked_v4:
  assumes "length a = 4" "n \<le> 32" "length ip = 4"
  shows "IPNet_Contains \<lparr>NetIP = map2 (AND) a (CIDRMask n 32), NetMask = CIDRMask n 32\<rparr> ip \<longleftrightarrow>
    take n (ip_bits ip) = take n (ip_bits a)"
proof -
  have len: "length (CIDRMask n 32) = 4" using assms by (simp add: CIDRMask_def)
  have "IPNet_Contains \<lparr>NetIP = x, NetMask = CIDRMask n 32\<rparr> ip \<longleftrightarrow>
      list_all (\<lambda>(a, k, b). a AND k = b AND k) (zip x (zip (CIDRMask n 32) ip))" if "length x = 4" for x
    using that len assms(3) by (auto simp: IPNet_Contains_def networkNumberAndMask_def To4_def Let_def)
  then show ?thesis
    using assms len masked_agree [of a 4 ip n] by (auto simp: masked_idem CIDRMask_def)
qed

section \<open>Widths of parsed addresses\<close>

lemma parseIPv4_length: "parseIPv4 s = Some ip \<Longrightarrow> length ip = 4"
  by (auto simp: parseIPv4_def split: list.splits option.splits)

lemma v6_loop_length:
  "v6_loop ip ell s = Some (ip', ell', s') \<Longrightarrow> even (length ip) \<Longrightarrow> length ip \<le> 16 \<Longrightarrow> length ip' \<le> 16"
proof (induction ip ell s rule: v6_loop.induct)
  case (1 ip ell s)
  let ?digs = "takeWhile is_hex s" and ?rest = "dropWhile is_hex s"
  let ?ip = "ip @ [of_nat (hex_value ?digs div 256), of_nat (hex_value ?digs)]"
  show ?case
  proof (cases "16 \<le> length ip")
    case True
    then show ?thesis using "1.prems" by (simp add: v6_loop.simps [of ip])
  next
    case False
    with "1.prems"(2) have len: "even (length ?ip)" "length ?ip \<le> 16" by (auto elim!: evenE)
    note IH = "1.IH" [OF False refl refl refl]
    show ?thesis
      using "1.prems"(1) False len IH
      by (subst (asm) v6_loop.simps) (auto simp: Let_def dest: parseIPv4_length split: if_splits)
  qed
qed

lemma v6_finish_length: "length ip \<le> 16 \<Longrightarrow> v6_finish (ip, ell, s) = Some ip' \<Longrightarrow> length ip' = 16"
  by (auto simp: v6_finish_def split: if_splits option.splits)

lemma parseIPv6_length:
  assumes "parseIPv6 str = Some (ip, z)"
  shows "length ip = 16"
proof -
  have loop: "Option.bind (v6_loop [] ell s) v6_finish = Some ip \<Longrightarrow> length ip = 16" for ell s
  proof -
    assume "Option.bind (v6_loop [] ell s) v6_finish = Some ip"
    then obtain ip1 ell1 s1 where "v6_loop [] ell s = Some (ip1, ell1, s1)" "v6_finish (ip1, ell1, s1) = Some ip"
      by (auto simp: Option.bind_eq_Some_conv)
    then show ?thesis using v6_loop_length [of "[]" ell s ip1 ell1 s1] v6_finish_length by simp
  qed
  show ?thesis using assms loop by (auto simp: parseIPv6_def Let_def split: if_splits)
qed

lemma ParseAddr16_length:
  assumes "ParseAddr16 s = Some (w, ip, z)"
  shows "length ip = 16 \<and> (w = 32 \<and> take 12 ip = v4InV6Prefix \<or> w = 128)"
  using assms parseIPv4_length parseIPv6_length
  by (auto simp: ParseAddr16_def v4InV6Prefix_def split: option.splits if_splits)

lemma ParseCIDR_length:
  assumes "ParseCIDR s = Some (ip, net)"
  shows "length (NetIP net) = length (NetMask net) \<and> (length (NetMask net) = 4 \<or> length (NetMask net) = 16)"
proof -
  obtain addr msk where split: "SplitN2 CHR ''/'' s = [addr, msk]" using assms by (auto simp: ParseCIDR_def split: list.splits)
  then obtain w z where p: "ParseAddr16 addr = Some (w, ip, z)" "dec_value msk \<le> w"
    "net = \<lparr>NetIP = IP_Mask ip (CIDRMask (dec_value msk) w), NetMask = CIDRMask (dec_value msk) w\<rparr>"
    using assms by (auto simp: ParseCIDR_def Let_def split: option.splits if_splits)
  then show ?thesis using ParseAddr16_length [OF p(1)] by (auto simp: IP_Mask_def CIDRMask_def v4InV6Prefix_def Let_def)
qed

end
