(* ===== verification/Cache.thy ===== *)
theory Cache
  imports Go_Net
begin

text \<open>
  Package \<^verbatim>\<open>cache\<close>: \<^verbatim>\<open>cache.go\<close> and \<^verbatim>\<open>ptr.go\<close>. The cache maps a canonical name and a type to a whole
  message with its time of insertion and of expiry; permanent entries (local records) do not expire.
  Times are nanoseconds since Go's zero time. Each reading of the clock is an argument of the
  operation that reads it (\<open>n1\<close>, \<open>n2\<close> for two successive readings), and the mutex is held over each
  operation, so an operation is one step on the map. \<open>cache_reach\<close> is the state machine of those
  steps; the invariant \<open>cache_inv\<close> relates the expiry of an entry to the TTLs it holds.

  \<^verbatim>\<open>uint32(d.Seconds())\<close> goes through a float; the model takes whole seconds by integer division,
  which is the same below \<open>2 ^ 23\<close> seconds.
\<close>

abbreviation Second :: int where "Second \<equiv> 1000000000"

section \<open>ptr.go\<close>

definition reverseIP4 :: "IP \<Rightarrow> string" where
  "reverseIP4 ip = concat (map (\<lambda>b. fmt_d (unat b) @ ''.'') (rev (To4 ip))) @ ''in-addr.arpa.''"

definition reverseIP6 :: "IP \<Rightarrow> string" where
  "reverseIP6 ip6 =
     concat (map (\<lambda>b. fmt_x (unat (b AND 15)) @ ''.'' @ fmt_x (unat (drop_bit 4 b)) @ ''.'') (rev (To16 ip6))) @
     ''ip6.arpa.''"

definition createPtrA :: "RR_Header \<Rightarrow> IP \<Rightarrow> RR" where
  "createPtrA hdr a =
     \<lparr>Hdr = \<lparr>Hdr_Name = reverseIP4 a, Rrtype = TypePTR, Class = ClassINET, Ttl = Ttl hdr\<rparr>,
      Data = RPTR (Hdr_Name hdr)\<rparr>"

definition createPtrAAAA :: "RR_Header \<Rightarrow> IP \<Rightarrow> RR" where
  "createPtrAAAA hdr aaaa =
     \<lparr>Hdr = \<lparr>Hdr_Name = reverseIP6 aaaa, Rrtype = TypePTR, Class = ClassINET, Ttl = Ttl hdr\<rparr>,
      Data = RPTR (Hdr_Name hdr)\<rparr>"

section \<open>cache.go\<close>

record DNSCacheKey =
  K_Name :: string
  K_Qtype :: u16

record DNSCacheItem =
  Message :: Msg
  Inserted :: int
  Expires :: int
  Permanent :: bool

record DNSCache =
  CacheMap :: "(DNSCacheKey, DNSCacheItem) gomap"

definition Key_String :: "dns_lib \<Rightarrow> DNSCacheKey \<Rightarrow> string" where
  "Key_String D k = ''<'' @ K_Name k @ '' '' @ TypeToString D (K_Qtype k) @ ''>''"

text \<open>\<open>fmt_secs\<close> is the verb \<^verbatim>\<open>%.1f\<close> on the seconds of a duration.\<close>

definition Item_String :: "dns_lib \<Rightarrow> (int \<Rightarrow> string) \<Rightarrow> DNSCacheItem \<Rightarrow> int \<Rightarrow> string go" where
  "Item_String D fmt_secs i now =
     (case MQuestion (Message i) of
        [] \<Rightarrow> Inl IndexOutOfRange
      | q # _ \<Rightarrow>
          Inr (''<'' @ Q_Name q @ '' '' @ TypeToString D (Qtype q) @
               (if Permanent i then ''> permanent'' else ''> '' @ fmt_secs (Expires i - now) @ ''s'')))"

definition Cache_New :: DNSCache where
  "Cache_New = \<lparr>CacheMap = []\<rparr>"

definition AddRR :: "dns_lib \<Rightarrow> DNSCache \<Rightarrow> RR option \<Rightarrow> bool \<Rightarrow> int \<Rightarrow> int \<Rightarrow> DNSCache" where
  "AddRR D c rr permanent n1 n2 =
     (case rr of
        None \<Rightarrow> c
      | Some rr \<Rightarrow>
          let name = CanonicalName D (Hdr_Name (Hdr rr));
              msg = (SetQuestion D newMsg name (Rrtype (Hdr rr)))
                \<lparr>Response := True, Authoritative := permanent, RecursionAvailable := False, Rcode := RcodeSuccess\<rparr>;
              msg = msg\<lparr>Answer := Answer msg @ [rr]\<rparr>;
              expires = n1 + Second * uint (Ttl (Hdr rr));
              key = \<lparr>K_Name = name, K_Qtype = Rrtype (Hdr rr)\<rparr>;
              val = \<lparr>Message = msg, Inserted = n2, Expires = expires, Permanent = permanent\<rparr>
          in c\<lparr>CacheMap := gm_set key val (CacheMap c)\<rparr>)"

text \<open>The clock is read twice for each record added: first for the PTR record, then for the record.\<close>

definition AddRRString :: "dns_lib \<Rightarrow> DNSCache \<Rightarrow> string \<Rightarrow> bool \<Rightarrow> bool \<Rightarrow> (nat \<Rightarrow> int) \<Rightarrow> string + DNSCache" where
  "AddRRString D c entry permanent ptr clk =
     (case NewRR D entry of
        Inl err \<Rightarrow> Inl (''Error creating RR: '' @ err)
      | Inr rr \<Rightarrow>
          let c = (if ptr then
                     (case rr of
                        Some v \<Rightarrow>
                          (case Data v of
                             RA ip \<Rightarrow> AddRR D c (Some (createPtrA (Hdr v) ip)) permanent (clk 0) (clk 1)
                           | RAAAA ip \<Rightarrow> AddRR D c (Some (createPtrAAAA (Hdr v) ip)) permanent (clk 0) (clk 1)
                           | _ \<Rightarrow> c)
                      | None \<Rightarrow> c)
                   else c)
          in Inr (AddRR D c rr permanent (clk 2) (clk 3)))"

definition ttl_step :: "u32 \<Rightarrow> RR \<Rightarrow> u32" where
  "ttl_step minTTL rr =
     (if Rrtype (Hdr rr) \<noteq> TypeOPT \<and> Ttl (Hdr rr) < minTTL then Ttl (Hdr rr) else minTTL)"

definition minTTL :: "Msg \<Rightarrow> u32" where
  "minTTL msg = foldl (foldl ttl_step) 86400 [Answer msg, Ns msg, Extra msg]"

definition Cache_Add :: "dns_lib \<Rightarrow> DNSCache \<Rightarrow> Msg \<Rightarrow> int \<Rightarrow> DNSCache go" where
  "Cache_Add D c msg now =
     (if Rcode msg \<noteq> RcodeSuccess \<or> Truncated msg \<or>
         length (Answer msg) + length (Ns msg) + length (Extra msg) = 0 then Inr c
      else if minTTL msg = 0 then Inr c
      else
        (case MQuestion msg of
           [] \<Rightarrow> Inl IndexOutOfRange
         | q # _ \<Rightarrow>
             let expires = now + Second * uint (minTTL msg);
                 key = \<lparr>K_Name = CanonicalName D (Q_Name q), K_Qtype = Qtype q\<rparr>;
                 val = \<lparr>Message = msg, Inserted = now, Expires = expires, Permanent = False\<rparr>
             in Inr (c\<lparr>CacheMap := gm_set key val (CacheMap c)\<rparr>)))"

definition query_key :: "dns_lib \<Rightarrow> Question \<Rightarrow> DNSCacheKey" where
  "query_key D q = \<lparr>K_Name = CanonicalName D (Q_Name q), K_Qtype = Qtype q\<rparr>"

definition age_rr :: "u32 \<Rightarrow> RR \<Rightarrow> RR" where
  "age_rr delta v =
     (if Rrtype (Hdr v) \<noteq> TypeOPT then v\<lparr>Hdr := (Hdr v)\<lparr>Ttl := Ttl (Hdr v) - delta\<rparr>\<rparr> else v)"

definition Cache_Get :: "dns_lib \<Rightarrow> DNSCache \<Rightarrow> Msg \<Rightarrow> int \<Rightarrow> int \<Rightarrow> (DNSCache \<times> Msg option) go" where
  "Cache_Get D c query n1 n2 =
     (case MQuestion query of
        [] \<Rightarrow> Inl IndexOutOfRange
      | q # _ \<Rightarrow>
          let key = query_key D q
          in case gm_get (CacheMap c) key of
               None \<Rightarrow> Inr (c, None)
             | Some entry \<Rightarrow>
                 if \<not> Permanent entry \<and> n1 > Expires entry then
                   Inr (c\<lparr>CacheMap := gm_del key (CacheMap c)\<rparr>, None)
                 else
                   let reply = (Message entry)\<lparr>Id := Id query\<rparr>;
                       delta = of_int ((n2 - Inserted entry) div Second);
                       reply = (if \<not> Permanent entry then
                           reply\<lparr>Answer := map (age_rr delta) (Answer reply), Ns := map (age_rr delta) (Ns reply),
                             Extra := map (age_rr delta) (Extra reply)\<rparr>
                         else reply)
                   in Inr (c, Some reply))"

definition GetName :: "dns_lib \<Rightarrow> DNSCache \<Rightarrow> string \<Rightarrow> string \<Rightarrow> int \<Rightarrow> int \<Rightarrow> (DNSCache \<times> Msg option) go" where
  "GetName D c qname qtype n1 n2 =
     Cache_Get D c (SetQuestion D newMsg qname (StringToType0 D qtype)) n1 n2"

definition Cache_Delete :: "dns_lib \<Rightarrow> DNSCache \<Rightarrow> Msg \<Rightarrow> DNSCache go" where
  "Cache_Delete D c query =
     (case MQuestion query of
        [] \<Rightarrow> Inl IndexOutOfRange
      | q # _ \<Rightarrow> Inr (c\<lparr>CacheMap := gm_del (query_key D q) (CacheMap c)\<rparr>))"

definition delete_ptr :: "DNSCache \<Rightarrow> RR \<Rightarrow> DNSCache" where
  "delete_ptr c rr =
     (case Data rr of
        RA ip \<Rightarrow> c\<lparr>CacheMap := gm_del \<lparr>K_Name = reverseIP4 ip, K_Qtype = TypePTR\<rparr> (CacheMap c)\<rparr>
      | RAAAA ip \<Rightarrow> c\<lparr>CacheMap := gm_del \<lparr>K_Name = reverseIP6 ip, K_Qtype = TypePTR\<rparr> (CacheMap c)\<rparr>
      | _ \<Rightarrow> c)"

definition DeleteName :: "dns_lib \<Rightarrow> DNSCache \<Rightarrow> string \<Rightarrow> string \<Rightarrow> bool \<Rightarrow> int \<Rightarrow> int \<Rightarrow> DNSCache go" where
  "DeleteName D c name qtype ptr n1 n2 =
     (let final = (\<lambda>c. Inr (c\<lparr>CacheMap :=
            gm_del \<lparr>K_Name = CanonicalName D name, K_Qtype = StringToType0 D qtype\<rparr> (CacheMap c)\<rparr>))
      in if ptr then
           (case GetName D c name qtype n1 n2 of
              Inl p \<Rightarrow> Inl p
            | Inr (c, None) \<Rightarrow> final c
            | Inr (c, Some fwd) \<Rightarrow> final (foldl delete_ptr c (Answer fwd)))
         else final c)"

definition expired :: "int \<Rightarrow> DNSCacheItem \<Rightarrow> bool" where
  "expired now v \<longleftrightarrow> \<not> Permanent v \<and> now > Expires v"

definition Flush :: "DNSCache \<Rightarrow> int \<Rightarrow> nat \<times> nat \<times> DNSCache" where
  "Flush c now =
     (length (CacheMap c),
      length (filter (\<lambda>(k, v). expired now v) (CacheMap c)),
      c\<lparr>CacheMap := filter (\<lambda>(k, v). \<not> expired now v) (CacheMap c)\<rparr>)"

definition Cache_Debug :: "dns_lib \<Rightarrow> (int \<Rightarrow> string) \<Rightarrow> DNSCache \<Rightarrow> (nat \<Rightarrow> int) \<Rightarrow> string list go" where
  "Cache_Debug D fmt_secs c clk =
     foldr (\<lambda>(i, k, v) acc. case Item_String D fmt_secs v (clk i) of
          Inl p \<Rightarrow> Inl p
        | Inr s \<Rightarrow> map_sum id (Cons s) acc)
       (enumerate 0 (CacheMap c)) (Inr [])"

lemmas cache_op_defs [cache_defs] = AddRR_def Cache_Add_def Cache_Get_def Cache_Delete_def query_key_def

section \<open>The invariant\<close>

definition sections :: "Msg \<Rightarrow> RR list" where
  "sections m = Answer m @ Ns m @ Extra m"

text \<open>An item that can expire does so before any TTL it holds runs out.\<close>

definition item_ok :: "DNSCacheItem \<Rightarrow> bool" where
  "item_ok i \<longleftrightarrow> MQuestion (Message i) \<noteq> [] \<and>
     (\<not> Permanent i \<longrightarrow> (\<forall>rr \<in> set (sections (Message i)). Rrtype (Hdr rr) \<noteq> TypeOPT \<longrightarrow>
        Expires i \<le> Inserted i + Second * uint (Ttl (Hdr rr))))"

definition cache_inv :: "int \<Rightarrow> DNSCache \<Rightarrow> bool" where
  "cache_inv t c \<longleftrightarrow> gm_wf (CacheMap c) \<and> (\<forall>(k, v) \<in> set (CacheMap c). item_ok v \<and> Inserted v \<le> t)"

lemma cache_invD:
  assumes "cache_inv t c" "gm_get (CacheMap c) k = Some v"
  shows "item_ok v" "Inserted v \<le> t"
  using assms gm_get_in [OF assms(2)] by (auto simp: cache_inv_def)

lemma cache_inv_mono: "cache_inv t c \<Longrightarrow> t \<le> t' \<Longrightarrow> cache_inv t' c"
  by (fastforce simp: cache_inv_def)

lemma cache_inv_New [simp]: "cache_inv t Cache_New"
  by (simp add: cache_inv_def Cache_New_def)

lemma cache_inv_set:
  assumes "cache_inv t c" "item_ok v" "Inserted v \<le> t"
  shows "cache_inv t (c\<lparr>CacheMap := gm_set k v (CacheMap c)\<rparr>)"
  using assms gm_set_in by (fastforce simp: cache_inv_def)

lemma cache_inv_subset:
  "cache_inv t c \<Longrightarrow> gm_wf m \<Longrightarrow> set m \<subseteq> set (CacheMap c) \<Longrightarrow> cache_inv t (c\<lparr>CacheMap := m\<rparr>)"
  by (auto simp: cache_inv_def)

lemma cache_inv_del: "cache_inv t c \<Longrightarrow> cache_inv t (c\<lparr>CacheMap := gm_del k (CacheMap c)\<rparr>)"
  by (rule cache_inv_subset) (auto simp: cache_inv_def dest: gm_del_in)

lemma foldl_ttl_step_le: "foldl ttl_step m rrs \<le> m"
  by (induction rrs arbitrary: m) (auto simp: ttl_step_def intro: order.trans order.strict_implies_order)

lemma foldl_ttl_step_rr:
  "rr \<in> set rrs \<Longrightarrow> Rrtype (Hdr rr) \<noteq> TypeOPT \<Longrightarrow> foldl ttl_step m rrs \<le> Ttl (Hdr rr)"
proof (induction rrs arbitrary: m)
  case (Cons x xs)
  show ?case
  proof (cases "rr = x")
    case True
    then have "ttl_step m x \<le> Ttl (Hdr rr)" using Cons.prems(2) by (auto simp: ttl_step_def)
    then show ?thesis using foldl_ttl_step_le [of "ttl_step m x" xs] by (simp add: order.trans)
  qed (use Cons in auto)
qed simp

lemma minTTL_sections: "minTTL msg = foldl ttl_step 86400 (sections msg)"
  by (simp add: minTTL_def sections_def)

lemma minTTL_le: "rr \<in> set (sections msg) \<Longrightarrow> Rrtype (Hdr rr) \<noteq> TypeOPT \<Longrightarrow> minTTL msg \<le> Ttl (Hdr rr)"
  by (simp add: minTTL_sections foldl_ttl_step_rr)

lemma minTTL_max: "minTTL msg \<le> 86400"
  by (simp add: minTTL_sections foldl_ttl_step_le)

lemma uint_mono: "(a :: u32) \<le> b \<Longrightarrow> uint a \<le> uint b"
  by (simp add: word_le_def)

lemma AddRR_inv:
  assumes "SetQuestion_doc D" "cache_inv t c" "t \<le> n1" "n1 \<le> n2"
  shows "cache_inv n2 (AddRR D c rr permanent n1 n2)"
proof (cases rr)
  case (Some r)
  have "cache_inv n2 c" using assms cache_inv_mono by fastforce
  then show ?thesis
    using assms Some
    by (auto simp: AddRR_def Let_def SetQuestion_doc_def item_ok_def sections_def newMsg_def intro!: cache_inv_set)
qed (use assms cache_inv_mono in \<open>auto simp: AddRR_def\<close>)

text \<open>The clock is read before the lock is taken, so an answer may be stored with a time that has passed by then.\<close>

lemma Cache_Add_inv_late:
  assumes "cache_inv t c" "n \<le> t" "Cache_Add D c msg n = Inr c'"
  shows "cache_inv t c'"
proof (cases "c' = c")
  case False
  let ?val = "\<lparr>Message = msg, Inserted = n, Expires = n + Second * uint (minTTL msg), Permanent = False\<rparr>"
  have val: "MQuestion msg \<noteq> [] \<Longrightarrow> item_ok ?val"
    using uint_mono minTTL_le by (auto simp: item_ok_def)
  from assms(3) False obtain q qs where "MQuestion msg = q # qs"
    "c' = c\<lparr>CacheMap := gm_set (query_key D q) ?val (CacheMap c)\<rparr>"
    by (auto simp: Cache_Add_def query_key_def Let_def split: if_splits list.splits)
  with assms val show ?thesis by (auto intro!: cache_inv_set)
qed (use assms in simp)

lemma Cache_Add_inv: "cache_inv t c \<Longrightarrow> t \<le> n \<Longrightarrow> Cache_Add D c msg n = Inr c' \<Longrightarrow> cache_inv n c'"
  using Cache_Add_inv_late [OF cache_inv_mono] by blast

lemma Cache_Get_inv:
  assumes "cache_inv t c" "t \<le> n1" "n1 \<le> n2" "Cache_Get D c q n1 n2 = Inr (c', r)"
  shows "cache_inv n2 c'"
proof -
  have c: "cache_inv n2 c" using assms(1,2,3) cache_inv_mono by fastforce
  have "c' = c \<or> (\<exists>k. c' = c\<lparr>CacheMap := gm_del k (CacheMap c)\<rparr>)"
    using assms(4) by (auto simp: Cache_Get_def Let_def split: list.splits option.splits if_splits)
  with c cache_inv_del show ?thesis by blast
qed

lemma Cache_Delete_inv: "cache_inv t c \<Longrightarrow> Cache_Delete D c q = Inr c' \<Longrightarrow> cache_inv t c'"
  by (auto simp: Cache_Delete_def cache_inv_del split: list.splits)

lemma delete_ptr_inv: "cache_inv t c \<Longrightarrow> cache_inv t (delete_ptr c rr)"
  by (auto simp: delete_ptr_def cache_inv_del split: RData.splits)

lemma delete_ptrs_inv: "cache_inv t c \<Longrightarrow> cache_inv t (foldl delete_ptr c rrs)"
  by (induction rrs arbitrary: c) (simp_all add: delete_ptr_inv)

lemma DeleteName_inv:
  assumes "cache_inv t c" "t \<le> n1" "n1 \<le> n2" "DeleteName D c name qt ptr n1 n2 = Inr c'"
  shows "cache_inv n2 c'"
proof -
  have "cache_inv n2 c" using assms(1,2,3) cache_inv_mono by fastforce
  with assms show ?thesis
    by (auto simp: DeleteName_def GetName_def Let_def intro!: cache_inv_del delete_ptrs_inv
        dest: Cache_Get_inv split: if_splits sum.splits option.splits prod.splits)
qed

lemma Flush_inv: "cache_inv t c \<Longrightarrow> cache_inv t (snd (snd (Flush c now)))"
  unfolding Flush_def by (auto intro!: cache_inv_subset simp: cache_inv_def)

section \<open>The state machine\<close>

text \<open>
  The caches that the operations can build, with a time no earlier than the last clock reading. The
  clock does not go back: a reading is at least the time reached so far.
\<close>

inductive cache_reach :: "dns_lib \<Rightarrow> int \<Rightarrow> DNSCache \<Rightarrow> bool" for D where
  reach_new: "cache_reach D t Cache_New"
| reach_AddRR: "cache_reach D t c \<Longrightarrow> t \<le> n1 \<Longrightarrow> n1 \<le> n2 \<Longrightarrow> cache_reach D n2 (AddRR D c rr permanent n1 n2)"
| reach_Add: "cache_reach D t c \<Longrightarrow> t \<le> n \<Longrightarrow> Cache_Add D c msg n = Inr c' \<Longrightarrow> cache_reach D n c'"
| reach_Get: "cache_reach D t c \<Longrightarrow> t \<le> n1 \<Longrightarrow> n1 \<le> n2 \<Longrightarrow> Cache_Get D c q n1 n2 = Inr (c', r) \<Longrightarrow> cache_reach D n2 c'"
| reach_Delete: "cache_reach D t c \<Longrightarrow> Cache_Delete D c q = Inr c' \<Longrightarrow> cache_reach D t c'"
| reach_DeleteName: "cache_reach D t c \<Longrightarrow> t \<le> n1 \<Longrightarrow> n1 \<le> n2 \<Longrightarrow>
     DeleteName D c name qt ptr n1 n2 = Inr c' \<Longrightarrow> cache_reach D n2 c'"
| reach_Flush: "cache_reach D t c \<Longrightarrow> t \<le> n \<Longrightarrow> cache_reach D n (snd (snd (Flush c n)))"

lemma cache_reach_inv:
  assumes "SetQuestion_doc D" "cache_reach D t c"
  shows "cache_inv t c"
  using assms(2)
proof (induction rule: cache_reach.induct)
  case (reach_AddRR t c n1 n2 rr permanent)
  then show ?case using AddRR_inv [OF assms(1)] by blast
next
  case (reach_Add t c n msg c')
  then show ?case using Cache_Add_inv by blast
next
  case (reach_Get t c n1 n2 q c' r)
  then show ?case using Cache_Get_inv by blast
next
  case (reach_Delete t c q c')
  then show ?case using Cache_Delete_inv by blast
next
  case (reach_DeleteName t c n1 n2 name qt ptr c')
  then show ?case using DeleteName_inv by blast
next
  case (reach_Flush t c n)
  then show ?case using Flush_inv cache_inv_mono by blast
qed simp

section \<open>The abstract view: an expiring map\<close>

text \<open>
  What a client may rely on: a store shows, at each time, the entries that are not dead; cleaning
  up dead entries, in one sweep or on the way of a lookup, is never seen later.
\<close>

locale expiring_store =
  fixes view :: "'s \<Rightarrow> int \<Rightarrow> 'k \<Rightarrow> 'v option"
    and put :: "'s \<Rightarrow> 'k \<Rightarrow> 'v \<Rightarrow> 's"
    and del :: "'s \<Rightarrow> 'k \<Rightarrow> 's"
    and sweep :: "'s \<Rightarrow> int \<Rightarrow> 's"
    and touch :: "'s \<Rightarrow> 'k \<Rightarrow> int \<Rightarrow> 's"
    and dead :: "int \<Rightarrow> 'v \<Rightarrow> bool"
    and inv :: "'s \<Rightarrow> bool"
  assumes view_put: "view (put s k v) t k' = (if k' = k then if dead t v then None else Some v else view s t k')"
    and view_del: "view (del s k) t k' = (if k' = k then None else view s t k')"
    and view_sweep: "inv s \<Longrightarrow> t \<le> t' \<Longrightarrow> view (sweep s t) t' k = view s t' k"
    and view_touch: "t \<le> t' \<Longrightarrow> view (touch s k t) t' k' = view s t' k'"
    and inv_put: "inv s \<Longrightarrow> inv (put s k v)"
    and inv_del: "inv s \<Longrightarrow> inv (del s k)"
    and inv_sweep: "inv s \<Longrightarrow> inv (sweep s t)"
    and inv_touch: "inv s \<Longrightarrow> inv (touch s k t)"
begin

text \<open>A cleanup is a sweep (\<open>Inl t\<close>) or a lookup of a key (\<open>Inr (k, t)\<close>).\<close>

fun cleanup :: "int + 'k \<times> int \<Rightarrow> 's \<Rightarrow> 's" where
  "cleanup (Inl t) s = sweep s t"
| "cleanup (Inr (k, t)) s = touch s k t"

fun cleanup_time :: "int + 'k \<times> int \<Rightarrow> int" where
  "cleanup_time (Inl t) = t"
| "cleanup_time (Inr (k, t)) = t"

lemma cleanups_unseen:
  "inv s \<Longrightarrow> \<forall>x \<in> set xs. cleanup_time x \<le> t \<Longrightarrow> view (fold cleanup xs s) t k = view s t k"
proof (induction xs arbitrary: s)
  case (Cons x xs)
  have "inv (cleanup x s)" using Cons.prems(1) by (cases x rule: cleanup_time.cases) (auto simp: inv_sweep inv_touch)
  moreover have "view (cleanup x s) t k = view s t k"
    using Cons.prems by (cases x rule: cleanup_time.cases) (auto simp: view_sweep view_touch)
  ultimately show ?case using Cons by simp
qed simp

lemma put_survives_cleanups:
  assumes "inv s" "\<forall>x \<in> set xs. cleanup_time x \<le> t" "\<not> dead t v"
  shows "view (fold cleanup xs (put s k v)) t k = Some v"
  using assms cleanups_unseen [of "put s k v" xs t k] by (simp add: inv_put view_put)

end

definition live :: "DNSCache \<Rightarrow> int \<Rightarrow> DNSCacheKey \<Rightarrow> DNSCacheItem option" where
  "live c now k =
     (case gm_get (CacheMap c) k of None \<Rightarrow> None | Some v \<Rightarrow> if expired now v then None else Some v)"

definition cache_put :: "DNSCache \<Rightarrow> DNSCacheKey \<Rightarrow> DNSCacheItem \<Rightarrow> DNSCache" where
  "cache_put c k v = c\<lparr>CacheMap := gm_set k v (CacheMap c)\<rparr>"

definition cache_del :: "DNSCache \<Rightarrow> DNSCacheKey \<Rightarrow> DNSCache" where
  "cache_del c k = c\<lparr>CacheMap := gm_del k (CacheMap c)\<rparr>"

definition cache_sweep :: "DNSCache \<Rightarrow> int \<Rightarrow> DNSCache" where
  "cache_sweep c now = snd (snd (Flush c now))"

definition cache_touch :: "DNSCache \<Rightarrow> DNSCacheKey \<Rightarrow> int \<Rightarrow> DNSCache" where
  "cache_touch c k now =
     (case gm_get (CacheMap c) k of
        None \<Rightarrow> c | Some v \<Rightarrow> if expired now v then cache_del c k else c)"

lemma expired_mono: "expired t v \<Longrightarrow> t \<le> t' \<Longrightarrow> expired t' v"
  by (auto simp: expired_def)

interpretation store: expiring_store live cache_put cache_del cache_sweep cache_touch expired
    "\<lambda>c. gm_wf (CacheMap c)"
proof (unfold_locales, goal_cases)
  case (3 s t t' k)
  then show ?case
    by (auto simp: live_def cache_sweep_def Flush_def gm_get_filter expired_mono split: option.splits)
next
  case (4 t t' s k k')
  then show ?case
    by (auto simp: live_def cache_touch_def cache_del_def expired_mono split: option.splits)
qed (auto simp: live_def cache_put_def cache_del_def cache_sweep_def cache_touch_def Flush_def
      split: option.splits)

section \<open>Lookups in terms of the view\<close>

definition reply_of :: "Msg \<Rightarrow> int \<Rightarrow> DNSCacheItem \<Rightarrow> Msg" where
  "reply_of query n2 entry =
     (let reply = (Message entry)\<lparr>Id := Id query\<rparr>;
          delta = of_int ((n2 - Inserted entry) div Second)
      in if \<not> Permanent entry then
           reply\<lparr>Answer := map (age_rr delta) (Answer reply), Ns := map (age_rr delta) (Ns reply),
             Extra := map (age_rr delta) (Extra reply)\<rparr>
         else reply)"

lemma Cache_Get_eq:
  assumes "MQuestion query = q # qs"
  shows "Cache_Get D c query n1 n2 =
    Inr (cache_touch c (query_key D q) n1, map_option (reply_of query n2) (live c n1 (query_key D q)))"
  using assms
  by (simp add: Cache_Get_def live_def cache_touch_def cache_del_def expired_def reply_of_def Let_def
      split: option.splits)

lemma reply_of_fields [simp]:
  "Id (reply_of query n2 v) = Id query" "MQuestion (reply_of query n2 v) = MQuestion (Message v)"
  "Rcode (reply_of query n2 v) = Rcode (Message v)"
  "Permanent v \<Longrightarrow> Answer (reply_of query n2 v) = Answer (Message v)"
  by (simp_all add: reply_of_def Let_def)

lemma Cache_Add_eq:
  assumes "MQuestion msg = q # qs" "Rcode msg = RcodeSuccess" "\<not> Truncated msg" "sections msg \<noteq> []"
    "minTTL msg \<noteq> 0"
  shows "Cache_Add D c msg n = Inr (cache_put c (query_key D q)
    \<lparr>Message = msg, Inserted = n, Expires = n + Second * uint (minTTL msg), Permanent = False\<rparr>)"
  using assms by (auto simp: Cache_Add_def cache_put_def query_key_def sections_def Let_def)

lemma AddRR_eq:
  "AddRR D c (Some rr) permanent n1 n2 =
    cache_put c \<lparr>K_Name = CanonicalName D (Hdr_Name (Hdr rr)), K_Qtype = Rrtype (Hdr rr)\<rparr>
      \<lparr>Message = (SetQuestion D newMsg (CanonicalName D (Hdr_Name (Hdr rr))) (Rrtype (Hdr rr)))
          \<lparr>Response := True, Authoritative := permanent, RecursionAvailable := False, Rcode := RcodeSuccess,
           Answer := Answer (SetQuestion D newMsg (CanonicalName D (Hdr_Name (Hdr rr))) (Rrtype (Hdr rr))) @ [rr]\<rparr>,
       Inserted = n2, Expires = n1 + Second * uint (Ttl (Hdr rr)), Permanent = permanent\<rparr>"
  by (simp add: AddRR_def cache_put_def Let_def)

text \<open>A record aged by whole seconds, without wrap-around.\<close>

definition aged_by :: "nat \<Rightarrow> RR \<Rightarrow> RR \<Rightarrow> bool" where
  "aged_by s rr rr' \<longleftrightarrow>
     (if Rrtype (Hdr rr) = TypeOPT then rr' = rr
      else s \<le> unat (Ttl (Hdr rr)) \<and> rr' = rr\<lparr>Hdr := (Hdr rr)\<lparr>Ttl := of_nat (unat (Ttl (Hdr rr)) - s)\<rparr>\<rparr>)"

lemma age_rr_aged_by:
  assumes "Rrtype (Hdr rr) \<noteq> TypeOPT \<Longrightarrow> s \<le> unat (Ttl (Hdr rr))"
  shows "aged_by s rr (age_rr (of_nat s) rr)"
  using assms by (auto simp: aged_by_def age_rr_def of_nat_diff)

lemma reply_sections_aged:
  assumes "item_ok v" "\<not> Permanent v" "\<not> expired n1 v" "Inserted v \<le> n2" "n2 < n1 + Second"
  shows "list_all2 (aged_by (nat ((n2 - Inserted v) div Second))) (sections (Message v)) (sections (reply_of query n2 v))"
proof -
  let ?s = "nat ((n2 - Inserted v) div Second)"
  have delta: "of_int ((n2 - Inserted v) div Second) = (of_nat ?s :: u32)"
    using assms(4) by (simp add: of_nat_nat pos_imp_zdiv_nonneg_iff)
  have le: "?s \<le> unat (Ttl (Hdr rr))"
    if "rr \<in> set (sections (Message v))" "Rrtype (Hdr rr) \<noteq> TypeOPT" for rr
  proof -
    have "n2 - Inserted v < Second * (uint (Ttl (Hdr rr)) + 1)"
      using that assms by (fastforce simp: item_ok_def expired_def)
    then have "(n2 - Inserted v) div Second < uint (Ttl (Hdr rr)) + 1"
      by (simp add: div_less_iff_less_mult mult.commute)
    then show ?thesis by (metis nat_le_iff uint_nat zle_add1_eq_le)
  qed
  have "sections (reply_of query n2 v) = map (age_rr (of_nat ?s)) (sections (Message v))"
    using assms(2) by (simp add: reply_of_def sections_def Let_def delta)
  then show ?thesis
    by (auto simp: list_all2_conv_all_nth intro!: age_rr_aged_by le)
qed

section \<open>Reverse names\<close>

lemma hex_digit_not_upper: "n < 16 \<Longrightarrow> lower_char (hex_digit n) = hex_digit n"
  by (simp add: lower_char_def of_char_hex_digit)

lemma digit_lower: "is_digit c \<Longrightarrow> lower_char c = c"
  by (auto simp: is_digit_def lower_char_def)

lemma ToLower_concat: "ToLower (concat (map f xs)) = concat (map (\<lambda>x. ToLower (f x)) xs)"
  by (induction xs) (simp_all add: ToLower_append)

lemma ToLower_fmt_d: "ToLower (fmt_d n) = fmt_d n"
  by (auto simp: ToLower_def intro!: map_idI digit_lower dest: fmt_d_digits)

lemma ToLower_lit [simp]:
  "ToLower ''in-addr.arpa.'' = ''in-addr.arpa.''" "ToLower ''ip6.arpa.'' = ''ip6.arpa.''" "ToLower ''.'' = ''.''"
  by (simp_all add: ToLower_def lower_char_def)

lemma reverseIP4_canonical: "is_canonical (reverseIP4 ip)"
  by (simp add: is_canonical_def reverseIP4_def ToLower_append ToLower_concat ToLower_fmt_d HasSuffix_single)

lemma nibbles: "unat (b AND 15 :: u8) < 16" "unat (drop_bit 4 (b :: u8)) < 16"
proof -
  have "unat (b AND 15) \<le> unat (15 :: u8)"
    by (rule word_and_le1 [THEN word_le_nat_alt [THEN iffD1]])
  then show "unat (b AND 15 :: u8) < 16" by simp
  show "unat (drop_bit 4 b) < 16"
    using unat_u8 [of b] unfolding unat_drop_bit_eq by (simp add: drop_bit_eq_div)
qed

lemma reverseIP6_canonical: "is_canonical (reverseIP6 ip)"
proof -
  have dot: "ToLower (CHR ''.'' # s) = CHR ''.'' # ToLower s" for s
    by (simp add: ToLower_Cons lower_char_def)
  have "ToLower (fmt_x n @ s) = fmt_x n @ ToLower s" if "n < 16" for n s
    using that by (simp add: fmt_x_single ToLower_Cons hex_digit_not_upper)
  then show ?thesis
    by (simp add: is_canonical_def reverseIP6_def ToLower_append [of "concat xs" for xs] ToLower_concat
        nibbles dot HasSuffix_single)
qed

lemma concat_dotted_inj:
  assumes "concat (map (\<lambda>b. f b @ ''.'') xs) @ s = concat (map (\<lambda>b. f b @ ''.'') ys) @ s"
    and "length xs = length ys" "\<And>b. b \<in> A \<Longrightarrow> CHR ''.'' \<notin> set (f b)" "inj_on f A" "set xs \<subseteq> A" "set ys \<subseteq> A"
  shows "xs = ys"
  using assms(2,1,5,6)
proof (induction xs ys rule: list_induct2)
  case (Cons x xs y ys)
  have eq: "f x @ CHR ''.'' # (concat (map (\<lambda>b. f b @ ''.'') xs) @ s) =
      f y @ CHR ''.'' # (concat (map (\<lambda>b. f b @ ''.'') ys) @ s)"
    using Cons.prems by simp
  have "Split CHR ''.'' (f x @ CHR ''.'' # (concat (map (\<lambda>b. f b @ ''.'') xs) @ s)) =
      Split CHR ''.'' (f y @ CHR ''.'' # (concat (map (\<lambda>b. f b @ ''.'') ys) @ s))"
    by (simp only: eq)
  then have "f x = f y" using Cons.prems by (simp add: Split_append_sep assms(3))
  with eq Cons assms(4) show ?case by (simp add: inj_on_eq_iff)
qed simp

lemma To4_cases: "To4 ip = [] \<or> length (To4 ip) = 4"
  by (simp add: To4_def)

lemma To16_cases: "To16 ip = [] \<or> length (To16 ip) = 16"
  by (auto simp: To16_def v4InV6Prefix_def)

lemma nibbles_inj:
  assumes "a AND 15 = (b AND 15 :: u8)" "drop_bit 4 a = drop_bit 4 b"
  shows "a = b"
proof (rule bit_word_eqI)
  fix i assume "i < LENGTH(8)"
  then have "i < 4 \<or> (4 \<le> i \<and> i < 8)" by auto
  moreover have "bit (a AND mask 4) i = bit (b AND mask 4) i" "bit (drop_bit 4 a) (i - 4) = bit (drop_bit 4 b) (i - 4)"
    using assms by (simp_all add: mask_eq_exp_minus_1)
  ultimately show "bit a i = bit b i"
    by (auto simp: bit_and_iff bit_mask_iff bit_drop_bit_eq)
qed

definition nibble_list :: "u8 list \<Rightarrow> nat list" where
  "nibble_list bs = concat (map (\<lambda>b. [unat (b AND 15), unat (drop_bit 4 b)]) bs)"

lemma nibble_list_inj: "length xs = length ys \<Longrightarrow> nibble_list xs = nibble_list ys \<Longrightarrow> xs = ys"
  by (induction xs ys rule: list_induct2)
     (auto simp: nibble_list_def word_unat_eq_iff [symmetric] intro: nibbles_inj)

lemma nibble_list_range: "set (nibble_list bs) \<subseteq> {..<16}"
  using nibbles by (auto simp: nibble_list_def)

lemma length_nibble_list: "length (nibble_list bs) = 2 * length bs"
  by (induction bs) (auto simp: nibble_list_def)

lemma reverseIP6_nibbles:
  "reverseIP6 ip = concat (map (\<lambda>n. fmt_x n @ ''.'') (nibble_list (rev (To16 ip)))) @ ''ip6.arpa.''"
proof -
  have "concat (map (\<lambda>n. fmt_x n @ ''.'') (nibble_list bs)) =
      concat (map (\<lambda>b. fmt_x (unat (b AND 15)) @ ''.'' @ fmt_x (unat (drop_bit 4 b)) @ ''.'') bs)" for bs
    by (induction bs) (simp_all add: nibble_list_def)
  then show ?thesis by (simp add: reverseIP6_def)
qed

lemma hex_digit_not_dot: "n < 16 \<Longrightarrow> hex_digit n \<noteq> CHR ''.''"
proof
  assume "n < 16" "hex_digit n = CHR ''.''"
  then have "(of_char (hex_digit n) :: nat) = 46" by simp
  with \<open>n < 16\<close> show False by (simp add: of_char_hex_digit split: if_splits)
qed

section \<open>Properties\<close>


definition sample_query :: "string \<Rightarrow> u16 \<Rightarrow> Msg" where
  "sample_query n t = newMsg\<lparr>Id := 7, MQuestion := [\<lparr>Q_Name = n, Qtype = t, Qclass = ClassINET\<rparr>]\<rparr>"

definition sample_answer :: Msg where
  "sample_answer = (sample_query ''H.local.'' TypeA)\<lparr>Response := True,
     Answer := [sample_rr ''H.local.'' TypeA 60 (RA [192, 0, 2, 1])]\<rparr>"

lemmas sample_msgs = sample_query_def sample_answer_def sample_rr_def newMsg_def

lemma sample_canonical_names:
  "CanonicalName sample_lib ''h.LOCAL'' = ''h.local.''" "CanonicalName sample_lib ''H.local.'' = ''h.local.''"
  "CanonicalName sample_lib ''h.local'' = ''h.local.''" "CanonicalName sample_lib ''h.local.'' = ''h.local.''"
  by (simp_all add: sample_lib_def) code_simp+




text \<open>
  Claim C30. Flushing is invisible: on a cache that the operations can reach, \<^verbatim>\<open>Flush\<close> reports how many
  entries there were and how many it removed, leaves no expired entry, and every later lookup gives
  what it would have given without the flush.
\<close>

theorem Flush_invisible:
  assumes "SetQuestion_doc D" "cache_reach D t0 c" "Flush c t = (n, removed, c')"
    "MQuestion query = q # qs" "t \<le> n1"
  shows "map_sum id snd (Cache_Get D c' query n1 n2) = map_sum id snd (Cache_Get D c query n1 n2) \<and>
    n = length (CacheMap c) \<and> n = removed + length (CacheMap c') \<and>
    list_all (\<lambda>(k, v). \<not> expired t v) (CacheMap c')"
proof -
  have wf: "gm_wf (CacheMap c)" using cache_reach_inv [OF assms(1,2)] by (simp add: cache_inv_def)
  have c': "c' = cache_sweep c t" using assms(3) by (simp add: cache_sweep_def)
  have "live c' n1 k = live c n1 k" for k using store.view_sweep [OF wf assms(5)] c' by simp
  then show ?thesis
    using assms(3) sum_length_filter_compl [of "\<lambda>(k, v). expired t v" "CacheMap c"]
    by (auto simp: Cache_Get_eq [OF assms(4)] Flush_def list_all_iff case_prod_unfold)
qed

theorem Flush_invisible_witness:
  "let c = AddRR sample_lib Cache_New (Some (sample_rr ''h.local.'' TypeA 60 (RA [192, 0, 2, 1]))) False 0 0;
       c' = snd (snd (Flush c 61000000000)) in
   map_sum id snd (Cache_Get sample_lib c' (sample_query ''h.local'' TypeA) 61000000000 61000000001) =
     map_sum id snd (Cache_Get sample_lib c (sample_query ''h.local'' TypeA) 61000000000 61000000001) \<and>
   fst (Flush c 61000000000) = length (CacheMap c) \<and>
   fst (Flush c 61000000000) = fst (snd (Flush c 61000000000)) + length (CacheMap c') \<and>
   list_all (\<lambda>(k, v). \<not> expired 61000000000 v) (CacheMap c')"
proof -
  let ?c = "AddRR sample_lib Cache_New (Some (sample_rr ''h.local.'' TypeA 60 (RA [192, 0, 2, 1]))) False 0 0"
  have reach: "cache_reach sample_lib 0 ?c"
    by (rule reach_AddRR [OF reach_new, of 0]) simp_all
  show ?thesis
    unfolding Let_def
    by (rule Flush_invisible [OF sample_set_question reach, where qs = "[]" and q = "\<lparr>Q_Name = ''h.local'', Qtype = TypeA, Qclass = ClassINET\<rparr>"])
       (simp_all add: sample_query_def)
qed

text \<open>The PTR record that \<^verbatim>\<open>AddRRString\<close> and \<^verbatim>\<open>DeleteName\<close> associate with an address record.\<close>

definition ptr_of :: "RR \<Rightarrow> RR option" where
  "ptr_of rr = (case Data rr of
      RA ip \<Rightarrow> Some (createPtrA (Hdr rr) ip) | RAAAA ip \<Rightarrow> Some (createPtrAAAA (Hdr rr) ip) | _ \<Rightarrow> None)"

definition rr_key :: "dns_lib \<Rightarrow> RR \<Rightarrow> DNSCacheKey" where
  "rr_key D rr = \<lparr>K_Name = CanonicalName D (Hdr_Name (Hdr rr)), K_Qtype = Rrtype (Hdr rr)\<rparr>"

lemma AddRRString_ptr_eq:
  assumes "NewRR D entry = Inr (Some rr)" "ptr_of rr = Some p"
  shows "AddRRString D c entry permanent True clk =
    Inr (AddRR D (AddRR D c (Some p) permanent (clk 0) (clk 1)) (Some rr) permanent (clk 2) (clk 3))"
  using assms by (auto simp: AddRRString_def ptr_of_def Let_def split: RData.splits)

lemma rr_key_ptr:
  assumes "CanonicalName_doc D" "ptr_of rr = Some p"
  shows "rr_key D p = \<lparr>K_Name = Hdr_Name (Hdr p), K_Qtype = TypePTR\<rparr>"
  using assms reverseIP4_canonical reverseIP6_canonical
  by (auto simp: ptr_of_def createPtrA_def createPtrAAAA_def rr_key_def CanonicalName_doc_def split: RData.splits)

lemma delete_ptr_eq:
  assumes "CanonicalName_doc D" "ptr_of rr = Some p"
  shows "delete_ptr c rr = cache_del c (rr_key D p)"
  using assms rr_key_ptr [OF assms]
  by (auto simp: ptr_of_def delete_ptr_def cache_del_def createPtrA_def createPtrAAAA_def split: RData.splits)

lemma cache_touch_live: "live c n k \<noteq> None \<Longrightarrow> cache_touch c k n = c"
  by (auto simp: live_def cache_touch_def split: option.splits)

lemma live_AddRR:
  "live (AddRR D c (Some rr) True n1 n2) t k =
    (if k = rr_key D rr then
       Some \<lparr>Message = (SetQuestion D newMsg (CanonicalName D (Hdr_Name (Hdr rr))) (Rrtype (Hdr rr)))
          \<lparr>Response := True, Authoritative := True, RecursionAvailable := False, Rcode := RcodeSuccess,
           Answer := Answer (SetQuestion D newMsg (CanonicalName D (Hdr_Name (Hdr rr))) (Rrtype (Hdr rr))) @ [rr]\<rparr>,
         Inserted = n2, Expires = n1 + Second * uint (Ttl (Hdr rr)), Permanent = True\<rparr>
     else live c t k)"
  by (auto simp: AddRR_eq rr_key_def store.view_put expired_def)




lemma DeleteName_ptr_eq:
  assumes "CanonicalName_doc D" "SetQuestion_doc D" "StringToType0 D qt = qtype"
    "live c n1 \<lparr>K_Name = CanonicalName D name, K_Qtype = qtype\<rparr> = Some v" "Permanent v" "Answer (Message v) = [rr]"
    "ptr_of rr = Some p"
  shows "DeleteName D c name qt True n1 n2 =
    Inr (cache_del (cache_del c (rr_key D p)) \<lparr>K_Name = CanonicalName D name, K_Qtype = qtype\<rparr>)"
proof -
  have q: "MQuestion (SetQuestion D newMsg name qtype) = [\<lparr>Q_Name = name, Qtype = qtype, Qclass = ClassINET\<rparr>]"
    using assms(2) by (simp add: SetQuestion_doc_def)
  have "GetName D c name qt n1 n2 = Inr (c, Some (reply_of (SetQuestion D newMsg name qtype) n2 v))"
    using assms(4) by (simp add: GetName_def assms(3) Cache_Get_eq [OF q] query_key_def cache_touch_live)
  then show ?thesis
    using assms(5,6) by (simp add: DeleteName_def assms(3) delete_ptr_eq [OF assms(1,7)] cache_del_def)
qed

text \<open>
  Deleting a name with its reverse record undoes adding it with its reverse record: after
  \<^verbatim>\<open>AddRRString\<close> and then \<^verbatim>\<open>DeleteName\<close> of the same name, in any spelling, and type, both keys are empty and
  every other key holds what it held before.
\<close>

theorem DeleteName_undoes_AddRRString:
  assumes "CanonicalName_doc D" "SetQuestion_doc D" "NewRR D entry = Inr (Some rr)" "ptr_of rr = Some p"
    "Rrtype (Hdr rr) \<noteq> TypePTR" "CanonicalName D name = CanonicalName D (Hdr_Name (Hdr rr))"
    "StringToType D qt = Some (Rrtype (Hdr rr))"
  shows "\<exists>c1 c2. AddRRString D c entry True True clk = Inr c1 \<and> DeleteName D c1 name qt True n1 n2 = Inr c2 \<and>
    (\<forall>k. gm_get (CacheMap c2) k =
       (if k \<in> {rr_key D rr, rr_key D p} then None else gm_get (CacheMap c) k))"
proof -
  let ?c2 = "AddRR D (AddRR D c (Some p) True (clk 0) (clk 1)) (Some rr) True (clk 2) (clk 3)"
  have qt: "StringToType0 D qt = Rrtype (Hdr rr)" using assms(7) by (simp add: StringToType0_def)
  have key: "\<lparr>K_Name = CanonicalName D name, K_Qtype = Rrtype (Hdr rr)\<rparr> = rr_key D rr"
    by (simp add: rr_key_def assms(6))
  obtain v where v: "live ?c2 n1 (rr_key D rr) = Some v" "Permanent v" "Answer (Message v) = [rr]"
    using assms(2) by (simp add: live_AddRR SetQuestion_doc_def newMsg_def)
  have "DeleteName D ?c2 name qt True n1 n2 = Inr (cache_del (cache_del ?c2 (rr_key D p)) (rr_key D rr))"
    using DeleteName_ptr_eq [OF assms(1,2) qt _ v(2,3) assms(4)] v(1) by (simp add: key)
  moreover have "gm_get (CacheMap (cache_del (cache_del ?c2 (rr_key D p)) (rr_key D rr))) k =
      (if k \<in> {rr_key D rr, rr_key D p} then None else gm_get (CacheMap c) k)" for k
    by (auto simp: cache_del_def AddRR_eq cache_put_def rr_key_def)
  ultimately show ?thesis using AddRRString_ptr_eq [OF assms(3,4)] by blast
qed

theorem DeleteName_undoes_AddRRString_witness:
  "\<exists>rr p c1 c2. ptr_of rr = Some p \<and>
    AddRRString sample_lib Cache_New ''h.local. 60 IN A 192.0.2.1'' True True (\<lambda>_. 0) = Inr c1 \<and>
    DeleteName sample_lib c1 ''h.LOCAL'' ''A'' True 5 6 = Inr c2 \<and>
    (\<forall>k. gm_get (CacheMap c2) k =
       (if k \<in> {rr_key sample_lib rr, rr_key sample_lib p} then None else gm_get (CacheMap Cache_New) k))"
proof -
  let ?rr = "sample_rr ''h.local.'' TypeA 60 (RA [192, 0, 2, 1])"
  have new: "NewRR sample_lib ''h.local. 60 IN A 192.0.2.1'' = Inr (Some ?rr)"
    by (simp add: sample_lib_def sample_records_def)
  have ptr: "ptr_of ?rr = Some (createPtrA (Hdr ?rr) [192, 0, 2, 1])"
    by (simp add: ptr_of_def sample_rr_def)
  have rest: "Rrtype (Hdr ?rr) \<noteq> TypePTR"
    "CanonicalName sample_lib ''h.LOCAL'' = CanonicalName sample_lib (Hdr_Name (Hdr ?rr))"
    "StringToType sample_lib ''A'' = Some (Rrtype (Hdr ?rr))"
    by (simp_all add: sample_rr_def dns_consts sample_canonical_names) (simp_all add: sample_lib_def sample_types_def dns_consts)
  from DeleteName_undoes_AddRRString [OF sample_canonical sample_set_question new ptr rest] ptr
  show ?thesis by blast
qed

lemma reverseIP4_inj:
  assumes "reverseIP4 a = reverseIP4 b" "length (To4 a) = 4" "length (To4 b) = 4"
  shows "To4 a = To4 b"
proof -
  have "inj_on (\<lambda>b :: u8. fmt_d (unat b)) UNIV"
    by (auto simp: inj_on_def word_unat_eq_iff dest: fmt_d_inj)
  moreover have "CHR ''.'' \<notin> set (fmt_d n)" for n
    using fmt_d_digits [of "CHR ''.''" n] by (auto simp: is_digit_def)
  ultimately have "rev (To4 a) = rev (To4 b)"
    using assms by (intro concat_dotted_inj [where f = "\<lambda>b. fmt_d (unat b)" and A = UNIV and s = "''in-addr.arpa.''"])
      (auto simp: reverseIP4_def)
  then show ?thesis by simp
qed

lemma reverseIP6_inj:
  assumes "reverseIP6 a = reverseIP6 b" "length (To16 a) = 16" "length (To16 b) = 16"
  shows "To16 a = To16 b"
proof -
  have "inj_on fmt_x {..<16}"
    by (auto simp: inj_on_def fmt_x_single dest: hex_digit_inj)
  moreover have "CHR ''.'' \<notin> set (fmt_x n)" if "n \<in> {..<16}" for n
    using that hex_digit_not_dot by (fastforce simp: fmt_x_single)
  ultimately have "nibble_list (rev (To16 a)) = nibble_list (rev (To16 b))"
    using assms(1) nibble_list_range
    by (intro concat_dotted_inj [where f = fmt_x and A = "{..<16}" and s = "''ip6.arpa.''"])
       (simp_all add: reverseIP6_nibbles length_nibble_list assms(2,3))
  then have "rev (To16 a) = rev (To16 b)" by (rule nibble_list_inj [rotated]) (simp add: assms(2,3))
  then show ?thesis by simp
qed

lemma reverseIP_disjoint: "reverseIP4 a \<noteq> reverseIP6 b"
proof
  assume "reverseIP4 a = reverseIP6 b"
  then have "take 8 (rev (reverseIP4 a)) = take 8 (rev (reverseIP6 b))" by simp
  then show False by (simp add: reverseIP4_def reverseIP6_def)
qed

text \<open>
  The reverse name identifies the address: two IPv4 addresses, or two IPv6 addresses, with
  the same reverse name are the same address, an IPv4 and an IPv6 reverse name never coincide, and
  each reverse name is in the canonical form under which PTR queries are looked up.
\<close>

theorem reverse_name_identifies_address:
  "(length (To4 a) = 4 \<and> length (To4 b) = 4 \<and> reverseIP4 a = reverseIP4 b \<longrightarrow> To4 a = To4 b) \<and>
   (length (To16 a) = 16 \<and> length (To16 b) = 16 \<and> reverseIP6 a = reverseIP6 b \<longrightarrow> To16 a = To16 b) \<and>
   reverseIP4 a \<noteq> reverseIP6 b \<and> is_canonical (reverseIP4 a) \<and> is_canonical (reverseIP6 a)"
  using reverseIP4_inj reverseIP6_inj reverseIP_disjoint reverseIP4_canonical reverseIP6_canonical by blast

theorem reverse_name_identifies_address_witness:
  "reverseIP4 [192, 0, 2, 1] = ''1.2.0.192.in-addr.arpa.'' \<and> reverseIP4 [192, 0, 2, 1] \<noteq> reverseIP4 [192, 0, 2, 21] \<and>
   reverseIP4 [192, 0, 2, 1] \<noteq> reverseIP6 [192, 0, 2, 1]"
proof -
  have "reverseIP4 [192, 0, 2, 1] = ''1.2.0.192.in-addr.arpa.''" by code_simp
  moreover have "To4 [192, 0, 2, 1] \<noteq> To4 [192, 0, 2, 21]" "length (To4 [192, 0, 2, 1]) = 4" "length (To4 [192, 0, 2, 21]) = 4"
    by (simp_all add: To4_def)
  ultimately show ?thesis
    using reverse_name_identifies_address [of "[192, 0, 2, 1]" "[192, 0, 2, 21]"]
      reverse_name_identifies_address [of "[192, 0, 2, 1]" "[192, 0, 2, 1]"] by auto
qed

end
