(* ===== verification/Stats.thy ===== *)
theory Stats
  imports Prelude_Go
begin

text \<open>
  Package \<^verbatim>\<open>statshandler\<close>: the circular buffer of \<^verbatim>\<open>buffer.go\<close> and the query log of \<^verbatim>\<open>stats.go\<close>, with
  the live log sessions of \<^verbatim>\<open>api/log.go\<close>. Slices are lists, \<^verbatim>\<open>int\<close> is an integer with the 64-bit
  wrap-around written out where two caller-supplied values are added; an index outside a slice is a
  panic. A hook is a value of type \<open>'h\<close>: \<open>Insert\<close> returns the calls it makes, in the order of the map.

  The contract is the locale \<open>bounded_log\<close>: a buffer shows the last \<open>capacity\<close> items inserted, and
  every reading operation is a function of that list.
\<close>

section \<open>buffer.go\<close>

record ('a, 'h) CircularBuffer =
  hooks :: "(string, 'h) gomap"
  buffer :: "'a list"
  capacity :: int
  position :: int
  rlength :: int

text \<open>\<open>zero\<close> is the zero value of the element type.\<close>

definition NewCircularBuffer :: "'a \<Rightarrow> int \<Rightarrow> ('a, 'h) CircularBuffer go" where
  "NewCircularBuffer zero cap =
     (if cap < 0 then Inl MakeSliceLen
      else Inr \<lparr>hooks = [], buffer = replicate (nat cap) zero, capacity = cap, position = 0, rlength = 0\<rparr>)"

definition Insert :: "('a, 'h) CircularBuffer \<Rightarrow> 'a \<Rightarrow> (('a, 'h) CircularBuffer \<times> ('h \<times> 'a) list) go" where
  "Insert b item =
     (if \<not> (0 \<le> position b \<and> position b < int (length (buffer b))) then Inl IndexOutOfRange
      else case go_rem (position b + 1) (capacity b) of
             Inl p \<Rightarrow> Inl p
           | Inr pos \<Rightarrow>
               let b = b\<lparr>buffer := (buffer b)[nat (position b) := item], position := pos\<rparr>;
                   b = (if rlength b < capacity b then b\<lparr>rlength := rlength b + 1\<rparr> else b)
               in Inr (b, map (\<lambda>(id, h). (h, item)) (hooks b)))"

definition AddHook :: "('a, 'h) CircularBuffer \<Rightarrow> string \<Rightarrow> 'h \<Rightarrow> ('a, 'h) CircularBuffer" where
  "AddHook b hid f = b\<lparr>hooks := gm_set hid f (hooks b)\<rparr>"

definition DeleteHook :: "('a, 'h) CircularBuffer \<Rightarrow> string \<Rightarrow> ('a, 'h) CircularBuffer" where
  "DeleteHook b hid = b\<lparr>hooks := gm_del hid (hooks b)\<rparr>"

definition GetOffset :: "('a, 'h) CircularBuffer \<Rightarrow> int \<Rightarrow> int \<Rightarrow> 'a list go" where
  "GetOffset b off cnt =
     (if off > rlength b \<or> cnt \<le> 0 then Inr []
      else
        let cnt = (if wrap64 (cnt + off) > rlength b then wrap64 (rlength b - off) else cnt);
            start = (if rlength b < capacity b then 0 else position b)
        in go_map (\<lambda>i. case go_rem (start + i) (capacity b) of
                         Inl p \<Rightarrow> Inl p | Inr j \<Rightarrow> slice_at (buffer b) j)
             [off .. wrap64 (off + cnt) - 1])"

definition Get :: "('a, 'h) CircularBuffer \<Rightarrow> int \<Rightarrow> 'a list go" where
  "Get b cnt = GetOffset b 0 cnt"

definition GetAll :: "('a, 'h) CircularBuffer \<Rightarrow> 'a list go" where
  "GetAll b = GetOffset b 0 (rlength b)"

text \<open>The index of the item \<open>i\<close> steps back from the insertion point.\<close>

definition tail_pos :: "('a, 'h) CircularBuffer \<Rightarrow> int \<Rightarrow> int" where
  "tail_pos b i = (let pos = position b - i in if pos < 0 then rlength b + pos else pos)"

definition Tail :: "('a, 'h) CircularBuffer \<Rightarrow> int \<Rightarrow> 'a list go" where
  "Tail b cnt =
     (let cnt = (if cnt > rlength b then rlength b else cnt)
      in go_map (\<lambda>i. slice_at (buffer b) (tail_pos b i)) [1 .. cnt])"

fun TailFilter_loop :: "('a, 'h) CircularBuffer \<Rightarrow> int \<Rightarrow> ('a \<Rightarrow> bool) \<Rightarrow> int list \<Rightarrow> 'a list \<Rightarrow> 'a list go" where
  "TailFilter_loop b cnt f [] res = Inr res"
| "TailFilter_loop b cnt f (i # is) res =
     (case slice_at (buffer b) (tail_pos b i) of
        Inl p \<Rightarrow> Inl p
      | Inr x \<Rightarrow>
          let res = (if f x then res @ [x] else res)
          in if cnt > 0 \<and> int (length res) = cnt then Inr res
             else TailFilter_loop b cnt f is res)"

definition TailFilter :: "('a, 'h) CircularBuffer \<Rightarrow> int \<Rightarrow> ('a \<Rightarrow> bool) \<Rightarrow> 'a list go" where
  "TailFilter b cnt f = TailFilter_loop b cnt f [1 .. rlength b] []"

fun TailBetween_loop :: "('a, 'h) CircularBuffer \<Rightarrow> int \<Rightarrow> ('a \<Rightarrow> bool) option \<Rightarrow> ('a \<Rightarrow> bool) option \<Rightarrow>
    ('a \<Rightarrow> bool) option \<Rightarrow> int list \<Rightarrow> bool \<Rightarrow> 'a list \<Rightarrow> 'a list go" where
  "TailBetween_loop b cnt startf endf itemf [] start res = Inr res"
| "TailBetween_loop b cnt startf endf itemf (i # is) start res =
     (case slice_at (buffer b) (tail_pos b i) of
        Inl p \<Rightarrow> Inl p
      | Inr x \<Rightarrow>
          if (case endf of None \<Rightarrow> False | Some f \<Rightarrow> f x) then Inr res
          else
            let start = (if \<not> start then (case startf of None \<Rightarrow> False | Some f \<Rightarrow> f x) else start);
                res = (if start then
                         if (case itemf of None \<Rightarrow> True | Some f \<Rightarrow> f x) then res @ [x] else res
                       else res)
            in if cnt > 0 \<and> int (length res) = cnt then Inr res
               else TailBetween_loop b cnt startf endf itemf is start res)"

definition TailBetween :: "('a, 'h) CircularBuffer \<Rightarrow> int \<Rightarrow> ('a \<Rightarrow> bool) option \<Rightarrow> ('a \<Rightarrow> bool) option \<Rightarrow>
    ('a \<Rightarrow> bool) option \<Rightarrow> 'a list go" where
  "TailBetween b cnt startf endf itemf =
     TailBetween_loop b cnt startf endf itemf [1 .. rlength b] (startf = None) []"

section \<open>stats.go\<close>

record ConnectionLog =
  Timestamp :: int
  Client :: string
  Qname :: string
  CL_Qtype :: string
  CL_Rcode :: int
  QueryTime :: int
  Acl :: bool
  Blocked :: bool
  Cached :: bool
  Error :: bool

definition zeroLog :: ConnectionLog where
  "zeroLog = \<lparr>Timestamp = 0, Client = '''', Qname = '''', CL_Qtype = '''', CL_Rcode = 0, QueryTime = 0,
     Acl = False, Blocked = False, Cached = False, Error = False\<rparr>"

text \<open>
  A log item as a JSON object. The text of an object, of a time and the 32-bit floats are Go's library: \<open>marshal\<close>, \<open>rfc3339\<close>,
  \<open>float32\<close> and \<open>fdiv\<close>. \<^verbatim>\<open>Duration.Microseconds\<close> rounds towards zero. Where a log session needs the text of an item
  it is the parameter \<open>json\<close> below, of which this is the program's.
\<close>

datatype 'f json_value = JString string | JInt int | JFloat32 'f | JBool bool

definition Microseconds :: "int \<Rightarrow> int" where
  "Microseconds d = sgn d * (\<bar>d\<bar> div 1000)"

definition MarshalJSON :: "((string \<times> 'f json_value) list \<Rightarrow> string) \<Rightarrow> (int \<Rightarrow> string) \<Rightarrow> (int \<Rightarrow> 'f) \<Rightarrow> ('f \<Rightarrow> 'f \<Rightarrow> 'f) \<Rightarrow> ConnectionLog \<Rightarrow> string" where
  "MarshalJSON marshal rfc3339 float32 fdiv c =
     marshal [(''timestamp'', JString (rfc3339 (Timestamp c))), (''client'', JString (Client c)), (''qname'', JString (Qname c)),
       (''qtype'', JString (CL_Qtype c)), (''rcode'', JInt (CL_Rcode c)),
       (''querytime'', JFloat32 (fdiv (float32 (Microseconds (QueryTime c))) (float32 1000000))),
       (''acl'', JBool (Acl c)), (''blocked'', JBool (Blocked c)), (''cached'', JBool (Cached c)), (''error'', JBool (Error c))]"

text \<open>The hook of a log session is the channel it writes to, here by its number.\<close>

type_synonym 'h stats = "(ConnectionLog, 'h) CircularBuffer"

definition Stats_New :: "int \<Rightarrow> 'h stats go" where
  "Stats_New bufferLength = NewCircularBuffer zeroLog bufferLength"

definition Stats_Add :: "'h stats \<Rightarrow> ConnectionLog \<Rightarrow> ('h stats \<times> ('h \<times> ConnectionLog) list) go" where
  "Stats_Add s c = Insert s c"

definition Stats_Tail :: "'h stats \<Rightarrow> int \<Rightarrow> ConnectionLog list go" where
  "Stats_Tail s n = Tail s n"

definition MakeLogChannel :: "'h stats \<Rightarrow> string \<Rightarrow> 'h \<Rightarrow> 'h stats" where
  "MakeLogChannel s hid ch = AddHook s hid ch"

definition CloseLogChannel :: "'h stats \<Rightarrow> string \<Rightarrow> 'h stats" where
  "CloseLogChannel s hid = DeleteHook s hid"

section \<open>The abstract log\<close>

definition lastn :: "nat \<Rightarrow> 'a list \<Rightarrow> 'a list" where
  "lastn n xs = drop (length xs - n) xs"

lemma lastn_snoc: "lastn n (lastn n xs @ [x]) = lastn n (xs @ [x])"
  by (cases "length xs \<le> n") (auto simp: lastn_def Suc_diff_le)

lemma length_lastn [simp]: "length (lastn n xs) = min n (length xs)"
  by (simp add: lastn_def)

lemma lastn_Nil [simp]: "lastn n [] = []"
  by (simp add: lastn_def)

text \<open>A log that keeps the last \<open>cap\<close> items: what every user of the buffer relies on.\<close>

locale bounded_log =
  fixes cap :: "'s \<Rightarrow> nat" and shown :: "'s \<Rightarrow> 'a list" and add :: "'s \<Rightarrow> 'a \<Rightarrow> 's" and inv :: "'s \<Rightarrow> bool"
  assumes shown_add: "inv s \<Longrightarrow> shown (add s x) = lastn (cap s) (shown s @ [x])"
    and inv_add: "inv s \<Longrightarrow> inv (add s x)"
    and cap_add: "inv s \<Longrightarrow> cap (add s x) = cap s"
begin

lemma inv_foldl: "inv s \<Longrightarrow> inv (foldl add s xs) \<and> cap (foldl add s xs) = cap s"
  by (induction xs rule: rev_induct) (auto simp: inv_add cap_add)

lemma shown_foldl: "inv s \<Longrightarrow> shown s = [] \<Longrightarrow> shown (foldl add s xs) = lastn (cap s) xs"
proof (induction xs rule: rev_induct)
  case (snoc x xs)
  then show ?case using inv_foldl [OF snoc.prems(1), of xs] by (simp add: shown_add lastn_snoc)
qed simp

lemma shown_after: "inv s \<Longrightarrow> shown s = lastn (cap s) ys \<Longrightarrow> shown (foldl add s xs) = lastn (cap s) (ys @ xs)"
proof (induction xs rule: rev_induct)
  case (snoc x xs)
  then show ?case
    using inv_foldl [OF snoc.prems(1), of xs] lastn_snoc [of "cap s" "ys @ xs" x] by (simp add: shown_add)
qed simp

end

definition rb_wf :: "('a, 'h) CircularBuffer \<Rightarrow> bool" where
  "rb_wf b \<longleftrightarrow> 0 < capacity b \<and> int (length (buffer b)) = capacity b \<and> 0 \<le> position b \<and>
     position b < capacity b \<and> 0 \<le> rlength b \<and> rlength b \<le> capacity b \<and> capacity b < 9223372036854775808 \<and>
     (rlength b < capacity b \<longrightarrow> position b = rlength b)"

text \<open>The items, oldest first.\<close>

definition contents :: "('a, 'h) CircularBuffer \<Rightarrow> 'a list" where
  "contents b =
     (if rlength b < capacity b then take (nat (rlength b)) (buffer b)
      else drop (nat (position b)) (buffer b) @ take (nat (position b)) (buffer b))"

definition inserted :: "('a, 'h) CircularBuffer \<Rightarrow> 'a \<Rightarrow> ('a, 'h) CircularBuffer" where
  "inserted b x = (case Insert b x of Inl p \<Rightarrow> b | Inr (b', calls) \<Rightarrow> b')"

lemma length_contents: "rb_wf b \<Longrightarrow> int (length (contents b)) = rlength b"
  by (auto simp: rb_wf_def contents_def)

lemma Insert_eq:
  assumes "rb_wf b"
  shows "Insert b x = Inr (inserted b x, map (\<lambda>(id, h). (h, x)) (hooks b))"
  using assms by (simp add: inserted_def Insert_def rb_wf_def go_rem_nonneg Let_def)

lemma inserted_eq:
  assumes "rb_wf b"
  shows "inserted b x = b\<lparr>buffer := (buffer b)[nat (position b) := x],
    position := (position b + 1) mod capacity b, rlength := min (rlength b + 1) (capacity b)\<rparr>"
  using assms by (auto simp: inserted_def Insert_def rb_wf_def go_rem_nonneg Let_def min_def)

lemma inserted_wf:
  assumes "rb_wf b"
  shows "rb_wf (inserted b x)"
proof -
  have "position b + 1 < capacity b \<Longrightarrow> (position b + 1) mod capacity b = position b + 1"
    using assms by (simp add: rb_wf_def)
  then show ?thesis using assms unfolding inserted_eq [OF assms] by (auto simp: rb_wf_def min_def)
qed

lemma contents_inserted_growing:
  assumes wf: "rb_wf b" and growing: "rlength b < capacity b"
  shows "contents (inserted b x) = lastn (nat (capacity b)) (contents b @ [x])"
proof -
  let ?n = "nat (rlength b)"
  have n: "position b = rlength b" "?n < length (buffer b)" using wf growing by (auto simp: rb_wf_def)
  have take: "take (Suc ?n) ((buffer b)[?n := x]) = take ?n (buffer b) @ [x]"
    using n(2) by (simp add: take_Suc_conv_app_nth)
  have "contents (inserted b x) = take ?n (buffer b) @ [x]"
  proof (cases "rlength b + 1 < capacity b")
    case True
    then show ?thesis using wf n take
      by (simp add: contents_def inserted_eq [OF wf] rb_wf_def nat_add_distrib)
  next
    case False
    then have "rlength b + 1 = capacity b" using growing by simp
    then have "length (buffer b) = Suc ?n" using wf by (auto simp: rb_wf_def)
    then show ?thesis using wf n take \<open>rlength b + 1 = capacity b\<close>
      by (simp add: contents_def inserted_eq [OF wf])
  qed
  moreover have "contents b = take ?n (buffer b)" using growing by (simp add: contents_def)
  moreover have "Suc ?n \<le> nat (capacity b)" using wf growing by (auto simp: rb_wf_def)
  ultimately show ?thesis using n(2) by (simp add: lastn_def)
qed

lemma contents_inserted_full:
  assumes wf: "rb_wf b" and full: "\<not> rlength b < capacity b"
  shows "contents (inserted b x) = lastn (nat (capacity b)) (contents b @ [x])"
proof -
  let ?p = "nat (position b)"
  have p: "?p < length (buffer b)" "rlength b = capacity b" using wf full by (auto simp: rb_wf_def)
  have drop: "drop ?p (buffer b) = buffer b ! ?p # drop (Suc ?p) (buffer b)"
    using p(1) by (simp add: Cons_nth_drop_Suc)
  have "contents (inserted b x) = drop (Suc ?p) (buffer b) @ take ?p (buffer b) @ [x]"
  proof (cases "position b + 1 = capacity b")
    case True
    then have "length (buffer b) = Suc ?p" using wf by (auto simp: rb_wf_def)
    then show ?thesis using wf p True by (simp add: contents_def inserted_eq [OF wf] upd_conv_take_nth_drop)
  next
    case False
    then have "(position b + 1) mod capacity b = position b + 1" using wf by (simp add: rb_wf_def)
    then show ?thesis using wf p False
      by (simp add: contents_def inserted_eq [OF wf] rb_wf_def nat_add_distrib take_Suc_conv_app_nth)
  qed
  moreover have "contents b = buffer b ! ?p # drop (Suc ?p) (buffer b) @ take ?p (buffer b)"
    using full drop by (simp add: contents_def)
  moreover have "nat (capacity b) = length (buffer b)" using wf by (auto simp: rb_wf_def)
  moreover have "Suc (Suc (length (buffer b) - Suc 0)) - length (buffer b) = 1" using p(1) by simp
  ultimately show ?thesis using p(1) by (simp add: lastn_def)
qed

lemma contents_inserted: "rb_wf b \<Longrightarrow> contents (inserted b x) = lastn (nat (capacity b)) (contents b @ [x])"
  by (cases "rlength b < capacity b") (auto intro: contents_inserted_growing contents_inserted_full)

interpretation ring: bounded_log "\<lambda>b. nat (capacity b)" contents inserted rb_wf
proof (unfold_locales, goal_cases)
  case (3 s x)
  then show ?case by (simp add: inserted_eq)
qed (simp_all add: contents_inserted inserted_wf)

section \<open>Reading\<close>

lemma slice_at_nth: "0 \<le> i \<Longrightarrow> i < int (length xs) \<Longrightarrow> slice_at xs i = Inr (xs ! nat i)"
  by (simp add: slice_at_def)

lemma slice_contents:
  assumes wf: "rb_wf b" and i: "0 \<le> i" "i < rlength b"
  shows "slice_at (buffer b) (((if rlength b < capacity b then 0 else position b) + i) mod capacity b) =
    Inr (contents b ! nat i)"
proof (cases "rlength b < capacity b")
  case True
  then show ?thesis using wf i by (simp add: rb_wf_def slice_at_nth contents_def)
next
  case False
  define p where "p = nat (position b)"
  define j where "j = nat i"
  have pj: "position b = int p" "i = int j" using wf i by (simp_all add: rb_wf_def p_def j_def)
  let ?c = "length (buffer b)"
  have c: "rlength b = int ?c" "capacity b = int ?c" "p < ?c" "j < ?c" using wf False i pj by (auto simp: rb_wf_def)
  have con: "contents b = drop p (buffer b) @ take p (buffer b)" using False by (simp add: contents_def pj)
  have "(p + j) mod ?c < ?c" using c(3) by (intro mod_less_divisor) linarith
  then have "slice_at (buffer b) (int ((p + j) mod ?c)) = Inr (buffer b ! ((p + j) mod ?c))" by (simp add: slice_at_def)
  moreover have "buffer b ! ((p + j) mod ?c) = contents b ! j"
  proof (cases "p + j < ?c")
    case ge: False
    then have "(p + j) mod ?c = p + j - ?c" using c by (simp add: le_mod_geq)
    moreover have "\<not> j < ?c - p" "j + p = p + j" using ge by auto
    ultimately show ?thesis using ge c(3,4) by (simp add: con nth_append add.commute [of j p])
  qed (use c(3,4) in \<open>auto simp: con nth_append\<close>)
  moreover have "((if rlength b < capacity b then 0 else position b) + i) mod capacity b = int ((p + j) mod ?c)"
    using False by (simp only: if_False pj c(2) zmod_int of_nat_add)
  ultimately show ?thesis by (simp add: pj(2))
qed

lemma tail_pos_eq:
  assumes "rb_wf b" "1 \<le> i" "i \<le> rlength b"
  shows "tail_pos b i = ((if rlength b < capacity b then 0 else position b) + (rlength b - i)) mod capacity b"
proof (cases "rlength b < capacity b")
  case True
  then show ?thesis using assms by (simp add: rb_wf_def tail_pos_def)
next
  case False
  then have c: "rlength b = capacity b" "0 \<le> position b" "position b < capacity b" using assms(1) by (auto simp: rb_wf_def)
  show ?thesis
  proof (cases "position b < i")
    case True
    then show ?thesis using assms(2,3) c by (simp add: tail_pos_def Let_def)
  next
    case ge: False
    then have "(position b + (capacity b - i)) mod capacity b = position b - i"
      using assms(2,3) c by (simp add: mod_pos_geq)
    then show ?thesis using ge c by (simp add: tail_pos_def Let_def)
  qed
qed

lemma slice_tail:
  assumes "rb_wf b" "1 \<le> i" "i \<le> rlength b"
  shows "slice_at (buffer b) (tail_pos b i) = Inr (rev (contents b) ! nat (i - 1))"
proof -
  have "nat (rlength b - i) = length (contents b) - Suc (nat (i - 1))" "nat (i - 1) < length (contents b)"
    using length_contents [OF assms(1)] assms(2,3) by linarith+
  then show ?thesis
    using slice_contents [OF assms(1), of "rlength b - i"] assms by (simp add: tail_pos_eq rev_nth)
qed

lemma upto_items:
  assumes "\<And>i. m \<le> i \<Longrightarrow> i \<le> n \<Longrightarrow> f i = Inr (xs ! nat (i - m))" "length xs = nat (n - m + 1)"
  shows "list_all2 (\<lambda>i x. f i = Inr x) [m..n] xs"
  using assms by (auto simp: list_all2_conv_all_nth)

lemma tail_items:
  assumes "rb_wf b" "n \<le> rlength b"
  shows "list_all2 (\<lambda>i x. slice_at (buffer b) (tail_pos b i) = Inr x) [1..n] (take (nat n) (rev (contents b)))"
  using assms length_contents [OF assms(1)]
  by (intro upto_items) (auto simp: slice_tail)

lemma Tail_eq:
  assumes "rb_wf b"
  shows "Tail b n = Inr (take (nat n) (rev (contents b)))"
proof -
  let ?k = "if n > rlength b then rlength b else n"
  have "go_map (\<lambda>i. slice_at (buffer b) (tail_pos b i)) [1..?k] = Inr (take (nat ?k) (rev (contents b)))"
    by (rule go_map_Inr [OF tail_items [OF assms]]) simp
  moreover have "take (nat ?k) (rev (contents b)) = take (nat n) (rev (contents b))"
    using length_contents [OF assms] by auto
  ultimately show ?thesis by (simp only: Tail_def Let_def)
qed

lemma GetOffset_eq:
  assumes "rb_wf b" "0 \<le> off" "off + n < 9223372036854775808"
  shows "GetOffset b off n = Inr (take (nat n) (drop (nat off) (contents b)))"
proof (cases "off > rlength b \<or> n \<le> 0")
  case True
  then show ?thesis using assms length_contents [OF assms(1)] by (auto simp: GetOffset_def)
next
  case False
  define start where "start = (if rlength b < capacity b then 0 else position b)"
  define k where "k = (if n + off > rlength b then rlength b - off else n)"
  have len: "int (length (contents b)) = rlength b" using length_contents [OF assms(1)] .
  have b: "rlength b \<le> capacity b" "capacity b < 9223372036854775808" "0 < capacity b" "0 \<le> start"
    using assms(1) by (auto simp: rb_wf_def start_def)
  have w: "wrap64 (n + off) = n + off" "wrap64 (rlength b - off) = rlength b - off" "wrap64 (off + k) = off + k"
    using assms False b by (auto intro!: wrap64_id simp: k_def)
  have items: "list_all2 (\<lambda>i x. (case go_rem (start + i) (capacity b) of Inl p \<Rightarrow> Inl p | Inr j \<Rightarrow> slice_at (buffer b) j) = Inr x)
      [off .. off + k - 1] (take (nat k) (drop (nat off) (contents b)))"
  proof (rule upto_items)
    fix i assume i: "off \<le> i" "i \<le> off + k - 1"
    then have "i < rlength b" "0 \<le> i" "nat off + nat (i - off) = nat i" "nat (i - off) < nat k"
      using assms(2) by (auto simp: k_def split: if_splits)
    then show "(case go_rem (start + i) (capacity b) of Inl p \<Rightarrow> Inl p | Inr j \<Rightarrow> slice_at (buffer b) j) =
        Inr (take (nat k) (drop (nat off) (contents b)) ! nat (i - off))"
      using slice_contents [OF assms(1), of i] b len by (simp add: go_rem_nonneg start_def)
  qed (use len assms(2) False in \<open>auto simp: k_def\<close>)
  have "take (nat k) (drop (nat off) (contents b)) = take (nat n) (drop (nat off) (contents b))"
    using len assms(2) by (auto simp: k_def)
  moreover have "GetOffset b off n = go_map (\<lambda>i. case go_rem (start + i) (capacity b) of
      Inl p \<Rightarrow> Inl p | Inr j \<Rightarrow> slice_at (buffer b) j) [off .. off + k - 1]"
    unfolding GetOffset_def Let_def w(1,2) start_def [symmetric] k_def [symmetric] w(3) using False by simp
  ultimately show ?thesis using go_map_Inr [OF items] by simp
qed

lemma GetAll_eq: "rb_wf b \<Longrightarrow> GetAll b = Inr (contents b)"
  using GetOffset_eq [of b 0 "rlength b"] length_contents [of b] by (simp add: GetAll_def rb_wf_def)

text \<open>Taking a positive number of items; zero or less means all of them.\<close>

definition upto_count :: "int \<Rightarrow> 'a list \<Rightarrow> 'a list" where
  "upto_count n xs = (if 0 < n then take (nat n) xs else xs)"

definition opt_pred :: "bool \<Rightarrow> ('a \<Rightarrow> bool) option \<Rightarrow> 'a \<Rightarrow> bool" where
  "opt_pred d f x = (case f of None \<Rightarrow> d | Some f \<Rightarrow> f x)"

text \<open>The selection of \<^verbatim>\<open>TailBetween\<close> on a list, newest item first.\<close>

definition between :: "('a \<Rightarrow> bool) option \<Rightarrow> ('a \<Rightarrow> bool) option \<Rightarrow> ('a \<Rightarrow> bool) option \<Rightarrow> bool \<Rightarrow> 'a list \<Rightarrow> 'a list" where
  "between startf endf itemf start xs =
     filter (opt_pred True itemf)
       (dropWhile (\<lambda>x. \<not> start \<and> \<not> opt_pred False startf x) (takeWhile (\<lambda>x. \<not> opt_pred False endf x) xs))"

lemma dropWhile_started [simp]: "between startf endf itemf True xs =
    filter (opt_pred True itemf) (takeWhile (\<lambda>x. \<not> opt_pred False endf x) xs)"
  by (simp add: between_def)

lemma upto_count_stop:
  assumes "0 < n" "int (length res) = n"
  shows "upto_count n (res @ ys) = res"
  using assms by (auto simp: upto_count_def)

lemma opt_pred_simps [simp]: "opt_pred d None x = d" "opt_pred d (Some f) = f"
  by (auto simp: opt_pred_def)

lemma between_Cons:
  "between startf endf itemf start (x # xs) =
    (if opt_pred False endf x then []
     else if start \<or> opt_pred False startf x then
       (if opt_pred True itemf x then [x] else []) @ between startf endf itemf True xs
     else between startf endf itemf False xs)"
  by (auto simp: between_def)

lemma TailBetween_loop_Cons:
  assumes "slice_at (buffer b) (tail_pos b i) = Inr x"
  shows "TailBetween_loop b n startf endf itemf (i # is) start res =
    (if opt_pred False endf x then Inr res
     else let s = start \<or> opt_pred False startf x; r = (if s \<and> opt_pred True itemf x then res @ [x] else res)
          in if 0 < n \<and> int (length r) = n then Inr r else TailBetween_loop b n startf endf itemf is s r)"
  using assms by (auto simp: opt_pred_def Let_def split: option.splits)

lemma TailBetween_loop_eq:
  assumes "list_all2 (\<lambda>i x. slice_at (buffer b) (tail_pos b i) = Inr x) is xs" "0 < n \<longrightarrow> int (length res) < n"
  shows "TailBetween_loop b n startf endf itemf is start res = Inr (upto_count n (res @ between startf endf itemf start xs))"
  using assms
proof (induction "is" xs arbitrary: start res rule: list_all2_induct)
  case Nil
  then show ?case by (auto simp: between_def upto_count_def)
next
  case (Cons i "is" x xs)
  define s where "s = (start \<or> opt_pred False startf x)"
  define r where "r = (if s \<and> opt_pred True itemf x then res @ [x] else res)"
  show ?case
  proof (cases "opt_pred False endf x")
    case True
    then show ?thesis using Cons
      by (auto simp: TailBetween_loop_Cons [OF Cons.hyps(1)] between_Cons upto_count_def simp del: TailBetween_loop.simps)
  next
    case False
    have rest: "res @ between startf endf itemf start (x # xs) = r @ between startf endf itemf s xs"
      using False by (auto simp: between_Cons s_def r_def)
    have "0 < n \<longrightarrow> int (length r) \<noteq> n \<longrightarrow> int (length r) < n" using Cons.prems by (auto simp: r_def)
    moreover have "TailBetween_loop b n startf endf itemf (i # is) start res =
        (if 0 < n \<and> int (length r) = n then Inr r else TailBetween_loop b n startf endf itemf is s r)"
      using False unfolding TailBetween_loop_Cons [OF Cons.hyps(1)] Let_def s_def [symmetric] r_def [symmetric] by simp
    ultimately show ?thesis using Cons.IH [of r s] upto_count_stop [of n r] unfolding rest by auto
  qed
qed

lemma TailBetween_eq:
  assumes "rb_wf b"
  shows "TailBetween b n startf endf itemf = Inr (upto_count n (between startf endf itemf (startf = None) (rev (contents b))))"
  using TailBetween_loop_eq [OF tail_items [OF assms order.refl], of n "[]"] length_contents [OF assms]
  by (simp add: TailBetween_def)

lemma TailFilter_between:
  "TailFilter_loop b n f is res = TailBetween_loop b n None None (Some f) is True res"
  by (induction "is" arbitrary: res) (auto simp: Let_def split: sum.splits)

lemma TailFilter_eq:
  assumes "rb_wf b"
  shows "TailFilter b n f = Inr (upto_count n (filter f (rev (contents b))))"
  using TailBetween_eq [OF assms, of n None None "Some f"]
  by (simp add: TailFilter_def TailFilter_between TailBetween_def takeWhile_eq_all_conv [THEN iffD2])

section \<open>Properties of the buffer\<close>

lemma NewCircularBuffer_wf:
  assumes "0 < cap" "cap < 9223372036854775808"
  shows "\<exists>b. NewCircularBuffer z cap = Inr b \<and> rb_wf b \<and> contents b = [] \<and> capacity b = cap \<and> hooks b = []"
  using assms by (simp add: NewCircularBuffer_def rb_wf_def contents_def)

text \<open>A history of insertions, each of which may panic.\<close>

fun Insert_all :: "('a, 'h) CircularBuffer \<Rightarrow> 'a list \<Rightarrow> ('a, 'h) CircularBuffer go" where
  "Insert_all b [] = Inr b"
| "Insert_all b (x # xs) = (case Insert b x of Inl p \<Rightarrow> Inl p | Inr (b', calls) \<Rightarrow> Insert_all b' xs)"

lemma Insert_all_eq: "rb_wf b \<Longrightarrow> Insert_all b xs = Inr (foldl inserted b xs)"
  by (induction xs arbitrary: b) (simp_all add: Insert_eq inserted_wf)

text \<open>
  Claim C11. The ring buffer is a log of the last \<open>capacity\<close> items: a buffer of positive capacity takes any
  sequence of insertions without a panic, and then \<^verbatim>\<open>GetAll\<close> is the last \<open>capacity\<close> items in order of
  insertion, \<^verbatim>\<open>Tail n\<close> the newest \<open>n\<close> of them, newest first, and \<^verbatim>\<open>GetOffset\<close> the window of the given
  offset and count, as long as their sum does not overflow.
\<close>

theorem ring_buffer_is_bounded_log:
  fixes zero :: 'a and xs :: "'a list"
  assumes "0 < cap" "cap < 9223372036854775808"
  shows "\<exists>b0 :: ('a, 'h) CircularBuffer. \<exists>b. NewCircularBuffer zero cap = Inr b0 \<and> Insert_all b0 xs = Inr b \<and>
    GetAll b = Inr (lastn (nat cap) xs) \<and>
    Tail b n = Inr (take (nat n) (rev (lastn (nat cap) xs))) \<and>
    (0 \<le> off \<and> off + n < 9223372036854775808 \<longrightarrow>
       GetOffset b off n = Inr (take (nat n) (drop (nat off) (lastn (nat cap) xs))))"
proof -
  obtain b0 :: "('a, 'h) CircularBuffer" where b0: "NewCircularBuffer zero cap = Inr b0" "rb_wf b0"
    "contents b0 = []" "capacity b0 = cap"
    using NewCircularBuffer_wf [OF assms, of zero] by auto
  let ?b = "foldl inserted b0 xs"
  have "rb_wf ?b" using ring.inv_foldl [OF b0(2)] by blast
  moreover have "contents ?b = lastn (nat cap) xs" using ring.shown_foldl [OF b0(2,3)] b0(4) by simp
  ultimately show ?thesis
    using b0(1) Insert_all_eq [OF b0(2), of xs] by (intro exI [of _ b0] exI [of _ ?b]) (simp add: GetAll_eq Tail_eq GetOffset_eq)
qed

theorem ring_buffer_is_bounded_log_witness:
  "\<exists>b0 :: (nat, nat) CircularBuffer. \<exists>b. NewCircularBuffer 0 3 = Inr b0 \<and> Insert_all b0 [1, 2, 3, 4, 5] = Inr b \<and>
    GetAll b = Inr [3, 4, 5] \<and> Tail b 2 = Inr [5, 4] \<and> GetOffset b 1 2 = Inr [4, 5]"
  using ring_buffer_is_bounded_log [where 'h = nat, of 3 "0 :: nat" "[1, 2, 3, 4, 5]" 2 1] by (simp add: lastn_def numeral_eq_Suc)

text \<open>
  Filtered reads: on any history, \<^verbatim>\<open>TailFilter\<close> returns the newest matching items and
  \<^verbatim>\<open>TailBetween\<close> walks back from the newest item, stops before the first item that satisfies \<open>endf\<close>,
  starts at the first that satisfies \<open>startf\<close>, keeps those that satisfy \<open>itemf\<close>; both stop after \<open>n\<close>
  items when \<open>n\<close> is positive, and a missing function does not restrict.
\<close>

theorem filtered_reads:
  fixes zero :: 'a and xs :: "'a list"
  assumes "0 < cap" "cap < 9223372036854775808" "NewCircularBuffer zero cap = Inr (b0 :: ('a, 'h) CircularBuffer)"
    "Insert_all b0 xs = Inr b"
  shows "TailFilter b n f = Inr (upto_count n (filter f (rev (lastn (nat cap) xs)))) \<and>
    TailBetween b n startf endf itemf = Inr (upto_count n (filter (opt_pred True itemf)
      (dropWhile (\<lambda>x. \<not> opt_pred True startf x) (takeWhile (\<lambda>x. \<not> opt_pred False endf x) (rev (lastn (nat cap) xs))))))"
proof -
  have b0: "rb_wf b0" "contents b0 = []" "capacity b0 = cap"
    using NewCircularBuffer_wf [OF assms(1,2), where 'b = 'h, of zero] assms(3) by auto
  have b: "b = foldl inserted b0 xs" using Insert_all_eq [OF b0(1), of xs] assms(4) by simp
  have wf: "rb_wf b" using ring.inv_foldl [OF b0(1)] b by blast
  have "contents b = lastn (nat cap) xs" using ring.shown_foldl [OF b0(1,2)] b0(3) b by simp
  then show ?thesis
    using TailFilter_eq [OF wf] TailBetween_eq [OF wf] by (cases startf) (simp_all add: between_def)
qed

theorem filtered_reads_witness:
  "\<exists>b0 :: (nat, nat) CircularBuffer. \<exists>b. NewCircularBuffer 0 3 = Inr b0 \<and> Insert_all b0 [1, 2, 3, 4, 5] = Inr b \<and>
    TailFilter b 0 (\<lambda>x. x \<noteq> 4) = Inr [5, 3] \<and> TailBetween b 1 (Some (\<lambda>x. x < 5)) (Some (\<lambda>x. x < 3)) None = Inr [4]"
proof -
  let ?b0 = "\<lparr>hooks = [], buffer = [0, 0, 0], capacity = 3, position = 0, rlength = 0\<rparr> :: (nat, nat) CircularBuffer"
  have b0: "NewCircularBuffer 0 3 = Inr ?b0" by (simp add: NewCircularBuffer_def numeral_eq_Suc)
  have "rb_wf ?b0" by (simp add: rb_wf_def)
  from Insert_all_eq [OF this] obtain b where b: "Insert_all ?b0 [1, 2, 3, 4, 5] = Inr b" by blast
  show ?thesis
    using b0 b filtered_reads [OF _ _ b0 b, of 0 "\<lambda>x. x \<noteq> 4"]
      filtered_reads [OF _ _ b0 b, of 1 _ "Some (\<lambda>x. x < 5)" "Some (\<lambda>x. x < 3)" None]
    by (intro exI [of _ ?b0] exI [of _ b]) (simp add: lastn_def upto_count_def)
qed

text \<open>
  Claim C35. A window whose offset and count overflow \<^verbatim>\<open>int\<close> is empty, whatever the buffer holds: the
  clamp compares the wrapped sum, so asking for the largest count from offset 1 returns nothing.
\<close>

theorem GetOffset_overflow_empty:
  assumes "rb_wf b" "1 \<le> off" "off \<le> rlength b" "n < 9223372036854775808" "9223372036854775808 \<le> off + n"
  shows "GetOffset b off n = Inr []"
proof -
  have le: "off < 9223372036854775808" "0 \<le> rlength b" using assms(1,3) by (simp_all add: rb_wf_def)
  have "(off + n + 9223372036854775808) mod 18446744073709551616 = off + n + 9223372036854775808 - 18446744073709551616"
    using assms(4,5) le by (subst mod_pos_geq) auto
  then have neg: "wrap64 (off + n) < 0" using assms(4) le by (simp add: wrap64_def)
  then have "\<not> wrap64 (n + off) > rlength b" using le(2) by (simp add: add.commute)
  moreover have "[off..wrap64 (off + n) - 1] = []" using neg assms(2) by simp
  moreover have "\<not> (off > rlength b \<or> n \<le> 0)" using assms le by linarith
  ultimately show ?thesis by (simp only: GetOffset_def if_False Let_def go_map.simps)
qed

theorem GetOffset_overflow_empty_witness:
  "GetOffset (\<lparr>hooks = [], buffer = [10, 20, 30], capacity = 3, position = 0, rlength = 3\<rparr> :: (nat, nat) CircularBuffer)
     1 9223372036854775807 = Inr []"
  by (rule GetOffset_overflow_empty) (simp_all add: rb_wf_def)

section \<open>api/log.go: live log sessions\<close>

text \<open>
  A session makes an unbuffered channel, registers it under the client's address and writes what it
  receives as server-sent events, until the client goes away; then it closes the channel and removes
  the hook. The hook's write to a closed channel panics, and the hook recovers and drops the line.
  A write to an open channel waits for the session's loop, so the line and its event are one step.
  The four response headers are written before the first event.
\<close>

record LogHub =
  hub_stats :: "nat stats"
  closed_chans :: "nat list"
  events :: "nat \<Rightarrow> string list"
  next_chan :: nat

definition hub_New :: "int \<Rightarrow> LogHub go" where
  "hub_New n = map_sum id (\<lambda>s. \<lparr>hub_stats = s, closed_chans = [], events = (\<lambda>_. []), next_chan = 0\<rparr>) (Stats_New n)"

definition logHandler_connect :: "LogHub \<Rightarrow> string \<Rightarrow> LogHub \<times> nat" where
  "logHandler_connect hub remoteAddr =
     (let logChan = next_chan hub
      in (hub\<lparr>hub_stats := MakeLogChannel (hub_stats hub) remoteAddr logChan, next_chan := logChan + 1\<rparr>, logChan))"

definition logHandler_done :: "LogHub \<Rightarrow> string \<Rightarrow> nat \<Rightarrow> LogHub" where
  "logHandler_done hub remoteAddr logChan =
     hub\<lparr>closed_chans := logChan # closed_chans hub, hub_stats := CloseLogChannel (hub_stats hub) remoteAddr\<rparr>"

definition sse_event :: "(ConnectionLog \<Rightarrow> string) \<Rightarrow> ConnectionLog \<Rightarrow> string" where
  "sse_event json c = ''data: '' @ json c @ [char_of (10 :: nat), char_of (10 :: nat)]"

definition hookf :: "(ConnectionLog \<Rightarrow> string) \<Rightarrow> LogHub \<Rightarrow> nat \<times> ConnectionLog \<Rightarrow> LogHub" where
  "hookf json hub call =
     (case call of (ch, c) \<Rightarrow>
        if ch \<in> set (closed_chans hub) then hub
        else hub\<lparr>events := (events hub)(ch := events hub ch @ [sse_event json c])\<rparr>)"

definition hub_Add :: "(ConnectionLog \<Rightarrow> string) \<Rightarrow> LogHub \<Rightarrow> ConnectionLog \<Rightarrow> LogHub go" where
  "hub_Add json hub c =
     map_sum id (\<lambda>(s, calls). foldl (hookf json) (hub\<lparr>hub_stats := s\<rparr>) calls) (Stats_Add (hub_stats hub) c)"

datatype hub_op = Connect string | Log ConnectionLog | Done string nat

fun hub_run :: "(ConnectionLog \<Rightarrow> string) \<Rightarrow> LogHub \<Rightarrow> hub_op list \<Rightarrow> LogHub go" where
  "hub_run json hub [] = Inr hub"
| "hub_run json hub (Connect r # ops) = hub_run json (fst (logHandler_connect hub r)) ops"
| "hub_run json hub (Log c # ops) = (case hub_Add json hub c of Inl p \<Rightarrow> Inl p | Inr hub' \<Rightarrow> hub_run json hub' ops)"
| "hub_run json hub (Done r ch # ops) = hub_run json (logHandler_done hub r ch) ops"

fun hub_logs :: "hub_op list \<Rightarrow> ConnectionLog list" where
  "hub_logs [] = []"
| "hub_logs (Log c # ops) = c # hub_logs ops"
| "hub_logs (_ # ops) = hub_logs ops"

definition hub_wf :: "LogHub \<Rightarrow> bool" where
  "hub_wf hub \<longleftrightarrow> rb_wf (hub_stats hub) \<and> gm_wf (hooks (hub_stats hub)) \<and> distinct (map snd (hooks (hub_stats hub))) \<and>
     (\<forall>(r, ch) \<in> set (hooks (hub_stats hub)). ch < next_chan hub) \<and> (\<forall>ch \<in> set (closed_chans hub). ch < next_chan hub)"

text \<open>Channel \<open>ch\<close> is the open channel of the session of \<open>r\<close>.\<close>

definition attached :: "LogHub \<Rightarrow> string \<Rightarrow> nat \<Rightarrow> bool" where
  "attached hub r ch \<longleftrightarrow> gm_get (hooks (hub_stats hub)) r = Some ch \<and> ch \<notin> set (closed_chans hub)"

lemma snd_update_subset: "set (map snd (gm_set k v m)) \<subseteq> insert v (set (map snd m))"
  by (induction m) auto

lemma distinct_snd_update: "distinct (map snd m) \<Longrightarrow> v \<notin> snd ` set m \<Longrightarrow> distinct (map snd (gm_set k v m))"
proof (induction m)
  case (Cons a m)
  then show ?case using snd_update_subset [of k v m] by (cases a) (auto simp: image_iff)
qed simp

lemma distinct_snd_delete: "distinct (map snd m) \<Longrightarrow> distinct (map snd (gm_del k m))"
  by (simp add: AList.delete_eq distinct_map_filter)

lemma rb_wf_hooks [simp]: "rb_wf (b\<lparr>hooks := h\<rparr>) = rb_wf b"
  by (simp add: rb_wf_def)

lemma hooks_inserted [simp]: "rb_wf b \<Longrightarrow> hooks (inserted b x) = hooks b"
  by (simp add: inserted_eq)

lemma foldl_hookf:
  "distinct (map fst calls) \<Longrightarrow>
   foldl (hookf json) hub calls = hub\<lparr>events := (\<lambda>ch. events hub ch @
     (if ch \<in> set (closed_chans hub) then [] else map (sse_event json) (map snd (filter (\<lambda>(c, _). c = ch) calls))))\<rparr>"
proof (induction calls arbitrary: hub)
  case (Cons a calls)
  then show ?case by (cases a) (auto simp: hookf_def fun_eq_iff)
next
  case Nil
  then show ?case by (cases hub) (simp add: fun_eq_iff)
qed

text \<open>When no two hooks share a channel, each channel is called once or not at all.\<close>

lemma calls_to:
  "distinct (map snd m) \<Longrightarrow> map snd (filter (\<lambda>(c, _). c = ch) (map (\<lambda>(hid, h). (h, x)) m)) = (if ch \<in> snd ` set m then [x] else [])"
proof (induction m)
  case (Cons a m)
  then show ?case by (cases a) (auto simp: image_iff)
qed simp

lemma hub_Add_eq:
  assumes "hub_wf hub"
  shows "hub_Add json hub c = Inr (hub\<lparr>hub_stats := inserted (hub_stats hub) c,
    events := (\<lambda>ch. events hub ch @ (if ch \<in> set (closed_chans hub) \<or> ch \<notin> snd ` set (hooks (hub_stats hub)) then []
      else [sse_event json c]))\<rparr>)"
proof -
  have "map fst (map (\<lambda>(hid, h). (h, c)) m) = map snd m" for m :: "(string \<times> nat) list" by auto
  then have dist: "distinct (map fst (map (\<lambda>(hid, h). (h, c)) (hooks (hub_stats hub))))"
    using assms by (simp only: hub_wf_def)
  have wf: "rb_wf (hub_stats hub)" "distinct (map snd (hooks (hub_stats hub)))" using assms by (simp_all add: hub_wf_def)
  show ?thesis
    unfolding hub_Add_def Stats_Add_def Insert_eq [OF wf(1)] map_sum.simps prod.case foldl_hookf [OF dist] calls_to [OF wf(2)]
    by (auto intro!: arg_cong2 [where f = events_update] ext)
qed

lemma hub_Add_wf: "hub_wf hub \<Longrightarrow> hub_Add json hub c = Inr hub' \<Longrightarrow> hub_wf hub'"
  by (auto simp: hub_Add_eq hub_wf_def inserted_wf)

lemma logHandler_connect_wf: "hub_wf hub \<Longrightarrow> hub_wf (fst (logHandler_connect hub r))"
  using snd_update_subset [of r "next_chan hub" "hooks (hub_stats hub)"]
  by (fastforce simp: hub_wf_def logHandler_connect_def Let_def MakeLogChannel_def AddHook_def
      intro!: distinct_snd_update dest: gm_set_in)

lemma logHandler_done_wf: "hub_wf hub \<Longrightarrow> ch < next_chan hub \<Longrightarrow> hub_wf (logHandler_done hub r ch)"
  by (auto simp: hub_wf_def logHandler_done_def CloseLogChannel_def DeleteHook_def distinct_snd_delete dest: gm_del_in)

text \<open>Operations of other sessions: a session ends only its own channel, which was made before.\<close>

definition others_only :: "string \<Rightarrow> nat \<Rightarrow> hub_op list \<Rightarrow> bool" where
  "others_only r ch ops \<longleftrightarrow>
     list_all (\<lambda>op. case op of Connect r' \<Rightarrow> r' \<noteq> r | Log c \<Rightarrow> True | Done r' ch' \<Rightarrow> r' \<noteq> r \<and> ch' \<noteq> ch) ops"

text \<open>Every session that ends was begun: its channel exists when it is closed.\<close>

fun ends_known :: "nat \<Rightarrow> hub_op list \<Rightarrow> bool" where
  "ends_known n [] \<longleftrightarrow> True"
| "ends_known n (Connect r # ops) \<longleftrightarrow> ends_known (n + 1) ops"
| "ends_known n (Log c # ops) \<longleftrightarrow> ends_known n ops"
| "ends_known n (Done r ch # ops) \<longleftrightarrow> ch < n \<and> ends_known n ops"

lemma hub_run_attached:
  "hub_wf hub \<Longrightarrow> attached hub r ch \<Longrightarrow> others_only r ch ops \<Longrightarrow> ends_known (next_chan hub) ops \<Longrightarrow>
   \<exists>hub'. hub_run json hub ops = Inr hub' \<and> hub_wf hub' \<and> attached hub' r ch \<and>
     events hub' ch = events hub ch @ map (sse_event json) (hub_logs ops)"
proof (induction json hub ops rule: hub_run.induct)
  case (2 json hub r' ops)
  have "attached (fst (logHandler_connect hub r')) r ch"
    using "2.prems" by (auto simp: attached_def logHandler_connect_def Let_def MakeLogChannel_def AddHook_def others_only_def)
  with 2 show ?case using logHandler_connect_wf [of hub r']
    by (auto simp: others_only_def) (auto simp: logHandler_connect_def Let_def)
next
  case (3 json hub c ops)
  have "ch \<in> snd ` set (hooks (hub_stats hub))" "ch \<notin> set (closed_chans hub)"
    using "3.prems"(2) gm_get_in by (force simp: attached_def)+
  with 3 show ?case using hub_Add_wf [OF "3.prems"(1), of json c]
    by (auto simp: hub_Add_eq others_only_def attached_def hub_wf_def)
next
  case (4 json hub r' ch' ops)
  have "attached (logHandler_done hub r' ch') r ch"
    using "4.prems" by (auto simp: attached_def logHandler_done_def CloseLogChannel_def DeleteHook_def others_only_def)
  with 4 show ?case using logHandler_done_wf [of hub ch' r']
    by (auto simp: others_only_def) (auto simp: logHandler_done_def)
qed simp

lemma hub_run_detached:
  "hub_wf hub \<Longrightarrow> ch \<in> set (closed_chans hub) \<Longrightarrow> ends_known (next_chan hub) ops \<Longrightarrow>
   \<exists>hub'. hub_run json hub ops = Inr hub' \<and> events hub' ch = events hub ch"
proof (induction json hub ops rule: hub_run.induct)
  case (2 json hub r' ops)
  then show ?case using logHandler_connect_wf [of hub r'] by (auto simp: logHandler_connect_def Let_def)
next
  case (3 json hub c ops)
  then show ?case using hub_Add_wf [OF "3.prems"(1), of json c] by (auto simp: hub_Add_eq)
next
  case (4 json hub r' ch' ops)
  then show ?case using logHandler_done_wf [of hub ch' r'] by (auto simp: logHandler_done_def)
qed simp

lemma hub_run_ends_known:
  "hub_run json h ops = Inr h' \<Longrightarrow> hub_wf h \<Longrightarrow> ends_known (next_chan h) (ops @ rest) \<Longrightarrow> ends_known (next_chan h') rest"
proof (induction json h ops rule: hub_run.induct)
  case (2 json hub r ops)
  then show ?case using logHandler_connect_wf [of hub r] by (auto simp: logHandler_connect_def Let_def)
next
  case (3 json hub c ops)
  then show ?case using hub_Add_wf [of hub json c] by (auto simp: hub_Add_eq)
next
  case (4 json hub r ch ops)
  then show ?case using logHandler_done_wf [of hub ch r] by (auto simp: logHandler_done_def)
qed simp

lemma hub_run_append: "hub_run json hub (xs @ ys) = (case hub_run json hub xs of Inl p \<Rightarrow> Inl p | Inr h \<Rightarrow> hub_run json h ys)"
  by (induction json hub xs rule: hub_run.induct) (auto split: sum.splits)

text \<open>
  A log session gets every line logged while it is connected, in order and exactly once, and
  nothing after it ends, whatever other sessions do meanwhile: from the connection of an address, through
  any operations of other sessions and any logging, to its end and any later operations, no step
  panics and its events are the lines logged in between.
\<close>

theorem log_session_gets_its_lines:
  assumes "hub_wf hub" "logHandler_connect hub r = (hub1, ch)" "events hub ch = []"
    "others_only r ch during" "ends_known (next_chan hub) (Connect r # during @ Done r ch # after)"
  shows "\<exists>hub2 hub3. hub_run json hub (Connect r # during) = Inr hub2 \<and>
    events hub2 ch = map (sse_event json) (hub_logs during) \<and>
    hub_run json hub (Connect r # during @ Done r ch # after) = Inr hub3 \<and>
    events hub3 ch = map (sse_event json) (hub_logs during)"
proof -
  have split: "ends_known n (xs @ ys) \<Longrightarrow> ends_known n xs" for n xs ys
    by (induction n xs rule: ends_known.induct) auto
  have hub1: "hub1 = fst (logHandler_connect hub r)" "ch = next_chan hub" "next_chan hub1 = next_chan hub + 1"
    "events hub1 ch = []"
    using assms(2,3) by (auto simp: logHandler_connect_def Let_def)
  have "attached hub1 r ch"
    using assms(1) hub1 by (auto simp: attached_def logHandler_connect_def Let_def MakeLogChannel_def AddHook_def hub_wf_def)
  then obtain hub2 where hub2: "hub_run json hub1 during = Inr hub2" "hub_wf hub2" "attached hub2 r ch"
    "events hub2 ch = map (sse_event json) (hub_logs during)"
    using hub_run_attached [of hub1 r ch during json] logHandler_connect_wf [OF assms(1), of r] assms(4,5) hub1 split by auto
  have known: "ends_known (next_chan hub2) (Done r ch # after)"
    using hub_run_ends_known [OF hub2(1), of "Done r ch # after"] assms(5) hub1 logHandler_connect_wf [OF assms(1), of r] by simp
  let ?hub = "logHandler_done hub2 r ch"
  have "hub_wf ?hub" "ch \<in> set (closed_chans ?hub)" "ends_known (next_chan ?hub) after" "events ?hub ch = events hub2 ch"
    using known hub2(2) logHandler_done_wf [of hub2 ch r] by (auto simp: logHandler_done_def)
  then obtain hub3 where "hub_run json ?hub after = Inr hub3" "events hub3 ch = events hub2 ch"
    using hub_run_detached by metis
  then show ?thesis using hub2 hub1(1) by (simp add: hub_run_append)
qed

theorem log_session_gets_its_lines_witness:
  "\<exists>hub hub2 hub3. hub_New 2 = Inr hub \<and>
    hub_run (\<lambda>c. Qname c) hub [Connect ''r1'', Log (zeroLog\<lparr>Qname := ''a''\<rparr>), Connect ''r2''] = Inr hub2 \<and>
    events hub2 0 = [sse_event (\<lambda>c. Qname c) (zeroLog\<lparr>Qname := ''a''\<rparr>)] \<and>
    hub_run (\<lambda>c. Qname c) hub [Connect ''r1'', Log (zeroLog\<lparr>Qname := ''a''\<rparr>), Connect ''r2'', Done ''r1'' 0,
      Log (zeroLog\<lparr>Qname := ''b''\<rparr>)] = Inr hub3 \<and>
    events hub3 0 = [sse_event (\<lambda>c. Qname c) (zeroLog\<lparr>Qname := ''a''\<rparr>)]"
proof -
  obtain hub where hub: "hub_New 2 = Inr hub" "hub_wf hub" "events hub 0 = []" "next_chan hub = 0"
    by (simp add: hub_New_def Stats_New_def NewCircularBuffer_def hub_wf_def rb_wf_def)
  have "\<exists>hub1. logHandler_connect hub ''r1'' = (hub1, 0)" using hub(4) by (simp add: logHandler_connect_def)
  then obtain hub1 where con: "logHandler_connect hub ''r1'' = (hub1, 0)" by blast
  show ?thesis
    using log_session_gets_its_lines [OF hub(2) con hub(3), where json = "\<lambda>c. Qname c"
        and during = "[Log (zeroLog\<lparr>Qname := ''a''\<rparr>), Connect ''r2'']" and after = "[Log (zeroLog\<lparr>Qname := ''b''\<rparr>)]"]
      hub(1,4) by (simp add: others_only_def)
qed

end
