(* ===== verification/Resolver.thy ===== *)
theory Resolver
  imports Dns_Types
begin

text \<open>
  Package \<^verbatim>\<open>resolver\<close>: the three kinds of upstream resolver. What the network does is a parameter, the
  record \<open>netops\<close>: each operation takes and returns the state of the world (\<open>'w\<close>), so two calls
  may see different networks. A DoT connection is known by its number in the order of dialling; the
  resolver's state holds the pool, the next number and the connections on which \<^verbatim>\<open>Close\<close> was called.

  The second half is the pool under concurrency: \<open>dot_step\<close> interleaves any number of queries at the
  grain of the channel operations, and \<open>dot_Resolve_refines\<close> says that a query run alone is such a run.
\<close>

section \<open>Errors\<close>

text \<open>\<open>Wrapped\<close> is \<^verbatim>\<open>fmt.Errorf\<close> with \<^verbatim>\<open>%w\<close>; with \<^verbatim>\<open>%s\<close> only the text is kept.\<close>

datatype go_err = EOF | ErrUnexpectedEOF | ErrClosed | NetTimeout string | ErrorString string | Wrapped string go_err

primrec Err_Error :: "go_err \<Rightarrow> string" where
  "Err_Error EOF = ''EOF''"
| "Err_Error ErrUnexpectedEOF = ''unexpected EOF''"
| "Err_Error ErrClosed = ''use of closed network connection''"
| "Err_Error (NetTimeout s) = s"
| "Err_Error (ErrorString s) = s"
| "Err_Error (Wrapped s e) = s @ Err_Error e"

text \<open>\<^verbatim>\<open>errors.Is\<close> unwraps, the assertion to \<^verbatim>\<open>net.Error\<close> looks at the error itself.\<close>

primrec errors_Is :: "go_err \<Rightarrow> go_err \<Rightarrow> bool" where
  "errors_Is EOF t \<longleftrightarrow> t = EOF"
| "errors_Is ErrUnexpectedEOF t \<longleftrightarrow> t = ErrUnexpectedEOF"
| "errors_Is ErrClosed t \<longleftrightarrow> t = ErrClosed"
| "errors_Is (NetTimeout s) t \<longleftrightarrow> t = NetTimeout s"
| "errors_Is (ErrorString s) t \<longleftrightarrow> t = ErrorString s"
| "errors_Is (Wrapped s e) t \<longleftrightarrow> t = Wrapped s e \<or> errors_Is e t"

fun isTimeout :: "go_err \<Rightarrow> bool" where
  "isTimeout (NetTimeout s) \<longleftrightarrow> True"
| "isTimeout _ \<longleftrightarrow> False"

section \<open>The network\<close>

text \<open>
  An exchange gives a message, or an error and possibly a message with it. A response to an HTTP
  request is its status code, its status line and its body, which may fail to be read.
\<close>

type_synonym 'm outcome = "('m option \<times> go_err) + 'm"

record http_request =
  Method :: string
  URL :: string
  Headers :: "(string \<times> string) list"
  Body :: "u8 list"

record http_response =
  StatusCode :: int
  Status :: string
  RespBody :: "go_err + u8 list"

record 'w netops =
  Exchange :: "'w \<Rightarrow> Msg \<Rightarrow> string \<Rightarrow> Msg outcome \<times> 'w"
  Dial :: "'w \<Rightarrow> string \<Rightarrow> nat \<Rightarrow> go_err option \<times> 'w"
  SetReadDeadline :: "'w \<Rightarrow> nat \<Rightarrow> int option \<Rightarrow> 'w"
  Read1 :: "'w \<Rightarrow> nat \<Rightarrow> go_err option \<times> 'w"
  ExchangeWithConn :: "'w \<Rightarrow> Msg \<Rightarrow> nat \<Rightarrow> Msg outcome \<times> 'w"
  NewRequestErr :: "string \<Rightarrow> string \<Rightarrow> go_err option"
  HttpDo :: "'w \<Rightarrow> http_request \<Rightarrow> (go_err + http_response) \<times> 'w"

section \<open>UDP\<close>

record UdpResolver =
  Udp_Upstream :: string

definition NewUdpResolver :: "string \<Rightarrow> UdpResolver" where
  "NewUdpResolver upstream = \<lparr>Udp_Upstream = upstream\<rparr>"

definition Udp_Resolve :: "'w netops \<Rightarrow> UdpResolver \<Rightarrow> 'w \<Rightarrow> Msg \<Rightarrow> Msg outcome \<times> 'w" where
  "Udp_Resolve N r w q =
     (case Exchange N w q (Udp_Upstream r) of
        (Inl (m, err), w) \<Rightarrow> (Inl (None, ErrorString (''DNS Query Error: '' @ Err_Error err)), w)
      | (Inr out, w) \<Rightarrow> (Inr out, w))"

section \<open>DoT\<close>

abbreviation dotPoolSize :: nat where "dotPoolSize \<equiv> 5"
abbreviation maxAttempts :: nat where "maxAttempts \<equiv> 3"

record DotResolver =
  Dot_upstream :: string
  Dot_address :: string
  pool :: "nat list"
  next_conn :: nat
  closed_conns :: "nat list"

definition NewDotResolver :: "string \<Rightarrow> DotResolver" where
  "NewDotResolver upstream =
     \<lparr>Dot_upstream = upstream, Dot_address = TrimPrefix upstream ''tls://'', pool = [], next_conn = 0, closed_conns = []\<rparr>"

definition close_conn :: "nat \<Rightarrow> DotResolver \<Rightarrow> DotResolver" where
  "close_conn c r = r\<lparr>closed_conns := c # closed_conns r\<rparr>"

definition newConn :: "'w netops \<Rightarrow> DotResolver \<Rightarrow> 'w \<Rightarrow> (go_err + nat) \<times> DotResolver \<times> 'w" where
  "newConn N r w =
     (case Dial N w (Dot_address r) (next_conn r) of
        (Some err, w) \<Rightarrow> (Inl (Wrapped ''DoT dial: '' err), r, w)
      | (None, w) \<Rightarrow> (Inr (next_conn r), r\<lparr>next_conn := next_conn r + 1\<rparr>, w))"

text \<open>The deadline is one millisecond from now; the deferred call clears it.\<close>

definition isAlive :: "'w netops \<Rightarrow> 'w \<Rightarrow> nat \<Rightarrow> bool \<times> 'w" where
  "isAlive N w c =
     (let w = SetReadDeadline N w c (Some 1000000);
          (err, w) = Read1 N w c;
          alive = (case err of Some e \<Rightarrow> isTimeout e | None \<Rightarrow> True)
      in (alive, SetReadDeadline N w c None))"

function getConn :: "'w netops \<Rightarrow> DotResolver \<Rightarrow> 'w \<Rightarrow> (go_err + nat) \<times> DotResolver \<times> 'w" where
  "getConn N r w =
     (case pool r of
        [] \<Rightarrow> newConn N r w
      | c # cs \<Rightarrow>
          let r = r\<lparr>pool := cs\<rparr>; (alive, w) = isAlive N w c
          in if alive then (Inr c, r, w) else getConn N (close_conn c r) w)"
  by pat_completeness auto

termination
  by (relation "measure (\<lambda>(N, r, w). length (pool r))") (auto simp: close_conn_def)

declare getConn.simps [simp del]

definition putConn :: "DotResolver \<Rightarrow> nat \<Rightarrow> DotResolver" where
  "putConn r c = (if length (pool r) < dotPoolSize then r\<lparr>pool := pool r @ [c]\<rparr> else close_conn c r)"

definition isTransientConnErr :: "go_err \<Rightarrow> bool" where
  "isTransientConnErr err \<longleftrightarrow> errors_Is err EOF \<or> errors_Is err ErrUnexpectedEOF \<or> errors_Is err ErrClosed"

text \<open>\<open>n\<close> attempts are left; \<open>out\<close> and \<open>err\<close> are the named results, as the last attempt left them.\<close>

fun Dot_Resolve_loop :: "'w netops \<Rightarrow> nat \<Rightarrow> Msg option \<Rightarrow> go_err \<Rightarrow> DotResolver \<Rightarrow> 'w \<Rightarrow> Msg \<Rightarrow>
    Msg outcome \<times> DotResolver \<times> 'w" where
  "Dot_Resolve_loop N 0 out err r w q = (Inl (out, err), r, w)"
| "Dot_Resolve_loop N (Suc n) out err r w q =
     (case getConn N r w of
        (Inl err, r, w) \<Rightarrow> (Inl (out, err), r, w)
      | (Inr c, r, w) \<Rightarrow>
          (case ExchangeWithConn N w q c of
             (Inr out, w) \<Rightarrow> (Inr out, putConn r c, w)
           | (Inl (out, err), w) \<Rightarrow>
               let r = close_conn c r
               in if \<not> isTransientConnErr err then (Inl (out, err), r, w)
                  else Dot_Resolve_loop N n out err r w q))"

text \<open>With three attempts the loop body runs, so the initial error is never returned.\<close>

definition Dot_Resolve :: "'w netops \<Rightarrow> DotResolver \<Rightarrow> 'w \<Rightarrow> Msg \<Rightarrow> Msg outcome \<times> DotResolver \<times> 'w" where
  "Dot_Resolve N r w q = Dot_Resolve_loop N maxAttempts None (ErrorString '''') r w q"

section \<open>DoH\<close>

record DohResolver =
  Doh_Upstream :: string

definition NewDohResolver :: "string \<Rightarrow> DohResolver" where
  "NewDohResolver upstream = \<lparr>Doh_Upstream = upstream\<rparr>"

definition Doh_Resolve :: "dns_lib \<Rightarrow> 'w netops \<Rightarrow> DohResolver \<Rightarrow> 'w \<Rightarrow> Msg \<Rightarrow> Msg outcome \<times> 'w" where
  "Doh_Resolve D N r w q =
     (case Pack D q of
        Inl err \<Rightarrow> (Inl (None, ErrorString (''Error packing record: '' @ err)), w)
      | Inr pack \<Rightarrow>
          (case NewRequestErr N ''POST'' (Doh_Upstream r) of
             Some err \<Rightarrow> (Inl (None, ErrorString (''Error creating HTTP request: '' @ Err_Error err)), w)
           | None \<Rightarrow>
               (case HttpDo N w \<lparr>Method = ''POST'', URL = Doh_Upstream r,
                    Headers = [(''Accept'', ''application/dns-message''), (''content-type'', ''application/dns-message'')],
                    Body = pack\<rparr> of
                  (Inl err, w) \<Rightarrow> (Inl (None, ErrorString (''HTTP request error: '' @ Err_Error err)), w)
                | (Inr resp, w) \<Rightarrow>
                    if StatusCode resp \<noteq> 200 then
                      (Inl (None, ErrorString (''HTTP request failed - status: '' @ Status resp)), w)
                    else
                      (case RespBody resp of
                         Inl err \<Rightarrow> (Inl (None, ErrorString (''Error reading HTTP body: '' @ Err_Error err)), w)
                       | Inr bytes \<Rightarrow>
                           (case Unpack D bytes of
                              Inl err \<Rightarrow> (Inl (None, ErrorString (''Error parsing DNS response: '' @ err)), w)
                            | Inr out \<Rightarrow> (Inr out, w))))))"

section \<open>The interface\<close>

datatype Resolver = UDP UdpResolver | DOT DotResolver | DOH DohResolver

primrec Resolver_String :: "Resolver \<Rightarrow> string" where
  "Resolver_String (UDP r) = Udp_Upstream r"
| "Resolver_String (DOT r) = Dot_upstream r"
| "Resolver_String (DOH r) = Doh_Upstream r"

primrec Resolve :: "dns_lib \<Rightarrow> 'w netops \<Rightarrow> Resolver \<Rightarrow> 'w \<Rightarrow> Msg \<Rightarrow> Msg outcome \<times> Resolver \<times> 'w" where
  "Resolve D N (UDP r) w q = (case Udp_Resolve N r w q of (res, w) \<Rightarrow> (res, UDP r, w))"
| "Resolve D N (DOT r) w q = (case Dot_Resolve N r w q of (res, r, w) \<Rightarrow> (res, DOT r, w))"
| "Resolve D N (DOH r) w q = (case Doh_Resolve D N r w q of (res, w) \<Rightarrow> (res, DOH r, w))"

section \<open>Sequential facts\<close>

definition held :: "nat option \<Rightarrow> nat list" where
  "held c = (case c of None \<Rightarrow> [] | Some c \<Rightarrow> [c])"

text \<open>Every connection ever dialled is in the pool, in use, or closed, and in one place only.\<close>

definition dot_inv :: "nat option \<Rightarrow> DotResolver \<Rightarrow> bool" where
  "dot_inv c r \<longleftrightarrow> length (pool r) \<le> dotPoolSize \<and>
     mset (pool r @ held c @ closed_conns r) = mset [0..<next_conn r]"

lemma getConn_inv:
  "dot_inv None r \<Longrightarrow> getConn N r w = (res, r', w') \<Longrightarrow>
   (case res of Inl e \<Rightarrow> dot_inv None r' | Inr c \<Rightarrow> dot_inv (Some c) r') \<and> Dot_upstream r' = Dot_upstream r"
proof (induction N r w rule: getConn.induct)
  case (1 N r w)
  show ?case
  proof (cases "pool r")
    case Nil
    with "1.prems" show ?thesis
      by (auto simp: getConn.simps [of N r w] newConn_def dot_inv_def held_def split: prod.splits option.splits)
  next
    case (Cons c cs)
    obtain alive w1 where a: "isAlive N w c = (alive, w1)" by fastforce
    show ?thesis
    proof (cases alive)
      case True
      with "1.prems" Cons a show ?thesis
        by (auto simp: getConn.simps [of N r w] dot_inv_def held_def)
    next
      case False
      have "dot_inv None (close_conn c (r\<lparr>pool := cs\<rparr>))"
        using "1.prems"(1) Cons by (simp add: dot_inv_def close_conn_def held_def)
      with False "1.prems" "1.IH" [OF Cons refl a [symmetric] refl] Cons a show ?thesis
        by (auto simp: getConn.simps [of N r w]) (auto simp: close_conn_def)
    qed
  qed
qed

lemma putConn_inv: "dot_inv (Some c) r \<Longrightarrow> dot_inv None (putConn r c)"
  by (auto simp: dot_inv_def putConn_def close_conn_def held_def)

lemma close_conn_inv: "dot_inv (Some c) r \<Longrightarrow> dot_inv None (close_conn c r)"
  by (auto simp: dot_inv_def close_conn_def held_def)

lemma Dot_upstream_put [simp]: "Dot_upstream (putConn r c) = Dot_upstream r" "Dot_upstream (close_conn c r) = Dot_upstream r"
  by (simp_all add: putConn_def close_conn_def)

lemma Dot_Resolve_loop_inv:
  "dot_inv None r \<Longrightarrow> Dot_Resolve_loop N n out err r w q = (res, r', w') \<Longrightarrow>
   dot_inv None r' \<and> Dot_upstream r' = Dot_upstream r"
proof (induction n arbitrary: out err r w)
  case (Suc n)
  obtain g r1 w1 where g: "getConn N r w = (g, r1, w1)" by (metis prod_cases3)
  note inv = getConn_inv [OF Suc.prems(1) g]
  show ?case
  proof (cases g)
    case (Inr c)
    obtain x w2 where x: "ExchangeWithConn N w1 q c = (x, w2)" by fastforce
    have closed: "dot_inv None (close_conn c r1)" using inv Inr by (simp add: close_conn_inv)
    show ?thesis
      using Suc.prems(2) g Inr x inv closed Suc.IH [OF closed] putConn_inv [of c r1]
      by (auto simp: Let_def split: sum.splits prod.splits if_splits)
  qed (use Suc.prems(2) g inv in auto)
qed simp

text \<open>A connection comes from the front of the pool, or the pool was used up and one was dialled.\<close>

lemma getConn_source:
  "getConn N r w = (res, r', w') \<Longrightarrow>
   (\<exists>c. res = Inr c \<and> c \<in> set (pool r) \<and> length (pool r') < length (pool r) \<and> set (pool r') \<subseteq> set (pool r) \<and>
      next_conn r' = next_conn r) \<or>
   (pool r' = [] \<and> (\<exists>w1 r1. newConn N r1 w1 = (res, r', w') \<and> next_conn r1 = next_conn r))"
proof (induction N r w rule: getConn.induct)
  case (1 N r w)
  show ?case
  proof (cases "pool r")
    case Nil
    with "1.prems" show ?thesis
      by (auto simp: getConn.simps [of N r w]) (auto simp: newConn_def split: prod.splits option.splits)
  next
    case (Cons c cs)
    obtain alive w1 where a: "isAlive N w c = (alive, w1)" by fastforce
    show ?thesis
    proof (cases alive)
      case True
      with "1.prems" Cons a show ?thesis by (auto simp: getConn.simps [of N r w])
    next
      case False
      with "1.prems" Cons a have "getConn N (close_conn c (r\<lparr>pool := cs\<rparr>)) w1 = (res, r', w')"
        by (simp add: getConn.simps [of N r w])
      from "1.IH" [OF Cons refl a [symmetric] refl False this] Cons show ?thesis
        by (fastforce simp: close_conn_def)
    qed
  qed
qed

lemma newConn_cases:
  assumes "newConn N r w = (res, r', w')"
  shows "(\<exists>e. res = Inl e \<and> r' = r) \<or> (res = Inr (next_conn r) \<and> r' = r\<lparr>next_conn := next_conn r + 1\<rparr>)"
  using assms by (auto simp: newConn_def split: prod.splits option.splits)

lemma getConn_next: "getConn N r w = (res, r', w') \<Longrightarrow> next_conn r' \<le> next_conn r + 1"
  using getConn_source [of N r w res r' w'] by (fastforce dest: newConn_cases)

lemma next_conn_put [simp]: "next_conn (putConn r c) = next_conn r" "next_conn (close_conn c r) = next_conn r"
  "pool (close_conn c r) = pool r"
  by (simp_all add: putConn_def close_conn_def)

lemma Dot_Resolve_loop_dials:
  "Dot_Resolve_loop N n out err r w q = (res, r', w') \<Longrightarrow> next_conn r' \<le> next_conn r + n"
proof (induction n arbitrary: out err r w)
  case (Suc n)
  obtain g r1 w1 where g: "getConn N r w = (g, r1, w1)" by (metis prod_cases3)
  show ?case
    using Suc.prems g getConn_next [OF g] Suc.IH [of _ _ "close_conn c r1" for c]
    by (fastforce simp: Let_def split: sum.splits prod.splits if_splits)
qed simp

text \<open>A quantity of the world that only exchanges change, by at most one, such as their number.\<close>

definition counts_exchanges :: "'w netops \<Rightarrow> ('w \<Rightarrow> nat) \<Rightarrow> bool" where
  "counts_exchanges N m \<longleftrightarrow>
     (\<forall>w a c. m (snd (Dial N w a c)) = m w) \<and> (\<forall>w c. m (snd (Read1 N w c)) = m w) \<and>
     (\<forall>w c t. m (SetReadDeadline N w c t) = m w) \<and> (\<forall>w q c. m (snd (ExchangeWithConn N w q c)) \<le> m w + 1)"

lemma isAlive_count: "counts_exchanges N m \<Longrightarrow> isAlive N w c = (a, w') \<Longrightarrow> m w' = m w"
  by (auto simp: isAlive_def counts_exchanges_def Let_def split: prod.splits) (metis snd_conv)+

lemma getConn_count: "counts_exchanges N m \<Longrightarrow> getConn N r w = (res, r', w') \<Longrightarrow> m w' = m w"
proof (induction N r w rule: getConn.induct)
  case (1 N r w)
  have dial: "newConn N r w = (res, r', w') \<Longrightarrow> m w' = m w"
    using "1.prems"(1) by (auto simp: newConn_def counts_exchanges_def split: prod.splits option.splits) (metis snd_conv)+
  show ?case
  proof (cases "pool r")
    case Nil
    with "1.prems" dial show ?thesis by (simp add: getConn.simps [of N r w])
  next
    case (Cons c cs)
    obtain alive w1 where a: "isAlive N w c = (alive, w1)" by fastforce
    show ?thesis
      using "1.prems" Cons a isAlive_count [OF "1.prems"(1) a] "1.IH" [OF Cons refl a [symmetric] refl]
      by (auto simp: getConn.simps [of N r w] Let_def split: if_splits)
  qed
qed

lemma Dot_Resolve_loop_count:
  "counts_exchanges N m \<Longrightarrow> Dot_Resolve_loop N n out err r w q = (res, r', w') \<Longrightarrow> m w' \<le> m w + n"
proof (induction n arbitrary: out err r w)
  case (Suc n)
  obtain g r1 w1 where g: "getConn N r w = (g, r1, w1)" by (metis prod_cases3)
  have "m w1 = m w" using getConn_count [OF Suc.prems(1) g] .
  moreover have "ExchangeWithConn N w1 q c = (x, w2) \<Longrightarrow> m w2 \<le> m w1 + 1" for c x w2
    using Suc.prems(1) by (metis counts_exchanges_def snd_conv)
  ultimately show ?case
    using Suc.prems g Suc.IH by (fastforce simp: Let_def split: sum.splits prod.splits if_splits)
qed simp

text \<open>
  Pooled connections are stale: they look alive and then fail with a transient error, while the
  server answers on a new connection.
\<close>

definition stale_pool :: "'w netops \<Rightarrow> nat \<Rightarrow> Msg \<Rightarrow> bool" where
  "stale_pool N k q \<longleftrightarrow>
     (\<forall>w a c. \<exists>w'. Dial N w a c = (None, w')) \<and>
     (\<forall>w c. c < k \<longrightarrow> (\<exists>out e w'. ExchangeWithConn N w q c = (Inl (out, e), w') \<and> isTransientConnErr e)) \<and>
     (\<forall>w c. k \<le> c \<longrightarrow> (\<exists>out w'. ExchangeWithConn N w q c = (Inr out, w')))"

lemma stale_poolD:
  assumes "stale_pool N k q"
  shows "c < k \<Longrightarrow> \<exists>out e w'. ExchangeWithConn N w q c = (Inl (out, e), w') \<and> isTransientConnErr e"
    "k \<le> c \<Longrightarrow> \<exists>out w'. ExchangeWithConn N w q c = (Inr out, w')"
  using assms unfolding stale_pool_def by blast+

lemma newConn_ok:
  assumes "stale_pool N k q" "newConn N r w = (res, r', w')"
  shows "res = Inr (next_conn r)"
proof -
  obtain w1 where "Dial N w (Dot_address r) (next_conn r) = (None, w1)" using assms(1) unfolding stale_pool_def by blast
  then show ?thesis using assms(2) by (simp add: newConn_def)
qed

lemma Dot_Resolve_loop_stale:
  assumes "stale_pool N k q"
  shows "length (pool r) < n \<Longrightarrow> k \<le> next_conn r \<Longrightarrow>
    \<exists>out' r' w'. Dot_Resolve_loop N n out err r w q = (Inr out', r', w')"
proof (induction n arbitrary: out err r w)
  case (Suc n)
  obtain g r1 w1 where g: "getConn N r w = (g, r1, w1)" by (metis prod_cases3)
  have "(\<exists>c. g = Inr c \<and> length (pool r1) < length (pool r) \<and> next_conn r1 = next_conn r) \<or> g = Inr (next_conn r)"
    using getConn_source [OF g]
  proof (elim disjE conjE exE)
    fix w0 r0 assume "newConn N r0 w0 = (g, r1, w1)" "next_conn r0 = next_conn r"
    then show ?thesis using newConn_ok [OF assms, of r0 w0 g r1 w1] by simp
  qed blast
  then obtain c where c: "g = Inr c" "k \<le> c \<or> (length (pool r1) < length (pool r) \<and> next_conn r1 = next_conn r)"
    using Suc.prems(2) by auto
  show ?case
  proof (cases "k \<le> c")
    case True
    from stale_poolD(2) [OF assms this, of w1] obtain out2 w2 where "ExchangeWithConn N w1 q c = (Inr out2, w2)" by blast
    then show ?thesis using g c(1) by simp
  next
    case False
    then have "c < k" by simp
    from stale_poolD(1) [OF assms this, of w1] obtain out2 e w2
      where x: "ExchangeWithConn N w1 q c = (Inl (out2, e), w2)" "isTransientConnErr e" by blast
    have "length (pool (close_conn c r1)) < n" "k \<le> next_conn (close_conn c r1)" using c False Suc.prems by auto
    from Suc.IH [OF this, of out2 e w2] x g c(1) show ?thesis by simp
  qed
qed simp

section \<open>The pool under concurrent queries\<close>

text \<open>Where a query stands in \<^verbatim>\<open>Resolve\<close>: the attempt, and the connection it holds, if any.\<close>

datatype dot_pc = Want nat | Checking nat nat | Dialling nat | Holding nat nat | Returning nat | Finished

primrec pc_conn :: "dot_pc \<Rightarrow> nat option" where
  "pc_conn (Want a) = None"
| "pc_conn (Checking a c) = Some c"
| "pc_conn (Dialling a) = None"
| "pc_conn (Holding a c) = Some c"
| "pc_conn (Returning c) = Some c"
| "pc_conn Finished = None"

type_synonym dot_sys = "DotResolver \<times> dot_pc list"

inductive dot_step :: "dot_sys \<Rightarrow> dot_sys \<Rightarrow> bool" where
  step_take: "i < length ts \<Longrightarrow> ts ! i = Want a \<Longrightarrow> pool r = c # cs \<Longrightarrow>
     dot_step (r, ts) (r\<lparr>pool := cs\<rparr>, ts[i := Checking a c])"
| step_alive: "i < length ts \<Longrightarrow> ts ! i = Checking a c \<Longrightarrow> dot_step (r, ts) (r, ts[i := Holding a c])"
| step_dead: "i < length ts \<Longrightarrow> ts ! i = Checking a c \<Longrightarrow> dot_step (r, ts) (close_conn c r, ts[i := Want a])"
| step_empty: "i < length ts \<Longrightarrow> ts ! i = Want a \<Longrightarrow> pool r = [] \<Longrightarrow> dot_step (r, ts) (r, ts[i := Dialling a])"
| step_dialled: "i < length ts \<Longrightarrow> ts ! i = Dialling a \<Longrightarrow>
     dot_step (r, ts) (r\<lparr>next_conn := next_conn r + 1\<rparr>, ts[i := Holding a (next_conn r)])"
| step_dial_err: "i < length ts \<Longrightarrow> ts ! i = Dialling a \<Longrightarrow> dot_step (r, ts) (r, ts[i := Finished])"
| step_reply: "i < length ts \<Longrightarrow> ts ! i = Holding a c \<Longrightarrow> dot_step (r, ts) (r, ts[i := Returning c])"
| step_put: "i < length ts \<Longrightarrow> ts ! i = Returning c \<Longrightarrow> dot_step (r, ts) (putConn r c, ts[i := Finished])"
| step_retry: "i < length ts \<Longrightarrow> ts ! i = Holding a c \<Longrightarrow> a + 1 < maxAttempts \<Longrightarrow>
     dot_step (r, ts) (close_conn c r, ts[i := Want (a + 1)])"
| step_fail: "i < length ts \<Longrightarrow> ts ! i = Holding a c \<Longrightarrow> dot_step (r, ts) (close_conn c r, ts[i := Finished])"
| step_start: "dot_step (r, ts) (r, ts @ [Want 0])"

inductive_cases dot_stepE: "dot_step s s'"

text \<open>The connections that queries hold.\<close>

definition in_use :: "dot_pc list \<Rightarrow> nat multiset" where
  "in_use ts = (\<Sum>t \<leftarrow> ts. mset (held (pc_conn t)))"

definition sys_inv :: "dot_sys \<Rightarrow> bool" where
  "sys_inv s \<longleftrightarrow> (case s of (r, ts) \<Rightarrow> length (pool r) \<le> dotPoolSize \<and>
     mset (pool r) + in_use ts + mset (closed_conns r) = mset [0..<next_conn r])"

lemma in_use_append [simp]: "in_use (ts @ us) = in_use ts + in_use us"
  by (simp add: in_use_def)

lemma in_use_split: "i < length ts \<Longrightarrow> in_use ts = mset (held (pc_conn (ts ! i))) + in_use (take i ts @ drop (Suc i) ts)"
  by (subst id_take_nth_drop [of i ts]) (simp_all add: in_use_def)

lemma in_use_update:
  "i < length ts \<Longrightarrow> in_use (ts[i := t]) = mset (held (pc_conn t)) + in_use (take i ts @ drop (Suc i) ts)"
  by (simp add: upd_conv_take_nth_drop) (simp add: in_use_def)

lemma in_use_start: "in_use (ts @ [Want a]) = in_use ts"
  by (simp add: in_use_def held_def)

lemma sys_inv_step: "dot_step s s' \<Longrightarrow> sys_inv s \<Longrightarrow> sys_inv s'"
  by (induction rule: dot_step.induct)
     (auto simp: sys_inv_def in_use_split in_use_update in_use_start held_def putConn_def close_conn_def
        simp del: in_use_append mset_upt)

lemma sys_inv_reach: "dot_step\<^sup>*\<^sup>* s s' \<Longrightarrow> sys_inv s \<Longrightarrow> sys_inv s'"
  by (induction rule: rtranclp_induct) (auto intro: sys_inv_step)

lemma sys_inv_init: "sys_inv (NewDotResolver u, [])"
  by (simp add: sys_inv_def NewDotResolver_def in_use_def)

lemma sys_inv_exclusive:
  assumes inv: "sys_inv (r, ts)" and i: "i < length ts" "pc_conn (ts ! i) = Some c"
  shows "c < next_conn r" "c \<notin> set (pool r)" "c \<notin> set (closed_conns r)"
    "\<And>j. j < length ts \<Longrightarrow> j \<noteq> i \<Longrightarrow> pc_conn (ts ! j) \<noteq> Some c"
proof -
  let ?rest = "in_use (take i ts @ drop (Suc i) ts)"
  have eq: "mset (pool r) + (add_mset c ?rest) + mset (closed_conns r) = mset [0..<next_conn r]"
    using inv in_use_split [OF i(1)] i(2) by (simp add: sys_inv_def held_def del: mset_upt)
  have "c \<in># mset [0..<next_conn r]" unfolding eq [symmetric] by simp
  then show "c < next_conn r" by simp
  have "count (mset [0..<next_conn r]) c \<le> 1"
    using distinct_count_atmost_1 [of "[0..<next_conn r]"] by (simp del: mset_upt)
  then have "count (mset (pool r) + ?rest + mset (closed_conns r)) c = 0" unfolding eq [symmetric] by simp
  then show "c \<notin> set (pool r)" "c \<notin> set (closed_conns r)" by (simp_all add: count_eq_zero_iff)
  have "c \<notin># ?rest" using \<open>count (mset (pool r) + ?rest + mset (closed_conns r)) c = 0\<close> by (simp add: count_eq_zero_iff)
  moreover have "c \<in># ?rest" if "j < length ts" "j \<noteq> i" "pc_conn (ts ! j) = Some c" for j
  proof -
    have "ts ! j \<in> set (take i ts @ drop (Suc i) ts)"
    proof (cases "j < i")
      case True
      then show ?thesis using that by (auto simp: in_set_conv_nth)
    next
      case False
      then have "drop (Suc i) ts ! (j - Suc i) = ts ! j" "j - Suc i < length (drop (Suc i) ts)" using that by auto
      then show ?thesis by (metis Un_iff nth_mem set_append)
    qed
    then show ?thesis using that(3) unfolding in_use_def by (force simp: held_def set_mset_sum_list)
  qed
  ultimately show "\<And>j. j < length ts \<Longrightarrow> j \<noteq> i \<Longrightarrow> pc_conn (ts ! j) \<noteq> Some c" by blast
qed

lemma getConn_steps:
  "i < length ts \<Longrightarrow> ts ! i = Want a \<Longrightarrow> getConn N r w = (res, r', w') \<Longrightarrow>
   dot_step\<^sup>*\<^sup>* (r, ts) (r', ts[i := (case res of Inl e \<Rightarrow> Finished | Inr c \<Rightarrow> Holding a c)])"
proof (induction N r w rule: getConn.induct)
  case (1 N r w)
  note i = "1.prems"(1,2)
  show ?case
  proof (cases "pool r")
    case Nil
    have s1: "dot_step (r, ts) (r, ts[i := Dialling a])" using step_empty [OF i Nil] .
    have "newConn N r w = (res, r', w')" using "1.prems"(3) Nil by (simp add: getConn.simps [of N r w])
    then have "dot_step (r, ts[i := Dialling a]) (r', ts[i := (case res of Inl e \<Rightarrow> Finished | Inr c \<Rightarrow> Holding a c)])"
      using step_dialled [of i "ts[i := Dialling a]" a r] step_dial_err [of i "ts[i := Dialling a]" a r] i
      by (auto dest!: newConn_cases)
    with s1 show ?thesis by (meson converse_rtranclp_into_rtranclp r_into_rtranclp)
  next
    case (Cons c cs)
    obtain alive w1 where a: "isAlive N w c = (alive, w1)" by fastforce
    let ?r = "r\<lparr>pool := cs\<rparr>" and ?ts = "ts[i := Checking a c]"
    have s1: "dot_step (r, ts) (?r, ?ts)" using step_take [OF i Cons] .
    show ?thesis
    proof (cases alive)
      case True
      then have "dot_step (?r, ?ts) (r', ts[i := (case res of Inl e \<Rightarrow> Finished | Inr c \<Rightarrow> Holding a c)])"
        using "1.prems"(3) Cons a step_alive [of i ?ts a c ?r] i by (auto simp: getConn.simps [of N r w])
      with s1 show ?thesis by (meson converse_rtranclp_into_rtranclp r_into_rtranclp)
    next
      case False
      have "dot_step (?r, ?ts) (close_conn c ?r, ts)"
        using step_dead [of i ?ts a c ?r] i list_update_id [of ts i] by simp
      moreover have "getConn N (close_conn c ?r) w1 = (res, r', w')"
        using False "1.prems"(3) Cons a by (simp add: getConn.simps [of N r w])
      ultimately show ?thesis
        using s1 "1.IH" [OF Cons refl a [symmetric] refl False i] by (meson converse_rtranclp_into_rtranclp)
    qed
  qed
qed

lemma Holding_steps:
  assumes "i < length ts"
  shows "dot_step\<^sup>*\<^sup>* (r, ts[i := Holding a c]) (putConn r c, ts[i := Finished])"
    "dot_step\<^sup>*\<^sup>* (r, ts[i := Holding a c]) (close_conn c r, ts[i := Finished])"
    "a + 1 < maxAttempts \<Longrightarrow> dot_step\<^sup>*\<^sup>* (r, ts[i := Holding a c]) (close_conn c r, ts[i := Want (a + 1)])"
proof -
  let ?ts = "ts[i := Holding a c]"
  have "dot_step (r, ?ts) (r, ts[i := Returning c])" using step_reply [of i ?ts a c r] assms by simp
  moreover have "dot_step (r, ts[i := Returning c]) (putConn r c, ts[i := Finished])"
    using step_put [of i "ts[i := Returning c]" c r] assms by simp
  ultimately show "dot_step\<^sup>*\<^sup>* (r, ?ts) (putConn r c, ts[i := Finished])"
    by (meson converse_rtranclp_into_rtranclp r_into_rtranclp)
  show "dot_step\<^sup>*\<^sup>* (r, ?ts) (close_conn c r, ts[i := Finished])"
    using step_fail [of i ?ts a c r] assms by (simp add: r_into_rtranclp)
  show "a + 1 < maxAttempts \<Longrightarrow> dot_step\<^sup>*\<^sup>* (r, ?ts) (close_conn c r, ts[i := Want (a + 1)])"
    using step_retry [of i ?ts a c r] assms by (simp add: r_into_rtranclp)
qed

lemma Dot_Resolve_loop_steps:
  "0 < n \<Longrightarrow> i < length ts \<Longrightarrow> ts ! i = Want a \<Longrightarrow> a + n = maxAttempts \<Longrightarrow>
   Dot_Resolve_loop N n out err r w q = (res, r', w') \<Longrightarrow> dot_step\<^sup>*\<^sup>* (r, ts) (r', ts[i := Finished])"
proof (induction n arbitrary: a ts out err r w)
  case (Suc n)
  obtain g r1 w1 where g: "getConn N r w = (g, r1, w1)" by (metis prod_cases3)
  note to_g = getConn_steps [OF Suc.prems(2,3) g]
  show ?case
  proof (cases g)
    case (Inr c)
    obtain x w2 where x: "ExchangeWithConn N w1 q c = (x, w2)" by fastforce
    have "dot_step\<^sup>*\<^sup>* (r1, ts[i := Holding a c]) (r', ts[i := Finished])"
    proof (cases "\<exists>out e. x = Inl (out, e) \<and> isTransientConnErr e \<and> 0 < n")
      case True
      then obtain out2 e where e: "x = Inl (out2, e)" "isTransientConnErr e" "0 < n" by blast
      then have "Dot_Resolve_loop N n out2 e (close_conn c r1) w2 q = (res, r', w')" using Suc.prems(5) g Inr x by simp
      from Suc.IH [OF e(3) _ _ _ this, of "ts[i := Want (a + 1)]" "a + 1"] Suc.prems
      have "dot_step\<^sup>*\<^sup>* (close_conn c r1, ts[i := Want (a + 1)]) (r', ts[i := Finished])" by simp
      moreover have "a + 1 < maxAttempts" using Suc.prems(4) e(3) by simp
      ultimately show ?thesis using Holding_steps(3) [OF Suc.prems(2)] by (meson rtranclp_trans)
    next
      case False
      then have "r' = putConn r1 c \<or> r' = close_conn c r1"
        using Suc.prems(5) g Inr x by (auto simp: Let_def split: sum.splits prod.splits if_splits)
      then show ?thesis using Holding_steps(1,2) [OF Suc.prems(2)] by blast
    qed
    with to_g Inr show ?thesis by (simp add: rtranclp_trans)
  qed (use Suc.prems(5) g to_g in auto)
qed simp

text \<open>
  Claim C6. DoT connections under concurrency: however many queries run at once and however their
  steps interleave, the idle pool never holds more than five connections, a connection in use by a query is
  neither in the pool, nor closed, nor in use by another query, and when every query has finished, the
  connections that were dialled and not closed are exactly those in the pool: none is leaked.
\<close>

theorem dot_connections_exclusive:
  assumes "dot_step\<^sup>*\<^sup>* (NewDotResolver upstream, []) (r, ts)"
  shows "length (pool r) \<le> dotPoolSize \<and>
    (\<forall>i c. i < length ts \<and> pc_conn (ts ! i) = Some c \<longrightarrow>
       c \<notin> set (pool r) \<and> c \<notin> set (closed_conns r) \<and> (\<forall>j. j < length ts \<and> j \<noteq> i \<longrightarrow> pc_conn (ts ! j) \<noteq> Some c)) \<and>
    (list_all (\<lambda>t. t = Finished) ts \<longrightarrow> {c. c < next_conn r \<and> c \<notin> set (closed_conns r)} = set (pool r))"
proof -
  have inv: "sys_inv (r, ts)" using sys_inv_reach [OF assms sys_inv_init] .
  have "{c. c < next_conn r \<and> c \<notin> set (closed_conns r)} = set (pool r)" if "list_all (\<lambda>t. t = Finished) ts"
  proof -
    have "in_use ts = {#}" using that by (induction ts) (auto simp: in_use_def held_def)
    then have eq: "mset (pool r @ closed_conns r) = mset [0..<next_conn r]"
      using inv by (simp add: sys_inv_def del: mset_upt)
    then have "distinct (pool r @ closed_conns r)" using mset_eq_imp_distinct_iff distinct_upt by blast
    moreover have "set (pool r @ closed_conns r) = {..<next_conn r}" using mset_eq_setD [OF eq] by auto
    ultimately show ?thesis by auto
  qed
  moreover have "length (pool r) \<le> dotPoolSize" using inv by (simp add: sys_inv_def)
  moreover have "c \<notin> set (pool r) \<and> c \<notin> set (closed_conns r) \<and> (\<forall>j. j < length ts \<and> j \<noteq> i \<longrightarrow> pc_conn (ts ! j) \<noteq> Some c)"
    if "i < length ts" "pc_conn (ts ! i) = Some c" for i c
    using sys_inv_exclusive(2-4) [OF inv that] by blast
  ultimately show ?thesis by blast
qed

theorem dot_connections_exclusive_witness:
  "\<exists>r. dot_step\<^sup>*\<^sup>* (NewDotResolver ''tls://1.1.1.1:853'', []) (r, [Holding 0 0, Want 0]) \<and>
    length (pool r) \<le> dotPoolSize \<and>
    (\<forall>i c. i < length [Holding 0 0, Want 0] \<and> pc_conn ([Holding 0 0, Want 0] ! i) = Some c \<longrightarrow>
       c \<notin> set (pool r) \<and> c \<notin> set (closed_conns r) \<and>
       (\<forall>j. j < length [Holding 0 0, Want 0] \<and> j \<noteq> i \<longrightarrow> pc_conn ([Holding 0 0, Want 0] ! j) \<noteq> Some c))"
proof -
  let ?r = "NewDotResolver ''tls://1.1.1.1:853''"
  have "dot_step (?r, []) (?r, [Want 0])" using step_start [of ?r "[]"] by simp
  moreover have "dot_step (?r, [Want 0]) (?r, [Dialling 0])"
    using step_empty [of 0 "[Want 0]" 0 ?r] by (simp add: NewDotResolver_def)
  moreover have "dot_step (?r, [Dialling 0]) (?r\<lparr>next_conn := 1\<rparr>, [Holding 0 0])"
    using step_dialled [of 0 "[Dialling 0]" 0 ?r] by (simp add: NewDotResolver_def)
  moreover have "dot_step (?r\<lparr>next_conn := 1\<rparr>, [Holding 0 0]) (?r\<lparr>next_conn := 1\<rparr>, [Holding 0 0, Want 0])"
    using step_start [of "?r\<lparr>next_conn := 1\<rparr>" "[Holding 0 0]"] by simp
  ultimately have run: "dot_step\<^sup>*\<^sup>* (?r, []) (?r\<lparr>next_conn := 1\<rparr>, [Holding 0 0, Want 0])"
    by (meson converse_rtranclp_into_rtranclp r_into_rtranclp)
  from dot_connections_exclusive [OF run] run show ?thesis by blast
qed

text \<open>
  Claim C20. \<^verbatim>\<open>Resolve\<close> follows the concurrent protocol: whatever the network does, running one query to its
  end is a sequence of protocol steps of that query from its start to its end, with the same pool,
  connections dialled and connections closed.
\<close>

theorem Dot_Resolve_refines:
  assumes "i < length ts" "ts ! i = Want 0" "Dot_Resolve N r w q = (res, r', w')"
  shows "dot_step\<^sup>*\<^sup>* (r, ts) (r', ts[i := Finished])"
  by (rule Dot_Resolve_loop_steps [OF _ assms(1,2) _ assms(3) [unfolded Dot_Resolve_def]]) simp_all

text \<open>A network for the witnesses: the world counts the exchanges, the first three fail with EOF.\<close>

definition sample_net :: "nat \<Rightarrow> nat netops" where
  "sample_net fails = \<lparr>
     Exchange = (\<lambda>w q a. (Inr q, w)),
     Dial = (\<lambda>w a c. (None, w)),
     SetReadDeadline = (\<lambda>w c t. w),
     Read1 = (\<lambda>w c. (Some (NetTimeout ''i/o timeout''), w)),
     ExchangeWithConn = (\<lambda>w q c. (if c < fails then Inl (None, EOF) else Inr (q\<lparr>Response := True\<rparr>), w + 1)),
     NewRequestErr = (\<lambda>m u. None),
     HttpDo = (\<lambda>w r. (Inl EOF, w))\<rparr>"

theorem Dot_Resolve_refines_witness:
  "\<exists>r' w'. Dot_Resolve (sample_net 1) (NewDotResolver ''tls://1.1.1.1:853'') 0 newMsg =
      (Inr (newMsg\<lparr>Response := True\<rparr>), r', w') \<and> pool r' = [1] \<and> closed_conns r' = [0] \<and>
    dot_step\<^sup>*\<^sup>* (NewDotResolver ''tls://1.1.1.1:853'', [Want 0]) (r', [Finished])"
proof -
  let ?r = "NewDotResolver ''tls://1.1.1.1:853''"
  let ?r' = "?r\<lparr>pool := [1], next_conn := 2, closed_conns := [0]\<rparr>"
  have run: "Dot_Resolve (sample_net 1) ?r 0 newMsg = (Inr (newMsg\<lparr>Response := True\<rparr>), ?r', 2)"
    by (simp add: Dot_Resolve_def getConn.simps newConn_def sample_net_def NewDotResolver_def isTransientConnErr_def
        putConn_def close_conn_def numeral_eq_Suc Let_def)
  show ?thesis
    using Dot_Resolve_refines [of 0 "[Want 0]", OF _ _ run] run by auto
qed

text \<open>
  Claim C28. A DoT query does bounded work: it always returns, after at most three exchanges and three new
  connections, and leaves the pool within its bound with every connection accounted for.
\<close>

theorem Dot_Resolve_bounded:
  assumes "dot_inv None r" "counts_exchanges N m"
  shows "\<exists>res r' w'. Dot_Resolve N r w q = (res, r', w') \<and> m w' \<le> m w + maxAttempts \<and>
    next_conn r' \<le> next_conn r + maxAttempts \<and> dot_inv None r'"
proof -
  obtain res r' w' where run: "Dot_Resolve N r w q = (res, r', w')" by (metis prod_cases3)
  then have loop: "Dot_Resolve_loop N maxAttempts None (ErrorString '''') r w q = (res, r', w')" by (simp add: Dot_Resolve_def)
  show ?thesis
    using run Dot_Resolve_loop_count [OF assms(2) loop] Dot_Resolve_loop_dials [OF loop] Dot_Resolve_loop_inv [OF assms(1) loop]
    by blast
qed

lemma sample_net_counts: "counts_exchanges (sample_net k) id"
  by (simp add: counts_exchanges_def sample_net_def)

theorem Dot_Resolve_bounded_witness:
  "\<exists>res r' w'. Dot_Resolve (sample_net 9) (NewDotResolver ''tls://1.1.1.1:853'') 0 newMsg = (res, r', w') \<and> id w' \<le> id 0 + maxAttempts \<and>
    next_conn r' \<le> next_conn (NewDotResolver ''tls://1.1.1.1:853'') + maxAttempts \<and> dot_inv None r'"
  by (rule Dot_Resolve_bounded [OF _ sample_net_counts]) (simp add: dot_inv_def NewDotResolver_def held_def)

text \<open>
  Claim C29. Stale connections are survived: when at most two idle connections are in the pool and each of
  them fails with a transient error although it looked alive, while the server accepts new
  connections and answers on them, the query is answered.
\<close>

theorem Dot_Resolve_survives_stale:
  assumes "stale_pool N (next_conn r) q" "length (pool r) < maxAttempts"
  shows "\<exists>out r' w'. Dot_Resolve N r w q = (Inr out, r', w')"
  unfolding Dot_Resolve_def by (rule Dot_Resolve_loop_stale [OF assms(1,2)]) simp

theorem Dot_Resolve_survives_stale_witness:
  "\<exists>out r' w'. Dot_Resolve (sample_net 2) ((NewDotResolver ''tls://1.1.1.1:853'')\<lparr>pool := [0, 1], next_conn := 2\<rparr>) 0 newMsg =
    (Inr out, r', w')"
  by (rule Dot_Resolve_survives_stale) (auto simp: stale_pool_def sample_net_def isTransientConnErr_def)

section \<open>What a client of a resolver relies on\<close>

text \<open>
  The contract of the interface: a call keeps the resolver's invariant and its name. Any list of
  resolvers used in turn therefore stays a list of resolvers with the same names.
\<close>

locale upstream_resolver =
  fixes res_call :: "'r \<Rightarrow> 'w \<Rightarrow> Msg \<Rightarrow> Msg outcome \<times> 'r \<times> 'w" and res_name :: "'r \<Rightarrow> string" and res_inv :: "'r \<Rightarrow> bool"
  assumes call_inv: "res_inv r \<Longrightarrow> res_call r w q = (out, r', w') \<Longrightarrow> res_inv r'"
    and call_name: "res_inv r \<Longrightarrow> res_call r w q = (out, r', w') \<Longrightarrow> res_name r' = res_name r"
begin

lemma call_update:
  assumes "list_all res_inv rs" "i < length rs" "res_call (rs ! i) w q = (out, r', w')"
  shows "list_all res_inv (rs[i := r'])" "map res_name (rs[i := r']) = map res_name rs"
proof -
  have inv: "res_inv (rs ! i)" using assms(1,2) by (simp add: list_all_length)
  show "list_all res_inv (rs[i := r'])"
    using assms call_inv [OF inv assms(3)] by (auto simp: list_all_length nth_list_update)
  show "map res_name (rs[i := r']) = map res_name rs"
    using assms(2) call_name [OF inv assms(3)] by (simp add: map_update list_update_same_conv)
qed

end

definition resolver_inv :: "Resolver \<Rightarrow> bool" where
  "resolver_inv r = (case r of DOT d \<Rightarrow> dot_inv None d | _ \<Rightarrow> True)"

lemma Resolve_keeps:
  assumes "resolver_inv r" "Resolve D N r w q = (out, r', w')"
  shows "resolver_inv r'" "Resolver_String r' = Resolver_String r"
proof -
  have "resolver_inv r' \<and> Resolver_String r' = Resolver_String r"
  proof (cases r)
    case (DOT d)
    then obtain d' where d': "Dot_Resolve N d w q = (out, d', w')" "r' = DOT d'"
      using assms(2) by (auto split: prod.splits)
    then show ?thesis
      using DOT assms(1) Dot_Resolve_loop_inv [of d N maxAttempts None "ErrorString ''''" w q out d' w']
      by (simp add: resolver_inv_def Dot_Resolve_def)
  qed (use assms in \<open>auto simp: resolver_inv_def split: prod.splits\<close>)
  then show "resolver_inv r'" "Resolver_String r' = Resolver_String r" by simp_all
qed

interpretation resolver: upstream_resolver "Resolve D N" Resolver_String resolver_inv for D N
  by unfold_locales (rule Resolve_keeps; assumption)+

lemma new_resolvers_inv [simp]:
  "resolver_inv (UDP (NewUdpResolver u))" "resolver_inv (DOT (NewDotResolver u))" "resolver_inv (DOH (NewDohResolver u))"
  by (simp_all add: resolver_inv_def dot_inv_def NewDotResolver_def held_def)

lemma Dot_Resolve_loop_reply:
  "Dot_Resolve_loop N n out err r w q = (Inr m, r', w') \<Longrightarrow> \<exists>w1 c. ExchangeWithConn N w1 q c = (Inr m, w')"
proof (induction n arbitrary: out err r w)
  case (Suc n)
  then show ?case
    by (auto simp: Let_def split: prod.splits sum.splits if_splits)
qed simp

text \<open>Any reply of a resolver is the network's reply to the very query.\<close>

lemma Resolve_reply:
  assumes "Resolve D N r w q = (Inr m, r', w')"
  shows "(\<exists>w1 a. Exchange N w1 q a = (Inr m, w')) \<or> (\<exists>w1 c. ExchangeWithConn N w1 q c = (Inr m, w')) \<or>
    (\<exists>bytes. Unpack D bytes = Inr m)"
proof (cases r)
  case (DOT d)
  then show ?thesis using assms Dot_Resolve_loop_reply by (fastforce simp: Dot_Resolve_def split: prod.splits)
qed (use assms in \<open>auto simp: Udp_Resolve_def Doh_Resolve_def split: prod.splits sum.splits option.splits if_splits\<close>)

end
