(* ===== verification/Util.thy ===== *)
theory Util
  imports Go_Net
begin

text \<open>
  Package \<^verbatim>\<open>util\<close>: listen addresses, files and URLs read line by line, user and group names, repeated
  flags and the JSON-RPC client. What the machine holds (interfaces, files, web pages, users) and the
  parsers of \<^verbatim>\<open>net/url\<close>, \<^verbatim>\<open>time\<close> and the zone parser are the record \<open>sysenv\<close>, an argument of the
  operations that look at it.
\<close>

section \<open>The machine\<close>

text \<open>An open file or response: its bytes, and the error that ends it, if one does.\<close>

record reader =
  content :: string
  read_err :: "string option"

record netif =
  If_Name :: string
  If_Addrs :: "string + string list"

record sysenv =
  InterfaceByName :: "string \<Rightarrow> netif option"
  url_Parse :: "string \<Rightarrow> string + string \<times> string"
  os_Open :: "string \<Rightarrow> string + reader"
  http_Get :: "string \<Rightarrow> string + int \<times> reader"
  user_Lookup :: "string \<Rightarrow> (string \<times> string) option"
  user_LookupId :: "string \<Rightarrow> (string \<times> string) option"
  user_LookupGroup :: "string \<Rightarrow> string option"
  user_LookupGroupId :: "string \<Rightarrow> string option"
  Getuid :: int
  ParseDuration :: "string \<Rightarrow> string + int"
  ZoneParser :: "reader \<Rightarrow> RR list \<times> string option"

section \<open>parseaddr.go\<close>

definition Count :: "char \<Rightarrow> string \<Rightarrow> nat" where
  "Count c s = length (filter (\<lambda>x. x = c) s)"

text \<open>\<^verbatim>\<open>IP.IsLinkLocalUnicast\<close> and \<^verbatim>\<open>IP.String\<close>.\<close>

definition IsLinkLocalUnicast :: "IP \<Rightarrow> bool" where
  "IsLinkLocalUnicast ip =
     (if To4 ip \<noteq> [] then To4 ip ! 0 = 169 \<and> To4 ip ! 1 = 254
      else length ip = 16 \<and> ip ! 0 = 254 \<and> ip ! 1 AND 192 = 128)"

fun ip_groups :: "u8 list \<Rightarrow> nat list" where
  "ip_groups (a # b # bs) = (unat a * 256 + unat b) # ip_groups bs"
| "ip_groups _ = []"

text \<open>The leftmost longest run of at least two zero groups, as its start and end.\<close>

definition zero_run :: "nat list \<Rightarrow> (nat \<times> nat) option" where
  "zero_run gs =
     foldl (\<lambda>best i. let l = length (takeWhile (\<lambda>g. g = 0) (drop i gs))
                     in if l \<ge> 2 \<and> (case best of None \<Rightarrow> True | Some (s, e) \<Rightarrow> l > e - s) then Some (i, i + l) else best)
       None [0..<length gs]"

definition string6 :: "nat list \<Rightarrow> string" where
  "string6 gs =
     (case zero_run gs of
        None \<Rightarrow> Join '':'' (map fmt_x gs)
      | Some (s, e) \<Rightarrow> Join '':'' (map fmt_x (take s gs)) @ ''::'' @ Join '':'' (map fmt_x (drop e gs)))"

definition IP_String :: "IP \<Rightarrow> string" where
  "IP_String ip =
     (if ip = [] then ''<nil>''
      else if To4 ip \<noteq> [] then dotted (To4 ip)
      else if length ip = 16 then string6 (ip_groups ip)
      else ''?'' @ concat (map (\<lambda>b. [hex_digit (unat b div 16), hex_digit (unat b mod 16)]) ip))"

datatype addr_error = AddrPanic go_panic | AddrErr string

fun if_addrs :: "string \<Rightarrow> string \<Rightarrow> string list \<Rightarrow> addr_error + string list" where
  "if_addrs ifname port [] = Inr []"
| "if_addrs ifname port (v # vs) =
     (case ParseCIDR v of
        None \<Rightarrow> Inl (AddrErr (''Error parsing address <'' @ v @ ''>: invalid CIDR address: '' @ v))
      | Some (ip, _) \<Rightarrow>
          let host = (if IsLinkLocalUnicast ip then IP_String ip @ ''%'' @ ifname else IP_String ip)
          in map_sum id (Cons (JoinHostPort host port)) (if_addrs ifname port vs))"

definition ParseAddr :: "sysenv \<Rightarrow> string \<Rightarrow> nat \<Rightarrow> addr_error + string list" where
  "ParseAddr E addr defaultPort =
     (case addr of
        [] \<Rightarrow> Inl (AddrPanic IndexOutOfRange)
      | c # _ \<Rightarrow>
          let addr = (if c \<noteq> CHR ''['' \<and> Count CHR '':'' addr > 1
                      then ''['' @ addr @ '']:'' @ fmt_d defaultPort else addr);
              addr = (if \<not> has_port addr then addr @ '':'' @ fmt_d defaultPort else addr);
              split = SplitN2 CHR '':'' addr;
              name = split ! 0; port = split ! 1
          in case InterfaceByName E name of
               None \<Rightarrow> Inr [addr]
             | Some netif \<Rightarrow>
                 (case If_Addrs netif of
                    Inl err \<Rightarrow> Inl (AddrErr (''Error getting interface addresses: '' @ err))
                  | Inr ifaddrs \<Rightarrow> if_addrs (If_Name netif) port ifaddrs))"

section \<open>urlreader.go\<close>

definition UrlOpen :: "sysenv \<Rightarrow> string \<Rightarrow> string + reader" where
  "UrlOpen E arg =
     (case url_Parse E arg of
        Inl err \<Rightarrow> Inl (''Couldnt parse URL <'' @ arg @ ''> '' @ err)
      | Inr (scheme, path) \<Rightarrow>
          if scheme = '''' then os_Open E arg
          else if scheme = ''http'' \<or> scheme = ''https'' then
            (case http_Get E arg of
               Inl err \<Rightarrow> Inl (''Error fetching URL <'' @ arg @ ''>: '' @ err)
             | Inr (status, body) \<Rightarrow> Inr body)
          else if scheme = ''file'' then os_Open E path
          else Inl (''Invalid URL scheme: '' @ arg @ '' (http/https/file supported)''))"

text \<open>
  \<^verbatim>\<open>bufio.Scanner\<close> with \<^verbatim>\<open>ScanLines\<close>: the lines without their newline and a carriage return before it;
  text after the last newline is a line if it is not empty. A line of 64 KB or more ends the scan.
\<close>

definition newline :: char where "newline = char_of (10 :: nat)"
definition carriage :: char where "carriage = char_of (13 :: nat)"

definition dropCR :: "string \<Rightarrow> string" where
  "dropCR s = (if s \<noteq> [] \<and> last s = carriage then butlast s else s)"

definition raw_lines :: "string \<Rightarrow> string list" where
  "raw_lines s = (let ls = Split newline s in if last ls = [] then butlast ls else ls)"

abbreviation MaxScanTokenSize :: nat where "MaxScanTokenSize \<equiv> 65536"

fun scan_lines :: "('s \<Rightarrow> string \<Rightarrow> 's \<times> string option) \<Rightarrow> string option \<Rightarrow> string list \<Rightarrow> 's \<Rightarrow> nat \<Rightarrow> 's \<times> nat \<times> string option" where
  "scan_lines f rerr [] s cnt =
     (case rerr of Some err \<Rightarrow> (s, cnt, Some (''Scanner Error: '' @ err)) | None \<Rightarrow> (s, cnt, None))"
| "scan_lines f rerr (l # ls) s cnt =
     (if length l \<ge> MaxScanTokenSize then (s, cnt, Some ''Scanner Error: bufio.Scanner: token too long'')
      else case f s (dropCR l) of
             (s, Some err) \<Rightarrow> (s, cnt, Some (''Error calling line function: '' @ err))
           | (s, None) \<Rightarrow> scan_lines f rerr ls s (cnt + 1))"

definition LineReader :: "reader \<Rightarrow> ('s \<Rightarrow> string \<Rightarrow> 's \<times> string option) \<Rightarrow> 's \<Rightarrow> 's \<times> nat \<times> string option" where
  "LineReader r f s = scan_lines f (read_err r) (raw_lines (content r)) s 0"

definition URLReader :: "sysenv \<Rightarrow> string \<Rightarrow> ('s \<Rightarrow> string \<Rightarrow> 's \<times> string option) \<Rightarrow> 's \<Rightarrow> 's \<times> nat \<times> string option" where
  "URLReader E url f s =
     (case UrlOpen E url of
        Inl err \<Rightarrow> (s, 0, Some err)
      | Inr r \<Rightarrow> LineReader r f s)"

section \<open>user\_unix.go\<close>

text \<open>\<^verbatim>\<open>strconv.Atoi\<close> on a 64-bit machine.\<close>

definition Atoi :: "string \<Rightarrow> int option" where
  "Atoi s =
     (let (neg, ds) = (case s of c # cs \<Rightarrow> if c = CHR ''-'' then (True, cs) else if c = CHR ''+'' then (False, cs) else (False, s)
                       | [] \<Rightarrow> (False, []));
          n = (if neg then - int (dec_value ds) else int (dec_value ds))
      in if ds = [] \<or> \<not> list_all is_digit ds then None
         else if - 9223372036854775808 \<le> n \<and> n < 9223372036854775808 then Some n else None)"

definition GetIdFromString :: "sysenv \<Rightarrow> string \<Rightarrow> string + int \<times> int" where
  "GetIdFromString E s =
     (case (case user_Lookup E s of Some u \<Rightarrow> Some u | None \<Rightarrow> user_LookupId E s) of
        None \<Rightarrow> Inl (''Invalid user: '' @ s)
      | Some (uid, gid) \<Rightarrow>
          (case Atoi uid of
             None \<Rightarrow> Inl (''Invalid user: '' @ s)
           | Some u \<Rightarrow> (case Atoi gid of None \<Rightarrow> Inl (''Invalid group: '' @ s) | Some g \<Rightarrow> Inr (u, g))))"

definition GetGidFromString :: "sysenv \<Rightarrow> string \<Rightarrow> string + int" where
  "GetGidFromString E s =
     (case (case user_LookupGroup E s of Some g \<Rightarrow> Some g | None \<Rightarrow> user_LookupGroupId E s) of
        None \<Rightarrow> Inl (''Invalid group: '' @ s)
      | Some gid \<Rightarrow> (case Atoi gid of None \<Rightarrow> Inl (''Invalid group: '' @ s) | Some g \<Rightarrow> Inr g))"

definition SplitId :: "sysenv \<Rightarrow> string \<Rightarrow> string + int \<times> int" where
  "SplitId E s =
     (case Split CHR '':'' s of
        [u] \<Rightarrow> GetIdFromString E u
      | [u, g] \<Rightarrow>
          (case GetIdFromString E u of
             Inl err \<Rightarrow> Inl err
           | Inr (uid, _) \<Rightarrow> (case GetGidFromString E g of Inl err \<Rightarrow> Inl err | Inr gid \<Rightarrow> Inr (uid, gid)))
      | _ \<Rightarrow> Inl (''Invalid uid:gid - '' @ s))"

section \<open>multiflag.go\<close>

type_synonym MultiFlag = "string list"

definition MultiFlag_String :: "MultiFlag \<Rightarrow> string" where
  "MultiFlag_String f = Join '','' f"

definition MultiFlag_Set :: "MultiFlag \<Rightarrow> string \<Rightarrow> MultiFlag" where
  "MultiFlag_Set f value = f @ [value]"

section \<open>jsonrpc.go\<close>

text \<open>
  JSON text is abstract: \<open>encode\<close> is \<^verbatim>\<open>json.Marshal\<close> of the request, \<open>post\<close> the HTTP exchange (status
  code, status line, body), \<open>envelope\<close>, \<open>dec_error\<close> and \<open>dec_result\<close> the three uses of
  \<^verbatim>\<open>json.Unmarshal\<close>. A raw member that is absent or null is None.
\<close>

record 'p JsonRpcReq =
  JsonRpc :: string
  Req_Id :: int
  Req_Method :: string
  Params :: 'p

record JsonRpcError =
  Code :: int
  Err_Message :: string
  Err_Data :: string

record 'j JsonRpcResp =
  Resp_Id :: int
  Resp_Error :: "'j option"
  Result :: "'j option"

definition fmt_int :: "int \<Rightarrow> string" where
  "fmt_int n = (if n < 0 then ''-'' @ fmt_d (nat (- n)) else fmt_d (nat n))"

definition JsonRpcEncoder :: "('p JsonRpcReq \<Rightarrow> string + string) \<Rightarrow> int \<Rightarrow> string \<Rightarrow> 'p \<Rightarrow> (string + string) \<times> int" where
  "JsonRpcEncoder encode ident method params =
     (encode \<lparr>JsonRpc = ''2.0'', Req_Id = ident, Req_Method = method, Params = params\<rparr>, ident)"

definition JsonRpcRequest :: "('p JsonRpcReq \<Rightarrow> string + string) \<Rightarrow> (string \<Rightarrow> string \<Rightarrow> string + int \<times> string \<times> (string + string)) \<Rightarrow>
    (string \<Rightarrow> string + 'j JsonRpcResp) \<Rightarrow> ('j \<Rightarrow> string + JsonRpcError) \<Rightarrow> ('j \<Rightarrow> string + 't) \<Rightarrow>
    int \<Rightarrow> string \<Rightarrow> string \<Rightarrow> 'p \<Rightarrow> string + 't" where
  "JsonRpcRequest encode post envelope dec_error dec_result rnd endpoint method params =
     (case JsonRpcEncoder encode rnd method params of
        (Inl err, ident) \<Rightarrow> Inl err
      | (Inr b, ident) \<Rightarrow>
          (case post endpoint b of
             Inl err \<Rightarrow> Inl err
           | Inr (code, status, body) \<Rightarrow>
               if code \<noteq> 200 then Inl status
               else (case body of
                  Inl err \<Rightarrow> Inl err
                | Inr body \<Rightarrow>
                    (case envelope body of
                       Inl err \<Rightarrow> Inl err
                     | Inr resp \<Rightarrow>
                         if Resp_Id resp \<noteq> ident then
                           Inl (''JSON-RPC: Invalid Id ('' @ fmt_int ident @ ''/'' @ fmt_int (Resp_Id resp) @ '')'')
                         else (case Resp_Error resp of
                            Some e \<Rightarrow>
                              (case dec_error e of
                                 Inl err \<Rightarrow> Inl err
                               | Inr e \<Rightarrow> Inl (''JSON-RPC: '' @ fmt_int (Code e) @ '' ['' @ Err_Message e @ ''] ['' @ Err_Data e @ '']''))
                          | None \<Rightarrow>
                              (case Result resp of
                                 None \<Rightarrow> Inl ''JSON-RPC: Nil Response''
                               | Some r \<Rightarrow> dec_result r))))))"

section \<open>A machine for the witnesses\<close>

definition sample_env :: sysenv where
  "sample_env = \<lparr>
     InterfaceByName = (\<lambda>n. if n = ''lo'' then Some \<lparr>If_Name = ''lo'', If_Addrs = Inr [''127.0.0.1/8'', ''::1/128'', ''fe80::1/64'']\<rparr> else None),
     url_Parse = (\<lambda>s. Inr ('''', s)),
     os_Open = (\<lambda>p. if p = ''list.txt'' then
         Inr \<lparr>content = ''# ads'' @ [newline] @ ''x.local'' @ [carriage, newline] @ ''y.local:A'', read_err = None\<rparr>
       else Inl ''no such file''),
     http_Get = (\<lambda>u. Inl ''no network''),
     user_Lookup = (\<lambda>s. if s = ''nobody'' then Some (''65534'', ''65534'') else None),
     user_LookupId = (\<lambda>s. None),
     user_LookupGroup = (\<lambda>s. None),
     user_LookupGroupId = (\<lambda>s. None),
     Getuid = 0,
     ParseDuration = (\<lambda>s. Inl ''invalid duration''),
     ZoneParser = (\<lambda>r. ([], None))\<rparr>"

section \<open>Properties\<close>

lemma has_port_append: "ds \<noteq> [] \<Longrightarrow> list_all is_digit ds \<Longrightarrow> has_port (s @ CHR '':'' # ds)"
proof -
  assume ds: "ds \<noteq> []" "list_all is_digit ds"
  have colon: "\<not> is_digit CHR '':''" by (simp add: is_digit_def)
  have "takeWhile is_digit (rev ds @ CHR '':'' # rev s) = rev ds" "dropWhile is_digit (rev ds @ CHR '':'' # rev s) = CHR '':'' # rev s"
    using ds(2) colon by (auto simp: list_all_iff takeWhile_append dropWhile_append)
  then show ?thesis using ds(1) by (simp add: has_port_def)
qed

lemma has_port_no_colon: "CHR '':'' \<notin> set s \<Longrightarrow> \<not> has_port s"
proof
  assume s: "CHR '':'' \<notin> set s" "has_port s"
  then have "dropWhile is_digit (rev s) \<noteq> []" "hd (dropWhile is_digit (rev s)) = CHR '':''" by (simp_all add: has_port_def Let_def)
  then have "CHR '':'' \<in> set (dropWhile is_digit (rev s))" by (metis hd_in_set)
  then have "CHR '':'' \<in> set (rev s)" by (rule set_dropWhileD)
  then show False using s(1) by simp
qed

lemma digits_no_colon: "list_all is_digit ds \<Longrightarrow> CHR '':'' \<notin> set ds \<and> CHR ''['' \<notin> set ds \<and> CHR '']'' \<notin> set ds"
  by (auto simp: list_all_iff is_digit_def)

lemma fmt_d_list_all: "list_all is_digit (fmt_d n)"
  using fmt_d_digits by (auto simp: list_all_iff)

lemma LastIndexByte_append: "c \<notin> set t \<Longrightarrow> LastIndexByte c (s @ c # t) = Some (length s)"
proof -
  assume "c \<notin> set t"
  then have "takeWhile (\<lambda>x. x \<noteq> c) (rev t @ c # rev s) = rev t" by (auto simp: takeWhile_append)
  then show ?thesis by (simp add: LastIndexByte_def)
qed

lemma SplitHostPort_plain:
  assumes "list_all is_digit ds" "set host \<inter> {CHR '':'', CHR ''['', CHR '']''} = {}"
  shows "SplitHostPort (host @ CHR '':'' # ds) = Some (host, ds)"
proof -
  have "hd (host @ CHR '':'' # ds) \<noteq> CHR ''[''" using assms(2) by (cases host) auto
  then show ?thesis
    using assms digits_no_colon [OF assms(1)] by (auto simp: SplitHostPort_def LastIndexByte_append)
qed

lemma SplitHostPort_bracketed:
  assumes "list_all is_digit ds" "set host \<inter> {CHR ''['', CHR '']''} = {}"
  shows "SplitHostPort (''['' @ host @ '']:'' @ ds) = Some (host, ds)"
proof -
  have eq: "''['' @ host @ '']:'' @ ds = (CHR ''['' # host @ '']'') @ CHR '':'' # ds" by simp
  have "takeWhile (\<lambda>x. x \<noteq> CHR '']'') (host @ CHR '']'' # CHR '':'' # ds) = host" using assms(2) by (auto simp: takeWhile_append)
  then have "IndexByte CHR '']'' (CHR ''['' # host @ CHR '']'' # CHR '':'' # ds) = Some (Suc (length host))"
    by (simp add: IndexByte_def)
  then show ?thesis
    using assms digits_no_colon [OF assms(1)] LastIndexByte_append [of "CHR '':''" ds "CHR ''['' # host @ '']''"]
    unfolding eq by (simp add: SplitHostPort_def)
qed

lemma Count_pos: "Count c s \<noteq> 0 \<longleftrightarrow> c \<in> set s"
  by (auto simp: Count_def filter_empty_conv)

text \<open>
  Listen addresses: for a text that is not an interface's name, \<^verbatim>\<open>ParseAddr\<close> returns one address that
  \<^verbatim>\<open>SplitHostPort\<close> takes apart into the host and the port: a host without a colon gets the default port,
  a host with a port keeps it, and a bare IPv6 address, one with two colons or more, is bracketed and gets
  the default port.
\<close>

theorem ParseAddr_splits:
  assumes "\<And>n. InterfaceByName E n = None" "host \<noteq> []" "set host \<inter> {CHR ''['', CHR '']''} = {}"
    "ds \<noteq> []" "list_all is_digit ds"
  shows "\<exists>a. (CHR '':'' \<notin> set host \<longrightarrow>
        ParseAddr E host port = Inr [a] \<and> SplitHostPort a = Some (host, fmt_d port)) \<and>
      (CHR '':'' \<notin> set host \<longrightarrow> ParseAddr E (host @ '':'' @ ds) port = Inr [host @ '':'' @ ds] \<and>
        SplitHostPort (host @ '':'' @ ds) = Some (host, ds)) \<and>
      (1 < Count CHR '':'' host \<longrightarrow> ParseAddr E host port = Inr [a] \<and> SplitHostPort a = Some (host, fmt_d port))"
proof -
  have hd: "host = c # cs \<Longrightarrow> c \<noteq> CHR ''[''" for c cs using assms(3) by auto
  note port = fmt_d_list_all [of port]
  show ?thesis
  proof (cases "CHR '':'' \<in> set host")
    case False
    then have "Count CHR '':'' host = 0" "Count CHR '':'' (host @ '':'' @ ds) = 1"
      using Count_pos [of "CHR '':''"] digits_no_colon [OF assms(5)] by (auto simp: Count_def filter_empty_conv)
    moreover have "SplitHostPort (host @ '':'' @ fmt_d port) = Some (host, fmt_d port)" "SplitHostPort (host @ '':'' @ ds) = Some (host, ds)"
      using SplitHostPort_plain [OF port, of host] SplitHostPort_plain [OF assms(5), of host] assms(3) False by auto
    ultimately show ?thesis
      using assms(1,2) has_port_no_colon [OF False] has_port_append [OF assms(4,5), of host]
      by (intro exI [of _ "host @ '':'' @ fmt_d port"]) (auto simp: ParseAddr_def Let_def neq_Nil_conv)
  next
    case True
    let ?a = "''['' @ host @ '']:'' @ fmt_d port"
    have "has_port ?a" using has_port_append [OF fmt_d_not_Nil port, of "CHR ''['' # host @ '']''"] by simp
    then have "1 < Count CHR '':'' host \<longrightarrow> ParseAddr E host port = Inr [?a]"
      using assms(1,2) hd by (auto simp: ParseAddr_def Let_def neq_Nil_conv)
    then show ?thesis using True SplitHostPort_bracketed [OF port assms(3)] by (intro exI [of _ ?a]) simp
  qed
qed

theorem ParseAddr_splits_witness:
  "\<exists>a. ParseAddr (sample_env\<lparr>InterfaceByName := \<lambda>n. None\<rparr>) ''2001:db8::1'' 53 = Inr [a] \<and> SplitHostPort a = Some (''2001:db8::1'', fmt_d 53)"
  using ParseAddr_splits [of "sample_env\<lparr>InterfaceByName := \<lambda>n. None\<rparr>" "''2001:db8::1''" "''5''" 53]
  by (simp add: is_digit_def Count_def)

end
