(* ===== verification/Logger.thy ===== *)
theory Logger
  imports Prelude_Go
begin

text \<open>
  Package \<^verbatim>\<open>logger\<close>: a handler is four standard loggers, one for each level. What a call emits is the
  list of lines with the sink each goes to; \<open>stamp\<close> is the date and time a standard logger puts before
  a line. Formatting the arguments is the caller's: a call gets the finished text. A fatal call emits
  and exits.
\<close>

datatype Level = LDebug | LInfo | LError | LFatal

text \<open>The priorities are those the sources use; the facility is always \<^verbatim>\<open>LOG_SYSLOG\<close>.\<close>

datatype sink = Stderr | Discard | Syslog Level

record std_logger =
  lg_sink :: sink
  lg_prefix :: string
  lg_stamped :: bool

record LogHandler =
  H_Debug :: std_logger
  H_Info :: std_logger
  H_Error :: std_logger
  H_Fatal :: std_logger

definition log_New :: "sink \<Rightarrow> string \<Rightarrow> bool \<Rightarrow> std_logger" where
  "log_New s pfx stamped = \<lparr>lg_sink = s, lg_prefix = pfx, lg_stamped = stamped\<rparr>"

definition NewStderr :: "bool \<Rightarrow> LogHandler" where
  "NewStderr debug =
     (let debugLog = (if debug then log_New Stderr ''DEBUG: '' True else log_New Discard ''DEBUG: '' True)
      in \<lparr>H_Debug = debugLog, H_Info = log_New Stderr ''INFO: '' True, H_Error = log_New Stderr ''ERROR: '' True,
          H_Fatal = log_New Stderr ''FATAL: '' True\<rparr>)"

definition NewDiscard :: "bool \<Rightarrow> LogHandler" where
  "NewDiscard debug =
     \<lparr>H_Debug = log_New Discard ''DEBUG: '' True, H_Info = log_New Discard ''INFO: '' True,
      H_Error = log_New Discard ''ERROR: '' True, H_Fatal = log_New Discard ''FATAL: '' True\<rparr>"

text \<open>\<open>dial\<close> says whether \<^verbatim>\<open>syslog.New\<close> fails for a priority; the program exits on the first failure.\<close>

definition NewSyslog :: "(Level \<Rightarrow> string option) \<Rightarrow> bool \<Rightarrow> string + LogHandler" where
  "NewSyslog dial debug =
     (case List.map_filter dial [LDebug, LInfo, LError, LFatal] of
        err # _ \<Rightarrow> Inl (''Cant connect to syslog: '' @ err)
      | [] \<Rightarrow>
          let logger = (\<lambda>l. log_New (Syslog l) '''' False);
              debugLog = (if \<not> debug then log_New Discard ''DEBUG: '' True else logger LDebug)
          in Inr \<lparr>H_Debug = debugLog, H_Info = logger LInfo, H_Error = logger LError, H_Fatal = logger LFatal\<rparr>)"

record Logger =
  Handler :: LogHandler

definition Logger_New :: "LogHandler \<Rightarrow> Logger" where
  "Logger_New handler = \<lparr>Handler = handler\<rparr>"

text \<open>With \<^verbatim>\<open>Lmsgprefix\<close> the prefix follows the date.\<close>

definition log_Print :: "string \<Rightarrow> std_logger \<Rightarrow> string \<Rightarrow> (sink \<times> string) list" where
  "log_Print stamp l text =
     (if lg_sink l = Discard then []
      else [(lg_sink l, (if lg_stamped l then stamp else '''') @ lg_prefix l @ text)])"

definition Logger_Debug :: "string \<Rightarrow> Logger \<Rightarrow> string \<Rightarrow> (sink \<times> string) list" where
  "Logger_Debug stamp l v = log_Print stamp (H_Debug (Handler l)) v"

definition Logger_Info :: "string \<Rightarrow> Logger \<Rightarrow> string \<Rightarrow> (sink \<times> string) list" where
  "Logger_Info stamp l v = log_Print stamp (H_Info (Handler l)) v"

definition Logger_Print :: "string \<Rightarrow> Logger \<Rightarrow> string \<Rightarrow> (sink \<times> string) list" where
  "Logger_Print stamp l v = log_Print stamp (H_Info (Handler l)) v"

definition Logger_Error :: "string \<Rightarrow> Logger \<Rightarrow> string \<Rightarrow> (sink \<times> string) list" where
  "Logger_Error stamp l v = log_Print stamp (H_Error (Handler l)) v"

text \<open>The second component is the exit status.\<close>

definition Logger_Fatal :: "string \<Rightarrow> Logger \<Rightarrow> string \<Rightarrow> (sink \<times> string) list \<times> int" where
  "Logger_Fatal stamp l v = (log_Print stamp (H_Fatal (Handler l)) v, 1)"

text \<open>
  What is logged where: debug lines appear only when debugging is on, a discarding logger emits
  nothing at any level, and otherwise information and errors always appear exactly once, with syslog
  at the priority of their level.
\<close>

theorem logger_levels:
  shows "(Logger_Debug stamp (Logger_New (NewStderr debug)) v \<noteq> [] \<longleftrightarrow> debug) \<and>
    Logger_Debug stamp (Logger_New (NewDiscard debug)) v = [] \<and> Logger_Info stamp (Logger_New (NewDiscard debug)) v = [] \<and>
    Logger_Error stamp (Logger_New (NewDiscard debug)) v = [] \<and> fst (Logger_Fatal stamp (Logger_New (NewDiscard debug)) v) = [] \<and>
    Logger_Print stamp (Logger_New (NewStderr debug)) v = [(Stderr, stamp @ ''INFO: '' @ v)] \<and>
    (NewSyslog (\<lambda>_. None) debug = Inr h \<longrightarrow>
       (Logger_Debug stamp (Logger_New h) v = (if debug then [(Syslog LDebug, v)] else [])) \<and>
       Logger_Info stamp (Logger_New h) v = [(Syslog LInfo, v)] \<and> Logger_Error stamp (Logger_New h) v = [(Syslog LError, v)])"
  by (auto simp: Logger_Debug_def Logger_Info_def Logger_Error_def Logger_Fatal_def Logger_Print_def Logger_New_def
      NewStderr_def NewDiscard_def NewSyslog_def log_Print_def log_New_def List.map_filter_def Let_def)

theorem logger_levels_witness:
  "\<exists>h. NewSyslog (\<lambda>_. None) False = Inr h \<and> Logger_Debug ''now '' (Logger_New h) ''x'' = []"
proof -
  obtain h where "NewSyslog (\<lambda>_. None) False = Inr h" by (simp add: NewSyslog_def List.map_filter_def)
  then show ?thesis using logger_levels [of "''now ''" False "''x''" h] by auto
qed

end
