(* ===== verification/Config.thy ===== *)
theory Config
  imports Blocklist Cache Stats Resolver Util Logger
begin

text \<open>
  Package \<^verbatim>\<open>config\<close>: the options a user gives (\<open>UserConfig\<close>), the state the proxy runs on
  (\<open>ProxyConfig\<close>), and the translation of the one into the other. \<open>GetProxyConfig\<close> is the
  composition of one function for each paragraph of the source. An error leaves the program, so only
  the outcome is kept: the text of the error, a panic, or an exit by \<^verbatim>\<open>log.Fatal\<close>.
\<close>

section \<open>config.go\<close>

record UserConfig =
  Listen :: "string list"
  U_Upstream :: "string list"
  U_Acl :: "string list"
  Block :: "string list"
  BlockDelete :: "string list"
  U_Blocklist :: "string list"
  BlocklistAAAA :: "string list"
  BlocklistFromHosts :: "string list"
  LocalRR :: "string list"
  LocalRRPtr :: "string list"
  Localzone :: "string list"
  U_Dns64 :: bool
  U_Dns64Prefix :: string
  U_Api :: bool
  U_ApiBind :: string
  U_Doh :: "string list"
  U_DohCert :: string
  U_DohKey :: string
  U_DohPath :: string
  U_Refresh :: bool
  U_RefreshInterval :: string
  U_Debug :: bool
  U_Syslog :: bool
  U_Discard :: bool
  U_Setuid :: string

definition NewUserConfig :: UserConfig where
  "NewUserConfig = \<lparr>Listen = [], U_Upstream = [], U_Acl = [], Block = [], BlockDelete = [], U_Blocklist = [],
     BlocklistAAAA = [], BlocklistFromHosts = [], LocalRR = [], LocalRRPtr = [], Localzone = [], U_Dns64 = False,
     U_Dns64Prefix = '''', U_Api = False, U_ApiBind = '''', U_Doh = [], U_DohCert = '''', U_DohKey = '''',
     U_DohPath = '''', U_Refresh = False, U_RefreshInterval = '''', U_Debug = False, U_Syslog = False,
     U_Discard = False, U_Setuid = ''''\<rparr>"

text \<open>Times and durations are nanoseconds; the zero time of \<open>BlockPauseUntil\<close> is None.\<close>

record ProxyConfig =
  ListenAddr :: "string list"
  Upstream :: "Resolver list"
  UpstreamErr :: int
  P_Cache :: DNSCache
  CacheFlush :: int
  P_BlockList :: BlockList
  BlockPauseUntil :: "int option"
  P_Acl :: "IPNet list"
  Dns64 :: bool
  Dns64Prefix :: IPNet
  Api :: bool
  ApiBind :: string
  DohBind :: "string list"
  DohCert :: string
  DohKey :: string
  DohPath :: string
  StatsHandler :: "nat stats"
  Refresh :: bool
  RefreshInterval :: int
  Log :: Logger
  P_UserConfig :: "UserConfig option"
  Setuid :: bool
  SetuidUid :: int
  SetuidGid :: int

definition NewProxyConfig :: "ProxyConfig go" where
  "NewProxyConfig = map_sum id (\<lambda>stats.
     \<lparr>ListenAddr = [], Upstream = [], UpstreamErr = 0, P_Cache = Cache_New, CacheFlush = 30 * Second,
      P_BlockList = BlockList_New, BlockPauseUntil = None, P_Acl = [], Dns64 = False,
      Dns64Prefix = \<lparr>NetIP = ParseIP ''64:ff9b::'', NetMask = CIDRMask 96 128\<rparr>,
      Api = False, ApiBind = ''127.0.0.1:8553'', DohBind = [], DohCert = '''', DohKey = '''', DohPath = ''/dns-query'',
      StatsHandler = stats, Refresh = False, RefreshInterval = 86400 * Second, Log = Logger_New (NewStderr False),
      P_UserConfig = None, Setuid = False, SetuidUid = 0, SetuidGid = 0\<rparr>) (Stats_New 1000)"

section \<open>userconfig.go\<close>

datatype cfg_error = CfgErr string | CfgPanic go_panic | CfgFatal string

primrec bl_error_String :: "bl_error \<Rightarrow> string" where
  "bl_error_String (InvalidQtype n t) = ''Invalid qtype: '' @ n @ '':'' @ t"
| "bl_error_String (InvalidEntry s) = ''Invalid blocklist entry: '' @ s"
| "bl_error_String (InvalidHosts s) = ''Invalid hosts entry: '' @ s"

definition line_fun :: "(BlockList \<Rightarrow> string \<Rightarrow> bl_error + BlockList) \<Rightarrow> BlockList \<Rightarrow> string \<Rightarrow> BlockList \<times> string option" where
  "line_fun f b line = (case f b line of Inl e \<Rightarrow> (b, Some (bl_error_String e)) | Inr b \<Rightarrow> (b, None))"

definition load_url :: "sysenv \<Rightarrow> (BlockList \<Rightarrow> string \<Rightarrow> bl_error + BlockList) \<Rightarrow> BlockList \<Rightarrow> string \<Rightarrow> cfg_error + BlockList" where
  "load_url E f b url =
     (case URLReader E url (line_fun f) b of
        (b, cnt, Some err) \<Rightarrow> Inl (CfgErr err)
      | (b, cnt, None) \<Rightarrow> Inr b)"

definition UpdateBlockList :: "dns_lib \<Rightarrow> sysenv \<Rightarrow> UserConfig \<Rightarrow> BlockList \<Rightarrow> cfg_error + BlockList" where
  "UpdateBlockList D E uc bl =
     and_then (try_fold (\<lambda>b v. map_sum (\<lambda>e. CfgErr (bl_error_String e)) id (AddEntry D b v TypeANY)) bl (Block uc)) (\<lambda>bl.
     and_then (try_fold (load_url E (MakeBlockListReaderf D TypeANY)) bl (U_Blocklist uc)) (\<lambda>bl.
     and_then (try_fold (load_url E (MakeBlockListReaderf D TypeAAAA)) bl (BlocklistAAAA uc)) (\<lambda>bl.
     and_then (try_fold (load_url E (MakeBlockListHostsReaderf D)) bl (BlocklistFromHosts uc)) (\<lambda>bl.
     try_fold (\<lambda>b v. map_sum CfgPanic snd (BlockList_DeleteTree b v)) bl (BlockDelete uc)))))"

definition lift_addr :: "addr_error + 'a \<Rightarrow> cfg_error + 'a" where
  "lift_addr = map_sum (\<lambda>e. case e of AddrPanic p \<Rightarrow> CfgPanic p | AddrErr s \<Rightarrow> CfgErr s) id"

definition set_Listen :: "sysenv \<Rightarrow> UserConfig \<Rightarrow> ProxyConfig \<Rightarrow> cfg_error + ProxyConfig" where
  "set_Listen E uc config =
     try_fold (\<lambda>c v. and_then (lift_addr (ParseAddr E v 53)) (\<lambda>addrs. Inr (c\<lparr>ListenAddr := ListenAddr c @ addrs\<rparr>)))
       config (Listen uc)"

definition new_upstream :: "string \<Rightarrow> Resolver" where
  "new_upstream v =
     (if HasPrefix v ''https://'' then DOH (NewDohResolver v)
      else if HasPrefix v ''tls://'' then DOT (NewDotResolver (if \<not> has_port v then v @ '':853'' else v))
      else UDP (NewUdpResolver (if \<not> has_port v then v @ '':53'' else v)))"

definition set_Upstream :: "UserConfig \<Rightarrow> ProxyConfig \<Rightarrow> ProxyConfig" where
  "set_Upstream uc config = config\<lparr>Upstream := Upstream config @ map new_upstream (U_Upstream uc)\<rparr>"

text \<open>Each record added reads the clock up to four times: reading \<open>k\<close> on.\<close>

fun add_records :: "dns_lib \<Rightarrow> bool \<Rightarrow> (nat \<Rightarrow> int) \<Rightarrow> nat \<Rightarrow> DNSCache \<Rightarrow> string list \<Rightarrow> cfg_error + DNSCache" where
  "add_records D ptr clk k c [] = Inr c"
| "add_records D ptr clk k c (v # vs) =
     (case AddRRString D c v True ptr (\<lambda>i. clk (k + i)) of
        Inl err \<Rightarrow> Inl (CfgErr err)
      | Inr c \<Rightarrow> add_records D ptr clk (k + 4) c vs)"

fun add_zone :: "dns_lib \<Rightarrow> (nat \<Rightarrow> int) \<Rightarrow> nat \<Rightarrow> DNSCache \<Rightarrow> RR list \<Rightarrow> DNSCache" where
  "add_zone D clk k c [] = c"
| "add_zone D clk k c (rr # rrs) = add_zone D clk (k + 2) (AddRR D c (Some rr) True (clk k) (clk (k + 1))) rrs"

fun add_zones :: "dns_lib \<Rightarrow> sysenv \<Rightarrow> (nat \<Rightarrow> int) \<Rightarrow> nat \<Rightarrow> DNSCache \<Rightarrow> string list \<Rightarrow> cfg_error + DNSCache" where
  "add_zones D E clk k c [] = Inr c"
| "add_zones D E clk k c (v # vs) =
     (case UrlOpen E v of
        Inl err \<Rightarrow> Inl (CfgErr err)
      | Inr f \<Rightarrow>
          (case ZoneParser E f of
             (rrs, Some err) \<Rightarrow> Inl (CfgErr err)
           | (rrs, None) \<Rightarrow> add_zones D E clk (k + 2 * length rrs) (add_zone D clk k c rrs) vs))"

definition set_Local :: "dns_lib \<Rightarrow> sysenv \<Rightarrow> (nat \<Rightarrow> int) \<Rightarrow> UserConfig \<Rightarrow> ProxyConfig \<Rightarrow> cfg_error + ProxyConfig" where
  "set_Local D E clk uc config =
     (let k1 = 4 * length (LocalRR uc); k2 = k1 + 4 * length (LocalRRPtr uc)
      in and_then (add_records D False clk 0 (P_Cache config) (LocalRR uc)) (\<lambda>c.
         and_then (add_records D True clk k1 c (LocalRRPtr uc)) (\<lambda>c.
         and_then (add_zones D E clk k2 c (Localzone uc)) (\<lambda>c.
         Inr (config\<lparr>P_Cache := c\<rparr>)))))"

definition set_Acl :: "UserConfig \<Rightarrow> ProxyConfig \<Rightarrow> cfg_error + ProxyConfig" where
  "set_Acl uc config =
     try_fold (\<lambda>c v. case ParseCIDR v of
          None \<Rightarrow> Inl (CfgErr (''ACL Error ('' @ v @ ''): invalid CIDR address: '' @ v))
        | Some (_, cidr) \<Rightarrow> Inr (c\<lparr>P_Acl := P_Acl c @ [cidr]\<rparr>))
       config (U_Acl uc)"

definition set_Dns64 :: "UserConfig \<Rightarrow> ProxyConfig \<Rightarrow> cfg_error + ProxyConfig" where
  "set_Dns64 uc config =
     (if U_Dns64 uc then
        let config = config\<lparr>Dns64 := True\<rparr>; pfx = U_Dns64Prefix uc
        in if pfx \<noteq> '''' then
             (case ParseCIDR pfx of
                None \<Rightarrow> Inl (CfgErr (''Dns64 Prefix Error ('' @ pfx @ ''): invalid CIDR address: '' @ pfx))
              | Some (_, ipv6Net) \<Rightarrow>
                  if Mask_Size (NetMask ipv6Net) \<noteq> (96, 128) then
                    Inl (CfgErr (''Dns64 Prefix Error ('' @ pfx @ ''): Invalid prefix''))
                  else Inr (config\<lparr>Dns64Prefix := ipv6Net\<rparr>))
           else Inr config
      else Inr config)"

definition set_Api_Doh :: "sysenv \<Rightarrow> UserConfig \<Rightarrow> ProxyConfig \<Rightarrow> cfg_error + ProxyConfig" where
  "set_Api_Doh E uc config =
     (let config = config\<lparr>Api := U_Api uc\<rparr>;
          config = (if U_ApiBind uc \<noteq> '''' then config\<lparr>ApiBind := U_ApiBind uc\<rparr> else config)
      in and_then (try_fold (\<lambda>c v. and_then (lift_addr (ParseAddr E v 443)) (\<lambda>addrs. Inr (c\<lparr>DohBind := DohBind c @ addrs\<rparr>)))
           config (U_Doh uc)) (\<lambda>config.
         let config = config\<lparr>DohCert := U_DohCert uc, DohKey := U_DohKey uc\<rparr>
         in Inr (if U_DohPath uc \<noteq> '''' then config\<lparr>DohPath := U_DohPath uc\<rparr> else config)))"

text \<open>\<open>fmt_dur\<close> prints a duration.\<close>

definition set_Refresh :: "sysenv \<Rightarrow> (int \<Rightarrow> string) \<Rightarrow> UserConfig \<Rightarrow> ProxyConfig \<Rightarrow> cfg_error + ProxyConfig" where
  "set_Refresh E fmt_dur uc config =
     (let config = config\<lparr>Refresh := U_Refresh uc\<rparr>
      in if U_RefreshInterval uc \<noteq> '''' then
           (case ParseDuration E (U_RefreshInterval uc) of
              Inl err \<Rightarrow> Inl (CfgErr err)
            | Inr duration \<Rightarrow>
                if duration < Second then Inl (CfgErr (''Invalid duration: '' @ fmt_dur duration))
                else Inr (config\<lparr>RefreshInterval := duration\<rparr>))
         else Inr config)"

definition set_Log :: "(Level \<Rightarrow> string option) \<Rightarrow> UserConfig \<Rightarrow> ProxyConfig \<Rightarrow> cfg_error + ProxyConfig" where
  "set_Log dial uc config =
     (if U_Discard uc then Inr (config\<lparr>Log := Logger_New (NewDiscard False)\<rparr>)
      else if U_Syslog uc then
        (case NewSyslog dial (U_Debug uc) of
           Inl err \<Rightarrow> Inl (CfgFatal err)
         | Inr h \<Rightarrow> Inr (config\<lparr>Log := Logger_New h\<rparr>))
      else Inr (config\<lparr>Log := Logger_New (NewStderr (U_Debug uc))\<rparr>))"

definition set_Setuid :: "sysenv \<Rightarrow> UserConfig \<Rightarrow> ProxyConfig \<Rightarrow> cfg_error + ProxyConfig" where
  "set_Setuid E uc config =
     (if U_Setuid uc \<noteq> '''' then
        if Getuid E \<noteq> 0 then Inl (CfgFatal ''setuid: Must be running as root'')
        else (case SplitId E (U_Setuid uc) of
                Inl err \<Rightarrow> Inl (CfgFatal (''setuid: '' @ err))
              | Inr (uid, gid) \<Rightarrow> Inr (config\<lparr>Setuid := True, SetuidUid := uid, SetuidGid := gid\<rparr>))
      else Inr config)"

definition GetProxyConfig :: "dns_lib \<Rightarrow> sysenv \<Rightarrow> (int \<Rightarrow> string) \<Rightarrow> (Level \<Rightarrow> string option) \<Rightarrow> (nat \<Rightarrow> int) \<Rightarrow>
    UserConfig \<Rightarrow> ProxyConfig \<Rightarrow> cfg_error + ProxyConfig" where
  "GetProxyConfig D E fmt_dur dial clk uc config =
     and_then (set_Listen E uc config) (\<lambda>config.
     let config = set_Upstream uc config
     in and_then (UpdateBlockList D E uc (P_BlockList config)) (\<lambda>bl.
     let config = config\<lparr>P_BlockList := bl\<rparr>
     in and_then (set_Local D E clk uc config) (\<lambda>config.
     and_then (set_Acl uc config) (\<lambda>config.
     and_then (set_Dns64 uc config) (\<lambda>config.
     and_then (set_Api_Doh E uc config) (\<lambda>config.
     and_then (set_Refresh E fmt_dur uc config) (\<lambda>config.
     and_then (set_Log dial uc config) (\<lambda>config.
     and_then (set_Setuid E uc config) (\<lambda>config.
     Inr (config\<lparr>P_UserConfig := Some uc\<rparr>))))))))))"

section \<open>What the loaded blocklist holds\<close>

text \<open>The entry of a line of a list and of a hosts file; comments and blank lines have none.\<close>

definition list_line :: "dns_lib \<Rightarrow> u16 \<Rightarrow> string \<Rightarrow> (string list \<times> u16) option" where
  "list_line D q line =
     (let line = TrimSpace line in if line = [] \<or> line ! 0 = CHR ''#'' then None else parse_entry D q line)"

definition hosts_line :: "dns_lib \<Rightarrow> string \<Rightarrow> (string list \<times> u16) option" where
  "hosts_line D line =
     (let line = TrimSpace line; split = re_split_space3 line
      in if line = [] \<or> line ! 0 = CHR ''#'' \<or> length split = 1 \<or> split ! 0 \<noteq> ''0.0.0.0'' \<or> split ! 1 = ''0.0.0.0''
         then None else parse_entry D TypeANY (split ! 1))"

definition url_lines :: "sysenv \<Rightarrow> string \<Rightarrow> string list" where
  "url_lines E url = (case UrlOpen E url of Inl err \<Rightarrow> [] | Inr r \<Rightarrow> map dropCR (raw_lines (content r)))"

definition entries_of :: "('a \<Rightarrow> 'e option) \<Rightarrow> 'a list \<Rightarrow> 'e set" where
  "entries_of f xs = {e. \<exists>x \<in> set xs. f x = Some e}"

definition configured_entries :: "dns_lib \<Rightarrow> sysenv \<Rightarrow> UserConfig \<Rightarrow> (string list \<times> u16) set" where
  "configured_entries D E uc =
     entries_of (parse_entry D TypeANY) (Block uc) \<union>
     (\<Union>u \<in> set (U_Blocklist uc). entries_of (list_line D TypeANY) (url_lines E u)) \<union>
     (\<Union>u \<in> set (BlocklistAAAA uc). entries_of (list_line D TypeAAAA) (url_lines E u)) \<union>
     (\<Union>u \<in> set (BlocklistFromHosts uc). entries_of (hosts_line D) (url_lines E u))"

text \<open>A step that adds exactly the given entries.\<close>

definition adds :: "BlockList \<Rightarrow> (string list \<times> u16) set \<Rightarrow> BlockList \<Rightarrow> bool" where
  "adds b es b' \<longleftrightarrow> bl_wf b \<longrightarrow> bl_wf b' \<and> bl_entries b' = bl_entries b \<union> es"

lemma adds_trans: "adds b es b1 \<Longrightarrow> adds b1 es' b2 \<Longrightarrow> adds b (es \<union> es') b2"
  by (auto simp: adds_def)

lemma adds_none: "adds b {} b"
  by (simp add: adds_def)

lemma AddEntry_adds:
  assumes "AddEntry D b s q = Inr b'"
  shows "adds b (set_option (parse_entry D q s)) b'"
proof -
  obtain p t where pt: "parse_entry D q s = Some (p, t)" using AddEntry_ok_iff [of D b s q] assms by auto
  with AddEntry_Some [OF pt, of b] assms show ?thesis
    by (auto simp: adds_def bl_wf_def bl_entries_def level_wf_Add level_entries_Add)
qed

lemma Readerf_adds:
  "MakeBlockListReaderf D q b line = Inr b' \<Longrightarrow> adds b (set_option (list_line D q line)) b'"
  by (auto simp: MakeBlockListReaderf_def list_line_def Let_def adds_none AddEntry_adds split: if_splits)

lemma HostsReaderf_adds:
  "MakeBlockListHostsReaderf D b line = Inr b' \<Longrightarrow> adds b (set_option (hosts_line D line)) b'"
  by (auto simp: MakeBlockListHostsReaderf_def AddHostsEntry_def hosts_line_def Let_def adds_none AddEntry_adds split: if_splits)

lemma entries_of_Cons: "entries_of f (x # xs) = set_option (f x) \<union> entries_of f xs"
  by (auto simp: entries_of_def)

lemma scan_lines_adds:
  assumes f: "\<And>b line b'. f b line = Inr b' \<Longrightarrow> adds b (set_option (ent line)) b'"
  shows "scan_lines (line_fun f) rerr ls b cnt = (b', n, None) \<Longrightarrow> adds b (entries_of ent (map dropCR ls)) b'"
proof (induction ls arbitrary: b cnt)
  case Nil
  then show ?case by (auto simp: entries_of_def adds_none split: option.splits)
next
  case (Cons l ls)
  then obtain b1 where b1: "f b (dropCR l) = Inr b1" "scan_lines (line_fun f) rerr ls b1 (cnt + 1) = (b', n, None)"
    by (cases "f b (dropCR l)") (auto simp: line_fun_def [of f b "dropCR l"] split: if_splits)
  show ?case using adds_trans [OF f [OF b1(1)] Cons.IH [OF b1(2)]] by (simp add: entries_of_Cons)
qed

lemma load_url_adds:
  assumes f: "\<And>b line b'. f b line = Inr b' \<Longrightarrow> adds b (set_option (ent line)) b'" and run: "load_url E f b url = Inr b'"
  shows "adds b (entries_of ent (url_lines E url)) b'"
proof -
  obtain n where "URLReader E url (line_fun f) b = (b', n, None)"
    using run by (auto simp: load_url_def split: prod.splits option.splits)
  then obtain r where r: "UrlOpen E url = Inr r" "scan_lines (line_fun f) (read_err r) (raw_lines (content r)) b 0 = (b', n, None)"
    by (auto simp: URLReader_def LineReader_def split: sum.splits)
  show ?thesis using scan_lines_adds [OF f r(2)] r(1) by (simp add: url_lines_def)
qed

lemma try_fold_adds:
  assumes "\<And>b x b'. f b x = Inr b' \<Longrightarrow> adds b (g x) b'"
  shows "try_fold f b xs = Inr b' \<Longrightarrow> adds b (\<Union>x \<in> set xs. g x) b'"
proof (induction xs arbitrary: b)
  case (Cons x xs)
  then obtain b1 where b1: "f b x = Inr b1" "try_fold f b1 xs = Inr b'" by (auto split: sum.splits)
  show ?case using adds_trans [OF assms [OF b1(1)] Cons.IH [OF b1(2)]] by simp
qed (simp add: adds_none)

lemma delete_trees:
  "bl_wf b \<Longrightarrow> try_fold (\<lambda>b v. map_sum CfgPanic snd (BlockList_DeleteTree b v)) b vs = Inr b' \<Longrightarrow>
   bl_wf b' \<and> bl_entries b' = {(t, q) \<in> bl_entries b. \<forall>v \<in> set vs. \<not> suffix (splitName v) t}"
proof (induction vs arbitrary: b)
  case (Cons v vs)
  then obtain ok b1 where b1: "BlockList_DeleteTree b v = Inr (ok, b1)"
      "try_fold (\<lambda>b v. map_sum CfgPanic snd (BlockList_DeleteTree b v)) b1 vs = Inr b'"
    by (auto simp: map_sum_Inr split: sum.splits)
  have "splitName v \<noteq> []" using b1(1) bl_DeleteTree_root [of v b] by auto
  with Cons.prems(1) obtain ok' b2 where "BlockList_DeleteTree b v = Inr (ok', b2)" "bl_wf b2"
    "bl_entries b2 = {(m, q) \<in> bl_entries b. \<not> suffix (splitName v) m}" by (rule bl_DeleteTree)
  with b1 Cons.IH [of b1] show ?case by auto
qed auto

lemma UpdateBlockList_entries:
  assumes "UpdateBlockList D E uc BlockList_New = Inr b"
  shows "bl_wf b" "bl_entries b = {(t, q) \<in> configured_entries D E uc. \<forall>v \<in> set (BlockDelete uc). \<not> suffix (splitName v) t}"
proof -
  let ?add = "\<lambda>b v. map_sum (\<lambda>e. CfgErr (bl_error_String e)) id (AddEntry D b v TypeANY)"
  from assms obtain b1 b2 b3 b4 where b: "try_fold ?add BlockList_New (Block uc) = Inr b1"
    "try_fold (load_url E (MakeBlockListReaderf D TypeANY)) b1 (U_Blocklist uc) = Inr b2"
    "try_fold (load_url E (MakeBlockListReaderf D TypeAAAA)) b2 (BlocklistAAAA uc) = Inr b3"
    "try_fold (load_url E (MakeBlockListHostsReaderf D)) b3 (BlocklistFromHosts uc) = Inr b4"
    "try_fold (\<lambda>b v. map_sum CfgPanic snd (BlockList_DeleteTree b v)) b4 (BlockDelete uc) = Inr b"
    by (auto simp: UpdateBlockList_def and_then_Inr)
  have 1: "adds BlockList_New (\<Union>v \<in> set (Block uc). set_option (parse_entry D TypeANY v)) b1"
    by (rule try_fold_adds [where g = "\<lambda>v. set_option (parse_entry D TypeANY v)", OF _ b(1)]) (auto simp: map_sum_Inr AddEntry_adds)
  have 2: "adds b1 (\<Union>u \<in> set (U_Blocklist uc). entries_of (list_line D TypeANY) (url_lines E u)) b2"
    by (rule try_fold_adds [where g = "\<lambda>u. entries_of (list_line D TypeANY) (url_lines E u)", OF _ b(2)])
       (erule load_url_adds [OF Readerf_adds, rotated])
  have 3: "adds b2 (\<Union>u \<in> set (BlocklistAAAA uc). entries_of (list_line D TypeAAAA) (url_lines E u)) b3"
    by (rule try_fold_adds [where g = "\<lambda>u. entries_of (list_line D TypeAAAA) (url_lines E u)", OF _ b(3)])
       (erule load_url_adds [OF Readerf_adds, rotated])
  have 4: "adds b3 (\<Union>u \<in> set (BlocklistFromHosts uc). entries_of (hosts_line D) (url_lines E u)) b4"
    by (rule try_fold_adds [where g = "\<lambda>u. entries_of (hosts_line D) (url_lines E u)", OF _ b(4)])
       (erule load_url_adds [OF HostsReaderf_adds, rotated])
  have "(\<Union>v \<in> set (Block uc). set_option (parse_entry D TypeANY v)) = entries_of (parse_entry D TypeANY) (Block uc)"
    by (auto simp: entries_of_def)
  with adds_trans [OF adds_trans [OF adds_trans [OF 1 2] 3] 4] have b4: "bl_wf b4" "bl_entries b4 = configured_entries D E uc"
    by (simp_all add: adds_def configured_entries_def)
  then show "bl_wf b" "bl_entries b = {(t, q) \<in> configured_entries D E uc. \<forall>v \<in> set (BlockDelete uc). \<not> suffix (splitName v) t}"
    using delete_trees [OF b4(1) b(5)] by simp_all
qed

text \<open>Whether a list can be loaded does not depend on what the blocklist already holds.\<close>

definition indep :: "('s \<Rightarrow> 'x \<Rightarrow> 'e + 's) \<Rightarrow> bool" where
  "indep f \<longleftrightarrow> (\<forall>b x b' c. f b x = Inr b' \<longrightarrow> (\<exists>c'. f c x = Inr c'))"

lemma AddEntry_indep: "AddEntry D b s q = Inr b' \<Longrightarrow> \<exists>c'. AddEntry D c s q = Inr c'"
  using AddEntry_ok_iff [of D b s q] AddEntry_ok_iff [of D c s q] by blast

lemma Readerf_indep: "indep (MakeBlockListReaderf D q)"
  by (auto simp: indep_def MakeBlockListReaderf_def Let_def split: if_splits intro: AddEntry_indep)

lemma HostsReaderf_indep: "indep (MakeBlockListHostsReaderf D)"
  by (auto simp: indep_def MakeBlockListHostsReaderf_def AddHostsEntry_def Let_def split: if_splits intro: AddEntry_indep)

lemma line_fun_None: "line_fun f b l = (b', None) \<longleftrightarrow> f b l = Inr b'"
  by (auto simp: line_fun_def split: sum.splits)

lemma scan_lines_indep:
  assumes f: "indep f"
  shows "scan_lines (line_fun f) rerr ls b cnt = (b', n, None) \<Longrightarrow> \<exists>c' m. scan_lines (line_fun f) rerr ls c cnt' = (c', m, None)"
proof (induction ls arbitrary: b c cnt cnt')
  case Nil
  then show ?case by (auto split: option.splits)
next
  case (Cons l ls)
  then obtain b1 where b1: "length l < MaxScanTokenSize" "line_fun f b (dropCR l) = (b1, None)"
    "scan_lines (line_fun f) rerr ls b1 (cnt + 1) = (b', n, None)" by (auto split: if_splits prod.splits option.splits)
  obtain c1 where "line_fun f c (dropCR l) = (c1, None)" using f b1(2) unfolding indep_def line_fun_None by blast
  with Cons.IH [OF b1(3), of c1 "cnt' + 1"] b1(1) show ?case by simp
qed

lemma load_url_indep:
  assumes f: "indep f"
  shows "indep (load_url E f)"
  unfolding indep_def
proof (intro allI impI)
  fix b url b' c
  assume run: "load_url E f b url = Inr b'"
  obtain n where "URLReader E url (line_fun f) b = (b', n, None)"
    using run by (auto simp: load_url_def split: prod.splits option.splits)
  then obtain r where r: "UrlOpen E url = Inr r" "scan_lines (line_fun f) (read_err r) (raw_lines (content r)) b 0 = (b', n, None)"
    by (auto simp: URLReader_def LineReader_def split: sum.splits)
  from scan_lines_indep [OF f r(2), of c 0] obtain c' m where
    "scan_lines (line_fun f) (read_err r) (raw_lines (content r)) c 0 = (c', m, None)" by blast
  then show "\<exists>c'. load_url E f c url = Inr c'" using r(1) by (simp add: load_url_def URLReader_def LineReader_def)
qed

lemma try_fold_indep:
  assumes "indep f"
  shows "try_fold f b xs = Inr b' \<Longrightarrow> \<exists>c'. try_fold f c xs = Inr c'"
proof (induction xs arbitrary: b c)
  case (Cons x xs)
  then obtain b1 where b1: "f b x = Inr b1" "try_fold f b1 xs = Inr b'" by (auto split: sum.splits)
  obtain c1 where "f c x = Inr c1" using assms b1(1) unfolding indep_def by blast
  with Cons.IH [OF b1(2), of c1] show ?case by simp
qed simp

lemma Block_options_ok:
  "\<forall>v \<in> set vs. parse_entry D TypeANY v \<noteq> None \<Longrightarrow>
    \<exists>b'. try_fold (\<lambda>b v. map_sum (\<lambda>e. CfgErr (bl_error_String e)) id (AddEntry D b v TypeANY)) b vs = Inr b'"
proof (induction vs arbitrary: b)
  case (Cons v vs)
  then obtain b1 where "AddEntry D b v TypeANY = Inr b1" using AddEntry_ok_iff [of D b v TypeANY] by auto
  with Cons show ?case by simp
qed simp

lemma Block_options_parse:
  "try_fold (\<lambda>b v. map_sum (\<lambda>e. CfgErr (bl_error_String e)) id (AddEntry D b v TypeANY)) b vs = Inr b' \<Longrightarrow>
    \<forall>v \<in> set vs. parse_entry D TypeANY v \<noteq> None"
proof (induction vs arbitrary: b)
  case (Cons v vs)
  then obtain b1 where "AddEntry D b v TypeANY = Inr b1" by (cases "AddEntry D b v TypeANY") auto
  with Cons AddEntry_ok_iff [of D b v TypeANY] show ?case by auto
qed simp

lemma UpdateBlockList_parses: "UpdateBlockList D E uc b = Inr b' \<Longrightarrow> \<forall>v \<in> set (Block uc). parse_entry D TypeANY v \<noteq> None"
  by (auto simp: UpdateBlockList_def and_then_Inr dest: Block_options_parse)

lemma UpdateBlockList_reload:
  assumes "UpdateBlockList D E uc b = Inr b'" "\<forall>v \<in> set (Block uc'). parse_entry D TypeANY v \<noteq> None" "BlockDelete uc' = []"
    "U_Blocklist uc' = U_Blocklist uc" "BlocklistAAAA uc' = BlocklistAAAA uc" "BlocklistFromHosts uc' = BlocklistFromHosts uc"
  shows "\<exists>c'. UpdateBlockList D E uc' c = Inr c'"
proof -
  from assms(1) obtain b1 b2 b3 b4 where b:
    "try_fold (load_url E (MakeBlockListReaderf D TypeANY)) b1 (U_Blocklist uc) = Inr b2"
    "try_fold (load_url E (MakeBlockListReaderf D TypeAAAA)) b2 (BlocklistAAAA uc) = Inr b3"
    "try_fold (load_url E (MakeBlockListHostsReaderf D)) b3 (BlocklistFromHosts uc) = Inr b4"
    by (auto simp: UpdateBlockList_def and_then_Inr)
  obtain c1 where c1: "try_fold (\<lambda>b v. map_sum (\<lambda>e. CfgErr (bl_error_String e)) id (AddEntry D b v TypeANY)) c (Block uc') = Inr c1"
    using Block_options_ok [OF assms(2)] by blast
  obtain c2 where c2: "try_fold (load_url E (MakeBlockListReaderf D TypeANY)) c1 (U_Blocklist uc) = Inr c2"
    using try_fold_indep [OF load_url_indep [OF Readerf_indep] b(1)] by blast
  obtain c3 where c3: "try_fold (load_url E (MakeBlockListReaderf D TypeAAAA)) c2 (BlocklistAAAA uc) = Inr c3"
    using try_fold_indep [OF load_url_indep [OF Readerf_indep] b(2)] by blast
  obtain c4 where c4: "try_fold (load_url E (MakeBlockListHostsReaderf D)) c3 (BlocklistFromHosts uc) = Inr c4"
    using try_fold_indep [OF load_url_indep [OF HostsReaderf_indep] b(3)] by blast
  show ?thesis using c1 c2 c3 c4 assms(3-6) by (simp add: UpdateBlockList_def)
qed

text \<open>
  Claim C17. The blocklist is what the options say: when \<^verbatim>\<open>UpdateBlockList\<close> succeeds on a new list, the list
  blocks a name exactly when it or a parent has an entry, for the type or for ANY, among the entries of the
  block options, the lists, the AAAA lists and the zero-address lines of the hosts files, less every
  entry at or below a deleted name, whatever the order in which they were given.
\<close>

theorem blocklist_as_configured:
  assumes "UpdateBlockList D E uc BlockList_New = Inr b"
  shows "BlockList_Match b n q \<longleftrightarrow>
    blocked_by {(t, q) \<in> configured_entries D E uc. \<forall>v \<in> set (BlockDelete uc). \<not> suffix (splitName v) t} (splitName n) q"
  using UpdateBlockList_entries [OF assms] by (simp add: bl_Match)

theorem blocklist_as_configured_witness:
  "\<exists>b. UpdateBlockList sample_lib sample_env
        (NewUserConfig\<lparr>Block := [''ads.local''], U_Blocklist := [''list.txt''], BlockDelete := [''a.x.local'']\<rparr>) BlockList_New = Inr b \<and>
    (BlockList_Match b ''www.ads.local'' TypeA \<longleftrightarrow>
      blocked_by {(t, q) \<in> configured_entries sample_lib sample_env
          (NewUserConfig\<lparr>Block := [''ads.local''], U_Blocklist := [''list.txt''], BlockDelete := [''a.x.local'']\<rparr>).
        \<forall>v \<in> set (BlockDelete (NewUserConfig\<lparr>Block := [''ads.local''], U_Blocklist := [''list.txt''], BlockDelete := [''a.x.local'']\<rparr>)).
          \<not> suffix (splitName v) t} (splitName ''www.ads.local'') TypeA)"
proof -
  let ?uc = "NewUserConfig\<lparr>Block := [''ads.local''], U_Blocklist := [''list.txt''], BlockDelete := [''a.x.local'']\<rparr>"
  have lines: "raw_lines (''# ads'' @ [newline] @ ''x.local'' @ [carriage, newline] @ ''y.local:A'') = [''# ads'', ''x.local'' @ [carriage], ''y.local:A'']"
    by code_simp
  have cr: "dropCR (''x.local'' @ [carriage]) = ''x.local''" "dropCR ''# ads'' = ''# ads''" "dropCR ''y.local:A'' = ''y.local:A''"
    by code_simp+
  have trim: "TrimSpace ''x.local'' = ''x.local''" "TrimSpace ''# ads'' = ''# ads''" "TrimSpace ''y.local:A'' = ''y.local:A''"
    by code_simp+
  have load: "load_url sample_env (MakeBlockListReaderf sample_lib TypeANY) b ''list.txt'' =
      Inr (BlockList_Add (BlockList_Add b ''x.local'' TypeANY) ''y.local'' TypeA)" for b
    by (simp add: load_url_def URLReader_def UrlOpen_def sample_env_def LineReader_def lines [simplified] line_fun_def cr [simplified]
        MakeBlockListReaderf_def trim AddEntry_def sample_lib_def sample_types_def)
  have "splitName ''a.x.local'' \<noteq> []" by (simp add: splitName_Nil_iff)
  from bl_DeleteTree_total [OF this] obtain ok b where "BlockList_DeleteTree (BlockList_Add (BlockList_Add (BlockList_Add BlockList_New
      ''ads.local'' TypeANY) ''x.local'' TypeANY) ''y.local'' TypeA) ''a.x.local'' = Inr (ok, b)"
    by blast
  then have b: "UpdateBlockList sample_lib sample_env ?uc BlockList_New = Inr b"
    by (simp add: UpdateBlockList_def NewUserConfig_def load AddEntry_def)
  from blocklist_as_configured [OF b, of "''www.ads.local''" TypeA] b show ?thesis by blast
qed

end
