(* ===== verification/Proxy.thy ===== *)
theory Proxy
  imports Config
begin

text \<open>
  Package \<^verbatim>\<open>proxy\<close>: \<^verbatim>\<open>proxy.go\<close>, the handler of one DNS query. The handler is one function from the
  configuration, the world of the resolvers and the clock to the message it writes, the new
  configuration and the new world; a panic ends the program. Readings of the clock are numbered in
  the order the code makes them. The debug lines it prints are left out.

  The upstream list of the source is a list of pointers: a copy of it still refers to the same
  resolvers. The model keeps the resolvers by value in the configuration, and \<open>snapshot_pos\<close> finds the
  resolver of the copy there, also after the list has been rotated.
\<close>

section \<open>proxy.go\<close>

fun matchDomain :: "dns_lib \<Rightarrow> string list \<Rightarrow> string \<Rightarrow> bool" where
  "matchDomain D [] name = False"
| "matchDomain D (domain # domains) name = (if IsSubDomain D domain name then True else matchDomain D domains name)"

text \<open>The text given to \<^verbatim>\<open>NewRR\<close> is not empty, so without an error there is a record.\<close>

definition dnsErrorResponse :: "dns_lib \<Rightarrow> Msg \<Rightarrow> int \<Rightarrow> string \<Rightarrow> Msg" where
  "dnsErrorResponse D r rcode err =
     (let m = SetRcode D r rcode
      in case NewRR D (''. 0 IN TXT '' @ [CHR 0x22] @ err @ [CHR 0x22]) of
           Inr (Some txt) \<Rightarrow> m\<lparr>Extra := Extra m @ [txt]\<rparr>
         | _ \<Rightarrow> m)"

definition checkAcl :: "IPNet list \<Rightarrow> IP \<Rightarrow> bool" where
  "checkAcl acl client = (if length acl = 0 then True else list_ex (\<lambda>v. IPNet_Contains v client) acl)"

definition snapshot_pos :: "bool \<Rightarrow> nat \<Rightarrow> nat" where
  "snapshot_pos demoted i = (if demoted then i - 1 else i)"

text \<open>Counting an error of the first upstream, and demoting it above the threshold.\<close>

definition count_error :: "ProxyConfig \<Rightarrow> ProxyConfig \<times> bool" where
  "count_error config =
     (let config = config\<lparr>UpstreamErr := UpstreamErr config + 1\<rparr>
      in if UpstreamErr config > 3 then
           (config\<lparr>Upstream := drop 1 (Upstream config) @ take 1 (Upstream config), UpstreamErr := 0\<rparr>, True)
         else (config, False))"

fun resolve_loop :: "dns_lib \<Rightarrow> 'w netops \<Rightarrow> int \<Rightarrow> Msg \<Rightarrow> nat list \<Rightarrow> bool \<Rightarrow> ProxyConfig \<Rightarrow> 'w \<Rightarrow>
    ((string + Msg) \<times> ProxyConfig \<times> 'w) go" where
  "resolve_loop D N now q [] demoted config w =
     Inr (Inl ''Unable to resolve host - all upstream resolvers failed'', config, w)"
| "resolve_loop D N now q (i # is) demoted config w =
     (let pos = snapshot_pos demoted i;
          (res, r, w) = Resolve D N (Upstream config ! pos) w q;
          config = config\<lparr>Upstream := (Upstream config)[pos := r]\<rparr>
      in case res of
           Inr out \<Rightarrow>
             let config = (if i = 0 then config\<lparr>UpstreamErr := 0\<rparr> else config)
             in map_sum id (\<lambda>c. (Inr out, config\<lparr>P_Cache := c\<rparr>, w)) (Cache_Add D (P_Cache config) out now)
         | Inl err \<Rightarrow>
             let (config, demoted) = (if i = 0 then count_error config else (config, demoted))
             in resolve_loop D N now q is demoted config w)"

text \<open>The second component of the result is \<^verbatim>\<open>cached\<close>. Readings \<open>k\<close>, \<open>k + 1\<close> are \<^verbatim>\<open>Get\<close>'s, \<open>k + 2\<close> is \<^verbatim>\<open>Add\<close>'s.\<close>

definition resolve :: "dns_lib \<Rightarrow> 'w netops \<Rightarrow> (nat \<Rightarrow> int) \<Rightarrow> nat \<Rightarrow> ProxyConfig \<Rightarrow> 'w \<Rightarrow> Msg \<Rightarrow>
    ((string + Msg) \<times> bool \<times> ProxyConfig \<times> 'w) go" where
  "resolve D N clk k config w q =
     (case Cache_Get D (P_Cache config) q (clk k) (clk (k + 1)) of
        Inl p \<Rightarrow> Inl p
      | Inr (c, Some out) \<Rightarrow> Inr (Inr out, True, config\<lparr>P_Cache := c\<rparr>, w)
      | Inr (c, None) \<Rightarrow>
          let config = config\<lparr>P_Cache := c\<rparr>
          in map_sum id (\<lambda>(out, config, w). (out, False, config, w))
               (resolve_loop D N (clk (k + 2)) q [0..<length (Upstream config)] False config w))"

text \<open>The loop body of the DNS64 rewriting; \<^verbatim>\<open>copy\<close> fills at most the sixteen bytes.\<close>

definition dns64_rr :: "IP \<Rightarrow> RR \<Rightarrow> RR" where
  "dns64_rr pfx rr =
     (case Data rr of
        RA a \<Rightarrow>
          let ip4 = To4 a
          in if ip4 \<noteq> [] then
               let aaaa = take 16 pfx @ drop (length (take 16 pfx)) (replicate 16 0)
               in \<lparr>Hdr = \<lparr>Hdr_Name = Hdr_Name (Hdr rr), Rrtype = TypeAAAA, Class = ClassINET, Ttl = Ttl (Hdr rr)\<rparr>,
                   Data = RAAAA (aaaa[12 := ip4 ! 0, 13 := ip4 ! 1, 14 := ip4 ! 2, 15 := ip4 ! 3])\<rparr>
             else rr
      | _ \<Rightarrow> rr)"

definition set_qtype :: "Msg \<Rightarrow> u16 \<Rightarrow> Msg go" where
  "set_qtype m t =
     (case MQuestion m of [] \<Rightarrow> Inl IndexOutOfRange | q # qs \<Rightarrow> Inr (m\<lparr>MQuestion := q\<lparr>Qtype := t\<rparr> # qs\<rparr>))"

text \<open>
  What the handler has done when it returns: the message it wrote, if any, its log item, and the
  state. \<open>serve\<close> is the body up to the deferred calls, from the point where the query is admitted.
\<close>

record 'w served =
  written :: "Msg option"
  logItem :: ConnectionLog
  s_config :: ProxyConfig
  s_world :: 'w

definition blockingPaused :: "ProxyConfig \<Rightarrow> int \<Rightarrow> bool" where
  "blockingPaused config now = (case BlockPauseUntil config of None \<Rightarrow> False | Some t \<Rightarrow> now < t)"

definition serve_dns64 :: "dns_lib \<Rightarrow> 'w netops \<Rightarrow> (nat \<Rightarrow> int) \<Rightarrow> ProxyConfig \<Rightarrow> 'w \<Rightarrow> Msg \<Rightarrow> ConnectionLog \<Rightarrow> 'w served go" where
  "serve_dns64 D N clk config w q item =
     and_then (set_qtype q TypeA) (\<lambda>q4.
     and_then (resolve D N clk 5 config w q4) (\<lambda>(dns64_out, cached, config, w).
     case dns64_out of
       Inl err \<Rightarrow>
         Inr \<lparr>written = Some (dnsErrorResponse D q RcodeServerFailure ''Upstream error''),
              logItem = item\<lparr>Error := True\<rparr>, s_config = config, s_world = w\<rparr>
     | Inr dns64_out \<Rightarrow>
         and_then (set_qtype dns64_out TypeAAAA) (\<lambda>dns64_out.
         let dns64_out = dns64_out\<lparr>Answer := map (dns64_rr (NetIP (Dns64Prefix config))) (Answer dns64_out)\<rparr>
         in Inr \<lparr>written = Some dns64_out, logItem = item\<lparr>CL_Rcode := Rcode dns64_out, Cached := cached\<rparr>,
                 s_config = config, s_world = w\<rparr>)))"

definition serve :: "dns_lib \<Rightarrow> 'w netops \<Rightarrow> (nat \<Rightarrow> int) \<Rightarrow> ProxyConfig \<Rightarrow> 'w \<Rightarrow> Msg \<Rightarrow> string \<Rightarrow> u16 \<Rightarrow> ConnectionLog \<Rightarrow> 'w served go" where
  "serve D N clk config w q qname qtype item =
     (if \<not> blockingPaused config (clk 1) \<and> BlockList_Match (P_BlockList config) qname qtype then
        Inr \<lparr>written = Some (dnsErrorResponse D q RcodeNameError ''Blocked''),
             logItem = item\<lparr>Blocked := True\<rparr>, s_config = config, s_world = w\<rparr>
      else
        and_then (resolve D N clk 2 config w q) (\<lambda>(out, cached, config, w).
        case out of
          Inl err \<Rightarrow>
            Inr \<lparr>written = Some (dnsErrorResponse D q RcodeServerFailure ''Upstream error''),
                 logItem = item\<lparr>Error := True\<rparr>, s_config = config, s_world = w\<rparr>
        | Inr out \<Rightarrow>
            if Dns64 config \<and> qtype = TypeAAAA \<and> length (Answer out) = 0 then
              serve_dns64 D N clk config w q item
            else Inr \<lparr>written = Some out, logItem = item\<lparr>CL_Rcode := Rcode out, Cached := cached\<rparr>,
                      s_config = config, s_world = w\<rparr>))"

definition handle :: "dns_lib \<Rightarrow> 'w netops \<Rightarrow> (nat \<Rightarrow> int) \<Rightarrow> ProxyConfig \<Rightarrow> 'w \<Rightarrow> string \<Rightarrow> Msg \<Rightarrow> 'w served go" where
  "handle D N clk config w clientAddr q =
     (let item = zeroLog\<lparr>Timestamp := clk 0, Client := clientAddr\<rparr>;
          quit = (\<lambda>item. Inr \<lparr>written = None, logItem = item, s_config = config, s_world = w\<rparr>)
      in case SplitHostPort clientAddr of
           None \<Rightarrow> quit item
         | Some (clientHost, _) \<Rightarrow>
             let clientIP = ParseIP (strip_zone clientHost)
             in case MQuestion q of
                  [qu] \<Rightarrow>
                    let qname = CanonicalName D (Q_Name qu);
                        qtype = Qtype qu;
                        item = item\<lparr>Qname := qname, CL_Qtype := TypeToString D qtype\<rparr>
                    in if \<not> checkAcl (P_Acl config) clientIP then quit item
                       else serve D N clk config w q qname qtype (item\<lparr>Acl := True\<rparr>)
                | _ \<Rightarrow> quit item)"

text \<open>The deferred calls: the log item is added with the time the query took, the connection is closed.\<close>

definition MakeHandler :: "dns_lib \<Rightarrow> 'w netops \<Rightarrow> (nat \<Rightarrow> int) \<Rightarrow> ProxyConfig \<Rightarrow> 'w \<Rightarrow> string \<Rightarrow> Msg \<Rightarrow>
    (Msg option \<times> ProxyConfig \<times> 'w \<times> (nat \<times> ConnectionLog) list) go" where
  "MakeHandler D N clk config w clientAddr q =
     and_then (handle D N clk config w clientAddr q) (\<lambda>s.
     let item = (logItem s)\<lparr>QueryTime := clk 8 - clk 0\<rparr>
     in and_then (Stats_Add (StatsHandler (s_config s)) item) (\<lambda>(stats, calls).
        Inr (written s, (s_config s)\<lparr>StatsHandler := stats\<rparr>, s_world s, calls)))"

definition CheckUpstream :: "dns_lib \<Rightarrow> 'w netops \<Rightarrow> 'w \<Rightarrow> string \<Rightarrow> string option \<times> 'w" where
  "CheckUpstream D N w upstream =
     (let r = (if HasPrefix upstream ''https://'' then DOH (NewDohResolver upstream)
               else if HasPrefix upstream ''tls://'' then DOT (NewDotResolver upstream)
               else UDP (NewUdpResolver upstream));
          q = SetQuestion D newMsg ''.'' TypeNS
      in case Resolve D N r w q of
           (Inl (_, err), _, w) \<Rightarrow> (Some (''Invalid resolver: '' @ upstream @ '' ('' @ Err_Error err @ '')''), w)
         | (Inr _, _, w) \<Rightarrow> (None, w))"

section \<open>Trying the upstreams\<close>

text \<open>
  What the loop amounts to: ask the resolvers in order until one answers. The result is the number of
  the resolver that answered with its answer, the resolvers after the calls, and the world.
\<close>

fun try_upstreams :: "dns_lib \<Rightarrow> 'w netops \<Rightarrow> Resolver list \<Rightarrow> 'w \<Rightarrow> Msg \<Rightarrow> (nat \<times> Msg) option \<times> Resolver list \<times> 'w" where
  "try_upstreams D N [] w q = (None, [], w)"
| "try_upstreams D N (r # rs) w q =
     (case Resolve D N r w q of
        (Inr out, r, w) \<Rightarrow> (Some (0, out), r # rs, w)
      | (Inl err, r, w) \<Rightarrow>
          (case try_upstreams D N rs w q of
             (res, rs, w) \<Rightarrow> (map_option (\<lambda>(i, out). (Suc i, out)) res, r # rs, w)))"

text \<open>The effect on the list and its error count: \<open>ok\<close> says whether the first upstream answered.\<close>

definition after_first :: "bool \<Rightarrow> ProxyConfig \<Rightarrow> Resolver list \<Rightarrow> ProxyConfig" where
  "after_first ok config rs =
     (if ok then config\<lparr>Upstream := rs, UpstreamErr := 0\<rparr>
      else if UpstreamErr config + 1 > 3 then config\<lparr>Upstream := rotate1 rs, UpstreamErr := 0\<rparr>
      else config\<lparr>Upstream := rs, UpstreamErr := UpstreamErr config + 1\<rparr>)"

definition all_failed :: string where
  "all_failed = ''Unable to resolve host - all upstream resolvers failed''"

definition demoted_view :: "bool \<Rightarrow> 'a list \<Rightarrow> 'a list" where
  "demoted_view d rs = (if d then rotate1 rs else rs)"

lemma demoted_view_nth:
  assumes "0 < i" "i < length rs"
  shows "demoted_view d rs ! snapshot_pos d i = rs ! i"
    "(demoted_view d rs)[snapshot_pos d i := r] = demoted_view d (rs[i := r])"
  using assms by (cases rs; cases i; auto simp: demoted_view_def snapshot_pos_def nth_append list_update_append)+

lemma resolve_loop_tail:
  "pre \<noteq> [] \<Longrightarrow> Upstream config = demoted_view d (pre @ rest) \<Longrightarrow>
   resolve_loop D N now q [length pre..<length (pre @ rest)] d config w =
     (case try_upstreams D N rest w q of
        (None, rest', w') \<Rightarrow> Inr (Inl all_failed, config\<lparr>Upstream := demoted_view d (pre @ rest')\<rparr>, w')
      | (Some (i, out), rest', w') \<Rightarrow>
          map_sum id (\<lambda>c. (Inr out, config\<lparr>Upstream := demoted_view d (pre @ rest'), P_Cache := c\<rparr>, w'))
            (Cache_Add D (P_Cache config) out now))"
proof (induction rest arbitrary: pre config w)
  case Nil
  then show ?case by (simp add: all_failed_def)
next
  case (Cons r rest)
  let ?i = "length pre"
  have i: "0 < ?i" "?i < length (pre @ r # rest)" using Cons.prems(1) by auto
  have upt: "[?i..<length (pre @ r # rest)] = ?i # [length (pre @ [r])..<length ((pre @ [r]) @ rest)]"
    using i(2) by (simp add: upt_conv_Cons del: upt_Suc)
  obtain res r' w1 where call: "Resolve D N r w q = (res, r', w1)" by (metis prod_cases3)
  have pos: "Upstream config ! snapshot_pos d ?i = r"
    "(Upstream config)[snapshot_pos d ?i := r'] = demoted_view d ((pre @ [r']) @ rest)"
    using demoted_view_nth [OF i] Cons.prems(2) by (simp_all add: list_update_append)
  show ?case
  proof (cases res)
    case (Inr out)
    then show ?thesis unfolding upt using i(1) by (simp add: Let_def pos call)
  next
    case (Inl err)
    have "resolve_loop D N now q [?i..<length (pre @ r # rest)] d config w =
        resolve_loop D N now q [length (pre @ [r'])..<length ((pre @ [r']) @ rest)] d
          (config\<lparr>Upstream := demoted_view d ((pre @ [r']) @ rest)\<rparr>) w1"
      unfolding upt using i(1) Inl by (simp add: Let_def pos call)
    also note Cons.IH [of "pre @ [r']" "config\<lparr>Upstream := demoted_view d ((pre @ [r']) @ rest)\<rparr>" w1]
    finally show ?thesis using call Inl by (auto split: prod.splits option.splits)
  qed
qed

lemma Upstream_swap: "config\<lparr>UpstreamErr := e, Upstream := u\<rparr> = config\<lparr>Upstream := u, UpstreamErr := e\<rparr>"
  by simp

lemma resolve_loop_eq:
  assumes "try_upstreams D N (Upstream config) w q = (res, rs, w')"
  shows "resolve_loop D N now q [0..<length (Upstream config)] False config w =
    (case res of
       None \<Rightarrow> Inr (Inl all_failed, if Upstream config = [] then config else after_first False config rs, w')
     | Some (i, out) \<Rightarrow> map_sum id (\<lambda>c. (Inr out, (after_first (i = 0) config rs)\<lparr>P_Cache := c\<rparr>, w'))
         (Cache_Add D (P_Cache config) out now))"
proof (cases "Upstream config")
  case Nil
  then show ?thesis using assms by (auto simp: all_failed_def)
next
  case (Cons r rest)
  obtain x r' w1 where call: "Resolve D N r w q = (x, r', w1)" by (metis prod_cases3)
  have upt: "[0..<length (r # rest)] = 0 # [length [r']..<length ([r'] @ rest)]"
    by (simp add: upt_conv_Cons del: upt_Suc)
  show ?thesis
  proof (cases x)
    case (Inr out)
    then show ?thesis using assms call unfolding Cons upt
      by (auto simp: Cons Let_def snapshot_pos_def after_first_def)
  next
    case (Inl err)
    let ?d = "UpstreamErr config + 1 > 3"
    let ?c = "config\<lparr>Upstream := demoted_view ?d ([r'] @ rest), UpstreamErr := if ?d then 0 else UpstreamErr config + 1\<rparr>"
    have "count_error (config\<lparr>Upstream := r' # rest\<rparr>) = (?c, ?d)"
      by (simp add: count_error_def Let_def demoted_view_def)
    then have "resolve_loop D N now q [0..<length (Upstream config)] False config w =
        resolve_loop D N now q [length [r']..<length ([r'] @ rest)] ?d ?c w1"
      using Inl call unfolding Cons upt by (simp add: Let_def snapshot_pos_def Cons)
    also have "\<dots> = (case try_upstreams D N rest w1 q of
        (None, rest', w') \<Rightarrow> Inr (Inl all_failed, ?c\<lparr>Upstream := demoted_view ?d ([r'] @ rest')\<rparr>, w')
      | (Some (i, out), rest', w') \<Rightarrow>
          map_sum id (\<lambda>c. (Inr out, ?c\<lparr>Upstream := demoted_view ?d ([r'] @ rest'), P_Cache := c\<rparr>, w'))
            (Cache_Add D (P_Cache ?c) out now))"
      by (rule resolve_loop_tail) simp_all
    finally show ?thesis using assms Cons call Inl
      by (auto simp: after_first_def demoted_view_def Upstream_swap split: prod.splits option.splits)
  qed
qed

lemma try_upstreams_keeps:
  "list_all resolver_inv rs \<Longrightarrow> try_upstreams D N rs w q = (res, rs', w') \<Longrightarrow>
   list_all resolver_inv rs' \<and> map Resolver_String rs' = map Resolver_String rs"
proof (induction rs arbitrary: w res rs' w')
  case (Cons r rs)
  obtain x r1 w1 where call: "Resolve D N r w q = (x, r1, w1)" by (metis prod_cases3)
  obtain res1 rs1 w2 where rest: "try_upstreams D N rs w1 q = (res1, rs1, w2)" by (metis prod_cases3)
  have "resolver_inv r1" "Resolver_String r1 = Resolver_String r"
    using resolver.call_inv [OF _ call] resolver.call_name [OF _ call] Cons.prems(1) by auto
  with Cons.IH [OF _ rest] Cons.prems call rest show ?case by (auto split: sum.splits)
qed simp

section \<open>The invariant of the proxy\<close>

text \<open>
  The upstreams are the configured ones in a rotated order, the error count is below the threshold,
  and each component's invariant holds.
\<close>

definition proxy_inv :: "string list \<Rightarrow> int \<Rightarrow> ProxyConfig \<Rightarrow> bool" where
  "proxy_inv names t config \<longleftrightarrow>
     list_all resolver_inv (Upstream config) \<and> (\<exists>n. map Resolver_String (Upstream config) = rotate n names) \<and>
     0 \<le> UpstreamErr config \<and> UpstreamErr config \<le> 3 \<and> cache_inv t (P_Cache config) \<and>
     rb_wf (StatsHandler config) \<and> bl_wf (P_BlockList config)"

lemma proxy_inv_mono: "proxy_inv names t config \<Longrightarrow> t \<le> t' \<Longrightarrow> proxy_inv names t' config"
  by (auto simp: proxy_inv_def intro: cache_inv_mono)

lemma proxy_inv_cache: "proxy_inv names t config \<Longrightarrow> cache_inv t' c \<Longrightarrow> proxy_inv names t' (config\<lparr>P_Cache := c\<rparr>)"
  by (simp add: proxy_inv_def)

lemma rotate1_step: "\<exists>m. rotate1 (rotate n xs) = rotate m xs"
  by (rule exI [of _ "Suc n"]) simp

lemma proxy_inv_after_first:
  assumes inv: "proxy_inv names t config" and rs: "list_all resolver_inv rs" "map Resolver_String rs = map Resolver_String (Upstream config)"
  shows "proxy_inv names t (after_first ok config rs)"
proof -
  have "list_all resolver_inv (rotate1 rs)" using rs(1) by (simp add: list_all_iff)
  moreover have "\<exists>m. map Resolver_String (rotate1 rs) = rotate m names"
    using inv rs(2) rotate1_step by (metis proxy_inv_def rotate1_map)
  ultimately show ?thesis using inv rs by (auto simp: proxy_inv_def after_first_def)
qed

lemma resolve_inv:
  assumes inv: "proxy_inv names t config" and t: "t \<le> clk k" "clk k \<le> clk (k + 1)" "clk (k + 1) \<le> clk (k + 2)"
    and run: "resolve D N clk k config w q = Inr (out, cached, config', w')"
  shows "proxy_inv names (clk (k + 2)) config'"
proof -
  obtain c r where get: "Cache_Get D (P_Cache config) q (clk k) (clk (k + 1)) = Inr (c, r)"
    using run by (cases "Cache_Get D (P_Cache config) q (clk k) (clk (k + 1))") (auto simp: resolve_def)
  have "cache_inv t (P_Cache config)" using inv by (simp add: proxy_inv_def)
  from cache_inv_mono [OF Cache_Get_inv [OF this t(1,2) get] t(3)] have c: "cache_inv (clk (k + 2)) c" .
  let ?config = "config\<lparr>P_Cache := c\<rparr>"
  have inv1: "proxy_inv names (clk (k + 2)) ?config" using inv c by (rule proxy_inv_cache)
  show ?thesis
  proof (cases r)
    case (Some m)
    then show ?thesis using run get inv1 by (simp add: resolve_def)
  next
    case None
    obtain res rs w1 where tryu: "try_upstreams D N (Upstream ?config) w q = (res, rs, w1)" by (metis prod_cases3)
    have keep: "proxy_inv names (clk (k + 2)) (after_first ok ?config rs)" for ok
      using inv1 try_upstreams_keeps [OF _ tryu] by (intro proxy_inv_after_first) (auto simp: proxy_inv_def)
    obtain out1 where loop: "resolve_loop D N (clk (k + 2)) q [0..<length (Upstream ?config)] False ?config w = Inr (out1, config', w')"
      using run get None by (auto simp: resolve_def map_sum_Inr)
    show ?thesis
    proof (cases res)
      case None
      then show ?thesis using loop keep [of False] inv1 unfolding resolve_loop_eq [OF tryu] by (auto split: if_splits)
    next
      case (Some io)
      then obtain ok out2 c' where "Cache_Add D c out2 (clk (k + 2)) = Inr c'" "config' = (after_first ok ?config rs)\<lparr>P_Cache := c'\<rparr>"
        using loop unfolding resolve_loop_eq [OF tryu] by (cases io) (auto simp: map_sum_Inr)
      then show ?thesis using keep [of ok] Cache_Add_inv [OF c order.refl] by (simp add: proxy_inv_cache)
    qed
  qed
qed

text \<open>The clock does not go back during a query.\<close>

definition clock_ok :: "int \<Rightarrow> (nat \<Rightarrow> int) \<Rightarrow> bool" where
  "clock_ok t clk \<longleftrightarrow> t \<le> clk 0 \<and> (\<forall>i < 8. clk i \<le> clk (Suc i))"

lemma clock_mono:
  assumes "clock_ok t clk" "j \<le> 8" "i \<le> j"
  shows "clk i \<le> clk j" "t \<le> clk i"
proof -
  have "i + n \<le> 8 \<Longrightarrow> clk i \<le> clk (i + n)" for i n
  proof (induction n)
    case (Suc n)
    have "clk (i + n) \<le> clk (Suc (i + n))" using assms(1) Suc.prems by (simp add: clock_ok_def)
    then show ?case using Suc by simp
  qed simp
  from this [of i "j - i"] this [of 0 i] show "clk i \<le> clk j" "t \<le> clk i"
    using assms by (auto simp: clock_ok_def)
qed

lemma serve_dns64_inv:
  assumes "proxy_inv names (clk 4) config" "clock_ok t clk" "serve_dns64 D N clk config w q item = Inr s"
  shows "proxy_inv names (clk 8) (s_config s)"
proof -
  obtain q4 r where q4: "set_qtype q TypeA = Inr q4" "resolve D N clk 5 config w q4 = Inr r"
    using assms(3) by (auto simp: serve_dns64_def and_then_Inr)
  obtain out cached config' w' where r: "r = (out, cached, config', w')" by (cases r) auto
  have q4: "resolve D N clk 5 config w q4 = Inr (out, cached, config', w')" "s_config s = config'"
    using assms(3) q4 r by (cases out; auto simp: serve_dns64_def and_then_Inr Let_def)+
  have "proxy_inv names (clk (5 + 2)) config'"
    using clock_mono [OF assms(2)] by (intro resolve_inv [OF assms(1) _ _ _ q4(1)]) simp_all
  with q4(2) show ?thesis using clock_mono [OF assms(2), of 8 7] by (auto intro: proxy_inv_mono)
qed

lemma serve_inv:
  assumes inv: "proxy_inv names t config" and clk: "clock_ok t clk" and run: "serve D N clk config w q qname qtype item = Inr s"
  shows "proxy_inv names (clk 8) (s_config s)"
proof (cases "\<not> blockingPaused config (clk 1) \<and> BlockList_Match (P_BlockList config) qname qtype")
  case True
  then show ?thesis using run inv clock_mono [OF clk, of 8 8] by (auto simp: serve_def intro: proxy_inv_mono)
next
  case False
  then obtain r where r: "resolve D N clk 2 config w q = Inr r" using run by (auto simp: serve_def and_then_Inr)
  obtain out cached config' w' where "r = (out, cached, config', w')" by (cases r) auto
  with r have res: "resolve D N clk 2 config w q = Inr (out, cached, config', w')" by simp
  have s: "s_config s = config' \<or> serve_dns64 D N clk config' w' q item = Inr s"
    using run False res by (cases out) (auto simp: serve_def split: if_splits)
  have "proxy_inv names (clk (2 + 2)) config'"
    using clock_mono(1) [OF clk] clock_mono(2) [OF clk, of 2 2] by (intro resolve_inv [OF inv _ _ _ res]) simp_all
  then have inv4: "proxy_inv names (clk 4) config'" by simp
  then show ?thesis
    using s serve_dns64_inv [OF inv4 clk] clock_mono [OF clk, of 8 4] by (auto intro: proxy_inv_mono)
qed

lemma handle_inv:
  assumes inv: "proxy_inv names t config" and clk: "clock_ok t clk" and run: "handle D N clk config w addr q = Inr s"
  shows "proxy_inv names (clk 8) (s_config s)"
proof -
  have "s_config s = config \<or> (\<exists>qname qtype item. serve D N clk config w q qname qtype item = Inr s)"
    using run by (auto simp: handle_def Let_def split: option.splits list.splits if_splits)
  then show ?thesis
    using inv serve_inv [OF inv clk] clock_mono [OF clk, of 8 8] by (auto intro: proxy_inv_mono)
qed

lemma MakeHandler_inv:
  assumes inv: "proxy_inv names t config" and clk: "clock_ok t clk"
    and run: "MakeHandler D N clk config w addr q = Inr (m, config', w', calls)"
  shows "proxy_inv names (clk 8) config'"
proof -
  obtain s item stats where s: "handle D N clk config w addr q = Inr s" "Stats_Add (StatsHandler (s_config s)) item = Inr (stats, calls)"
    "config' = (s_config s)\<lparr>StatsHandler := stats\<rparr>"
    using run by (auto simp: MakeHandler_def and_then_Inr Let_def)
  have inv': "proxy_inv names (clk 8) (s_config s)" using handle_inv [OF inv clk s(1)] .
  then have "rb_wf stats" using s(2) by (auto simp: proxy_inv_def Stats_Add_def Insert_eq intro: inserted_wf)
  with inv' s(3) show ?thesis by (simp add: proxy_inv_def)
qed

section \<open>No panics\<close>

text \<open>Upstreams that answer a query with a question give a message with a question.\<close>

definition replies_have_question :: "dns_lib \<Rightarrow> 'w netops \<Rightarrow> bool" where
  "replies_have_question D N \<longleftrightarrow>
     (\<forall>r w q out r' w'. Resolve D N r w q = (Inr out, r', w') \<longrightarrow> MQuestion q \<noteq> [] \<longrightarrow> MQuestion out \<noteq> [])"

lemma try_upstreams_question:
  "replies_have_question D N \<Longrightarrow> MQuestion q \<noteq> [] \<Longrightarrow> try_upstreams D N rs w q = (Some (i, out), rs', w') \<Longrightarrow> MQuestion out \<noteq> []"
proof (induction rs arbitrary: w i rs')
  case (Cons r rs)
  have "Resolve D N r w q = (Inr out, r', w1) \<Longrightarrow> MQuestion out \<noteq> []" for r' w1
    using Cons.prems(1,2) unfolding replies_have_question_def by blast
  with Cons.IH [OF Cons.prems(1,2)] Cons.prems(3) show ?case by (auto split: prod.splits sum.splits)
qed simp

lemma Cache_Add_no_panic: "MQuestion out \<noteq> [] \<Longrightarrow> \<exists>c'. Cache_Add D c out now = Inr c'"
  by (auto simp: Cache_Add_def Let_def neq_Nil_conv)

lemma resolve_no_panic:
  assumes "replies_have_question D N" "MQuestion q \<noteq> []" "cache_inv t (P_Cache config)"
  shows "\<exists>out cached config' w'. resolve D N clk k config w q = Inr (out, cached, config', w') \<and>
    (\<forall>m. out = Inr m \<longrightarrow> MQuestion m \<noteq> [])"
proof -
  obtain qu qs where q: "MQuestion q = qu # qs" using assms(2) by (cases "MQuestion q") auto
  let ?k = "query_key D qu" and ?c = "cache_touch (P_Cache config) (query_key D qu) (clk k)"
  note get = Cache_Get_eq [OF q, of D "P_Cache config" "clk k" "clk (k + 1)"]
  show ?thesis
  proof (cases "live (P_Cache config) (clk k) ?k")
    case (Some v)
    then have "gm_get (CacheMap (P_Cache config)) ?k = Some v" by (auto simp: live_def split: option.splits if_splits)
    from cache_invD(1) [OF assms(3) this] have "MQuestion (Message v) \<noteq> []" by (simp add: item_ok_def)
    then show ?thesis using get Some by (auto simp: resolve_def)
  next
    case None
    let ?config = "config\<lparr>P_Cache := ?c\<rparr>"
    obtain res rs w1 where tryu: "try_upstreams D N (Upstream ?config) w q = (res, rs, w1)" by (metis prod_cases3)
    show ?thesis
    proof (cases res)
      case None
      then show ?thesis using get \<open>live _ _ _ = None\<close> resolve_loop_eq [OF tryu] by (auto simp: resolve_def)
    next
      case (Some io)
      then obtain i out where io: "res = Some (i, out)" by (cases io) auto
      have m: "MQuestion out \<noteq> []" using try_upstreams_question [OF assms(1,2)] tryu io by blast
      obtain c' where "Cache_Add D ?c out (clk (k + 2)) = Inr c'" using Cache_Add_no_panic [OF m] by blast
      then show ?thesis using get None io m resolve_loop_eq [OF tryu, of "clk (k + 2)"] by (auto simp: resolve_def)
    qed
  qed
qed

lemma serve_dns64_no_panic:
  assumes "replies_have_question D N" "MQuestion q \<noteq> []" "cache_inv t (P_Cache config)"
  shows "\<exists>s. serve_dns64 D N clk config w q item = Inr s \<and> written s \<noteq> None"
proof -
  obtain q4 where q4: "set_qtype q TypeA = Inr q4" "MQuestion q4 \<noteq> []"
    using assms(2) by (cases "MQuestion q") (auto simp: set_qtype_def)
  from resolve_no_panic [OF assms(1) q4(2) assms(3)] obtain out cached config' w'
    where r: "resolve D N clk 5 config w q4 = Inr (out, cached, config', w')" "\<forall>m. out = Inr m \<longrightarrow> MQuestion m \<noteq> []" by blast
  show ?thesis
  proof (cases out)
    case (Inr m)
    then obtain m' where "set_qtype m TypeAAAA = Inr m'" using r(2) by (cases "MQuestion m") (auto simp: set_qtype_def)
    then show ?thesis using q4(1) r(1) Inr by (simp add: serve_dns64_def Let_def)
  qed (use q4(1) r(1) in \<open>simp add: serve_dns64_def\<close>)
qed

lemma serve_no_panic:
  assumes "replies_have_question D N" "MQuestion q \<noteq> []" "proxy_inv names t config" "clock_ok t clk"
  shows "\<exists>s. serve D N clk config w q qname qtype item = Inr s \<and> written s \<noteq> None"
proof (cases "\<not> blockingPaused config (clk 1) \<and> BlockList_Match (P_BlockList config) qname qtype")
  case True
  then show ?thesis by (simp add: serve_def)
next
  case False
  have c: "cache_inv t (P_Cache config)" using assms(3) by (simp add: proxy_inv_def)
  from resolve_no_panic [OF assms(1,2) c] obtain out cached config' w'
    where r: "resolve D N clk 2 config w q = Inr (out, cached, config', w')" by blast
  have "proxy_inv names (clk (2 + 2)) config'"
    using clock_mono(1) [OF assms(4)] clock_mono(2) [OF assms(4), of 2 2] by (intro resolve_inv [OF assms(3) _ _ _ r]) simp_all
  then have c': "cache_inv (clk 4) (P_Cache config')" by (simp add: proxy_inv_def)
  show ?thesis
    using False r serve_dns64_no_panic [OF assms(1,2) c'] by (cases out) (auto simp: serve_def)
qed

text \<open>Whether the handler serves a query: the client's address can be read, one question, and the ACL.\<close>

definition admitted :: "ProxyConfig \<Rightarrow> string \<Rightarrow> Msg \<Rightarrow> bool" where
  "admitted config clientAddr q \<longleftrightarrow>
     length (MQuestion q) = 1 \<and>
     (\<exists>host port. SplitHostPort clientAddr = Some (host, port) \<and> checkAcl (P_Acl config) (ParseIP (strip_zone host)))"

lemma handle_admitted:
  assumes "admitted config clientAddr q" "MQuestion q = [qu]"
  shows "handle D N clk config w clientAddr q =
    serve D N clk config w q (CanonicalName D (Q_Name qu)) (Qtype qu)
      (zeroLog\<lparr>Timestamp := clk 0, Client := clientAddr, Qname := CanonicalName D (Q_Name qu),
        CL_Qtype := TypeToString D (Qtype qu), Acl := True\<rparr>)"
  using assms by (auto simp: handle_def admitted_def Let_def)

lemma handle_refused:
  assumes "\<not> admitted config clientAddr q"
  shows "\<exists>item. handle D N clk config w clientAddr q =
      Inr \<lparr>written = None, logItem = item, s_config = config, s_world = w\<rparr> \<and>
    Client item = clientAddr \<and> \<not> Acl item \<and> \<not> Blocked item \<and> \<not> Cached item \<and> \<not> Error item"
proof (cases "SplitHostPort clientAddr")
  case None
  then show ?thesis by (simp add: handle_def zeroLog_def)
next
  case (Some hp)
  obtain host port where hp: "hp = (host, port)" by fastforce
  show ?thesis
  proof (cases "length (MQuestion q) = 1")
    case True
    then obtain qu where "MQuestion q = [qu]" by (cases "MQuestion q") auto
    moreover have "\<not> checkAcl (P_Acl config) (ParseIP (strip_zone host))" using assms True Some hp by (auto simp: admitted_def)
    ultimately show ?thesis using Some hp by (simp add: handle_def Let_def zeroLog_def)
  next
    case False
    then show ?thesis using Some hp by (auto simp: handle_def Let_def zeroLog_def split: list.splits)
  qed
qed

lemma MakeHandler_eq:
  assumes "handle D N clk config w clientAddr q = Inr s" "rb_wf (StatsHandler (s_config s))"
  shows "MakeHandler D N clk config w clientAddr q =
    (let item = (logItem s)\<lparr>QueryTime := clk 8 - clk 0\<rparr>; stats = StatsHandler (s_config s)
     in Inr (written s, (s_config s)\<lparr>StatsHandler := inserted stats item\<rparr>, s_world s, map (\<lambda>(id, h). (h, item)) (hooks stats)))"
  using assms by (simp add: MakeHandler_def Stats_Add_def Insert_eq Let_def)

section \<open>What a query changes\<close>

definition only_resolving :: "ProxyConfig \<Rightarrow> ProxyConfig \<Rightarrow> bool" where
  "only_resolving config config' \<longleftrightarrow>
     (\<exists>u e c. config' = config\<lparr>Upstream := u, UpstreamErr := e, P_Cache := c\<rparr>)"

lemma only_resolving_refl: "only_resolving config config"
  unfolding only_resolving_def
  by (rule exI [of _ "Upstream config"], rule exI [of _ "UpstreamErr config"], rule exI [of _ "P_Cache config"]) simp

lemma only_resolving_trans: "only_resolving a b \<Longrightarrow> only_resolving b c \<Longrightarrow> only_resolving a c"
  unfolding only_resolving_def by (elim exE, intro exI) simp

lemma only_resolving_update:
  "only_resolving config (config\<lparr>P_Cache := c\<rparr>)" "only_resolving config (after_first ok config rs)"
  "only_resolving config ((after_first ok config rs)\<lparr>P_Cache := c\<rparr>)"
proof -
  have cache: "only_resolving x (x\<lparr>P_Cache := c\<rparr>)" for x
    unfolding only_resolving_def
    by (rule exI [of _ "Upstream x"], rule exI [of _ "UpstreamErr x"], rule exI [of _ c]) simp
  have first: "only_resolving config (after_first ok config rs)"
    unfolding only_resolving_def
    by (rule exI [of _ "Upstream (after_first ok config rs)"], rule exI [of _ "UpstreamErr (after_first ok config rs)"],
        rule exI [of _ "P_Cache config"]) (simp add: after_first_def)
  show "only_resolving config (config\<lparr>P_Cache := c\<rparr>)" by (rule cache)
  show "only_resolving config (after_first ok config rs)" by (rule first)
  show "only_resolving config ((after_first ok config rs)\<lparr>P_Cache := c\<rparr>)" using first cache by (rule only_resolving_trans)
qed

lemma only_resolving_fields:
  assumes "only_resolving config config'"
  shows "StatsHandler config' = StatsHandler config" "P_BlockList config' = P_BlockList config"
    "P_Acl config' = P_Acl config" "Dns64 config' = Dns64 config" "Dns64Prefix config' = Dns64Prefix config"
    "BlockPauseUntil config' = BlockPauseUntil config"
  using assms by (auto simp: only_resolving_def)

lemma resolve_cases:
  assumes "resolve D N clk k config w q = Inr (out, cached, config', w')"
  obtains (hit) c m where "Cache_Get D (P_Cache config) q (clk k) (clk (k + 1)) = Inr (c, Some m)" "cached"
      "out = Inr m" "config' = config\<lparr>P_Cache := c\<rparr>" "w' = w"
  | (miss) c res rs where "Cache_Get D (P_Cache config) q (clk k) (clk (k + 1)) = Inr (c, None)" "\<not> cached"
      "try_upstreams D N (Upstream config) w q = (res, rs, w')"
      "(case res of
         None \<Rightarrow> Inr (Inl all_failed, if Upstream config = [] then config\<lparr>P_Cache := c\<rparr> else after_first False (config\<lparr>P_Cache := c\<rparr>) rs, w')
       | Some (i, m) \<Rightarrow> map_sum id (\<lambda>c'. (Inr m, (after_first (i = 0) (config\<lparr>P_Cache := c\<rparr>) rs)\<lparr>P_Cache := c'\<rparr>, w'))
           (Cache_Add D c m (clk (k + 2)))) = Inr (out, config', w')"
proof (cases "Cache_Get D (P_Cache config) q (clk k) (clk (k + 1))")
  case (Inl p)
  then show thesis using assms by (simp add: resolve_def)
next
  case (Inr cr)
  obtain c r where cr: "cr = (c, r)" by fastforce
  show thesis
  proof (cases r)
    case (Some m)
    then show thesis using assms Inr cr by (intro hit) (auto simp: resolve_def)
  next
    case None
    let ?config = "config\<lparr>P_Cache := c\<rparr>"
    obtain res rs w1 where tryu: "try_upstreams D N (Upstream ?config) w q = (res, rs, w1)" by (metis prod_cases3)
    have loop: "resolve_loop D N (clk (k + 2)) q [0..<length (Upstream ?config)] False ?config w = Inr (out, config', w')"
      "\<not> cached" using assms Inr cr None by (auto simp: resolve_def map_sum_Inr)
    then have "w1 = w'" unfolding resolve_loop_eq [OF tryu] by (cases res) (auto simp: map_sum_Inr)
    then show thesis
      using Inr cr None tryu loop unfolding resolve_loop_eq [OF tryu] by (intro miss) (auto split: option.splits)
  qed
qed

lemma resolve_frame:
  assumes "resolve D N clk k config w q = Inr (out, cached, config', w')"
  shows "only_resolving config config'"
  using assms
proof (cases rule: resolve_cases)
  case (hit c m)
  then show ?thesis by (simp add: only_resolving_update)
next
  case (miss c res rs)
  have "only_resolving (config\<lparr>P_Cache := c\<rparr>) config'"
    using miss(4) by (cases res) (auto simp: map_sum_Inr only_resolving_refl only_resolving_update split: if_splits)
  with only_resolving_update(1) show ?thesis by (rule only_resolving_trans)
qed

lemma serve_dns64_cases:
  assumes "serve_dns64 D N clk config w q item = Inr s"
  obtains q4 out cached where "set_qtype q TypeA = Inr q4" "resolve D N clk 5 config w q4 = Inr (out, cached, s_config s, s_world s)"
    "Client (logItem s) = Client item" "Blocked (logItem s) = Blocked item"
proof -
  obtain q4 r where q4: "set_qtype q TypeA = Inr q4" "resolve D N clk 5 config w q4 = Inr r"
    using assms by (auto simp: serve_dns64_def and_then_Inr)
  obtain out cached config' w' where r: "r = (out, cached, config', w')" by (cases r) auto
  have "s_config s = config' \<and> s_world s = w' \<and> Client (logItem s) = Client item \<and> Blocked (logItem s) = Blocked item"
    using assms q4 r by (cases out) (auto simp: serve_dns64_def and_then_Inr Let_def)
  then show thesis using that q4 r by blast
qed

lemma serve_frame:
  assumes "serve D N clk config w q qname qtype item = Inr s"
  shows "only_resolving config (s_config s) \<and> Client (logItem s) = Client item"
proof (cases "\<not> blockingPaused config (clk 1) \<and> BlockList_Match (P_BlockList config) qname qtype")
  case True
  then show ?thesis using assms by (auto simp: serve_def only_resolving_refl)
next
  case False
  then obtain r where r: "resolve D N clk 2 config w q = Inr r" using assms by (auto simp: serve_def and_then_Inr)
  obtain out cached config' w' where r': "r = (out, cached, config', w')" by (cases r) auto
  have frame: "only_resolving config config'" using r unfolding r' by (rule resolve_frame)
  have "(s_config s = config' \<and> Client (logItem s) = Client item) \<or> serve_dns64 D N clk config' w' q item = Inr s"
    using assms False r r' by (cases out) (auto simp: serve_def split: if_splits)
  then show ?thesis
  proof
    assume "serve_dns64 D N clk config' w' q item = Inr s"
    then obtain q4 out cached where r2: "resolve D N clk 5 config' w' q4 = Inr (out, cached, s_config s, s_world s)"
      "Client (logItem s) = Client item" by (rule serve_dns64_cases)
    then show ?thesis using only_resolving_trans [OF frame resolve_frame [OF r2(1)]] by simp
  qed (use frame in simp)
qed

lemma handle_no_panic:
  assumes "proxy_inv names t config" "clock_ok t clk" "replies_have_question D N"
  shows "\<exists>s. handle D N clk config w clientAddr q = Inr s \<and> (written s \<noteq> None \<longleftrightarrow> admitted config clientAddr q) \<and>
    only_resolving config (s_config s) \<and> Client (logItem s) = clientAddr"
proof (cases "admitted config clientAddr q")
  case True
  then obtain qu where qu: "MQuestion q = [qu]" by (cases "MQuestion q") (auto simp: admitted_def)
  then have "MQuestion q \<noteq> []" by simp
  from serve_no_panic [OF assms(3) this assms(1,2)] serve_frame show ?thesis
    unfolding handle_admitted [OF True qu] using True by fastforce
next
  case False
  then show ?thesis using handle_refused [OF False, of D N clk w] only_resolving_refl by fastforce
qed

lemma MakeHandler_no_panic:
  assumes "proxy_inv names t config" "clock_ok t clk" "replies_have_question D N"
  shows "\<exists>m config' w' calls. MakeHandler D N clk config w clientAddr q = Inr (m, config', w', calls)"
proof -
  obtain s where s: "handle D N clk config w clientAddr q = Inr s" using handle_no_panic [OF assms] by blast
  have "rb_wf (StatsHandler (s_config s))" using handle_inv [OF assms(1,2) s] by (simp add: proxy_inv_def)
  then show ?thesis using MakeHandler_eq [OF s] by (simp add: Let_def)
qed

section \<open>Properties\<close>

text \<open>
  Claim C5. The handler is total and answers exactly the queries it admits: from a state that satisfies the
  invariant, when upstream replies carry a question, every query returns without a panic, writes
  one message if it is admitted and none otherwise, adds exactly one item with the client's address
  to the query log, and keeps the invariant.
\<close>

theorem handler_total:
  assumes "proxy_inv names t config" "clock_ok t clk" "replies_have_question D N"
  shows "\<exists>m config' w' calls item. MakeHandler D N clk config w clientAddr q = Inr (m, config', w', calls) \<and>
    (m \<noteq> None \<longleftrightarrow> admitted config clientAddr q) \<and> proxy_inv names (clk 8) config' \<and> Client item = clientAddr \<and>
    contents (StatsHandler config') = lastn (nat (capacity (StatsHandler config))) (contents (StatsHandler config) @ [item])"
proof -
  from handle_no_panic [OF assms] obtain s where s: "handle D N clk config w clientAddr q = Inr s" "written s \<noteq> None \<longleftrightarrow> admitted config clientAddr q"
    "only_resolving config (s_config s)" "Client (logItem s) = clientAddr" by blast
  let ?item = "(logItem s)\<lparr>QueryTime := clk 8 - clk 0\<rparr>"
  have st: "StatsHandler (s_config s) = StatsHandler config" "rb_wf (StatsHandler config)"
    using only_resolving_fields [OF s(3)] assms(1) by (simp_all add: proxy_inv_def)
  have run: "MakeHandler D N clk config w clientAddr q = Inr (written s, (s_config s)\<lparr>StatsHandler := inserted (StatsHandler config) ?item\<rparr>,
      s_world s, map (\<lambda>(id, h). (h, ?item)) (hooks (StatsHandler config)))"
    using MakeHandler_eq [OF s(1)] st by (simp add: Let_def)
  show ?thesis
    using run s(2,4) MakeHandler_inv [OF assms(1,2) run] contents_inserted [OF st(2), of ?item]
    by (intro exI [of _ "written s"] exI exI [of _ ?item]) (auto simp: Let_def)
qed

text \<open>
  A configuration and a network for the witnesses: one UDP upstream, a client network 192.0.2.0/24, one
  blocked name; the network answers every UDP query with the one record and counts the queries.
\<close>

definition sample_config :: ProxyConfig where
  "sample_config =
     \<lparr>ListenAddr = [], Upstream = [UDP (NewUdpResolver ''192.0.2.53:53'')], UpstreamErr = 0, P_Cache = Cache_New,
      CacheFlush = 30 * Second, P_BlockList = BlockList_Add BlockList_New ''ads.local'' TypeANY, BlockPauseUntil = None,
      P_Acl = [\<lparr>NetIP = [192, 0, 2, 0], NetMask = [255, 255, 255, 0]\<rparr>], Dns64 = True,
      Dns64Prefix = \<lparr>NetIP = [0, 100, 255, 155, 0, 0, 0, 0, 0, 0, 0, 0, 0, 0, 0, 0], NetMask = CIDRMask 96 128\<rparr>,
      Api = False, ApiBind = '''', DohBind = [], DohCert = '''', DohKey = '''', DohPath = ''/dns-query'',
      StatsHandler = \<lparr>hooks = [], buffer = [zeroLog], capacity = 1, position = 0, rlength = 0\<rparr>,
      Refresh = False, RefreshInterval = 86400 * Second, Log = Logger_New (NewDiscard False),
      P_UserConfig = None, Setuid = False, SetuidUid = 0, SetuidGid = 0\<rparr>"

definition answer_net :: "RR list \<Rightarrow> nat netops" where
  "answer_net rrs = \<lparr>
     Exchange = (\<lambda>w q a. (Inr (q\<lparr>Response := True, Answer := rrs\<rparr>), w + 1)),
     Dial = (\<lambda>w a c. (Some EOF, w)),
     SetReadDeadline = (\<lambda>w c t. w),
     Read1 = (\<lambda>w c. (Some EOF, w)),
     ExchangeWithConn = (\<lambda>w q c. (Inl (None, EOF), w)),
     NewRequestErr = (\<lambda>m u. None),
     HttpDo = (\<lambda>w r. (Inl EOF, w))\<rparr>"

lemma answer_net_question: "replies_have_question D (answer_net rrs)"
proof -
  have "MQuestion out = MQuestion q" if reply: "Resolve D (answer_net rrs) r w q = (Inr out, r', w')" for r w q out r' w'
  proof (cases r)
    case (UDP u)
    then show ?thesis using reply by (auto simp: Udp_Resolve_def answer_net_def)
  next
    case (DOT d)
    then obtain d' where "Dot_Resolve_loop (answer_net rrs) maxAttempts None (ErrorString '''') d w q = (Inr out, d', w')"
      using reply by (auto simp: Dot_Resolve_def split: prod.splits)
    from Dot_Resolve_loop_reply [OF this] show ?thesis by (simp add: answer_net_def)
  next
    case (DOH h)
    then show ?thesis using reply by (auto simp: Doh_Resolve_def answer_net_def split: sum.splits)
  qed
  then show ?thesis unfolding replies_have_question_def by metis
qed

lemma sample_config_inv: "proxy_inv [''192.0.2.53:53''] 0 sample_config"
  by (simp add: proxy_inv_def sample_config_def rb_wf_def) (simp add: NewUdpResolver_def exI [of _ 0])

lemma sample_clock: "clock_ok 0 int"
  by (simp add: clock_ok_def)

lemma sample_host: "SplitHostPort ''192.0.2.7:5353'' = Some (''192.0.2.7'', ''5353'')"
  "SplitHostPort ''203.0.113.9:5353'' = Some (''203.0.113.9'', ''5353'')"
  by code_simp+

lemma sample_client:
  "strip_zone ''192.0.2.7'' = ''192.0.2.7''" "ParseIP ''192.0.2.7'' = v4InV6Prefix @ [192, 0, 2, 7]"
  "strip_zone ''203.0.113.9'' = ''203.0.113.9''" "ParseIP ''203.0.113.9'' = v4InV6Prefix @ [203, 0, 113, 9]"
  by code_simp+

lemma sample_admitted: "length (MQuestion q) = 1 \<Longrightarrow> admitted sample_config ''192.0.2.7:5353'' q"
  by (simp add: admitted_def sample_host sample_client checkAcl_def sample_config_def IPNet_Contains_def
      networkNumberAndMask_def To4_def v4InV6Prefix_def)

theorem handler_total_witness:
  "\<exists>m config' w' calls item.
    MakeHandler sample_lib (answer_net []) int sample_config 0 ''192.0.2.7:5353'' (sample_query ''h.local'' TypeA) = Inr (m, config', w', calls) \<and>
    (m \<noteq> None \<longleftrightarrow> admitted sample_config ''192.0.2.7:5353'' (sample_query ''h.local'' TypeA)) \<and>
    proxy_inv [''192.0.2.53:53''] (int 8) config' \<and> Client item = ''192.0.2.7:5353'' \<and>
    contents (StatsHandler config') = lastn (nat (capacity (StatsHandler sample_config))) (contents (StatsHandler sample_config) @ [item])"
  by (rule handler_total [OF sample_config_inv sample_clock answer_net_question])

text \<open>
  Claim C22. Clients outside the ACL get nothing: when an ACL is set and no network in it contains the client's
  address, no message is written, no upstream is asked, and nothing changes but the query log, whose
  new item says that access was refused.
\<close>

theorem refused_clients_get_nothing:
  assumes "SplitHostPort clientAddr = Some (host, port)" "P_Acl config \<noteq> []"
    "list_all (\<lambda>net. \<not> IPNet_Contains net (ParseIP (strip_zone host))) (P_Acl config)" "rb_wf (StatsHandler config)"
  shows "\<exists>item calls. MakeHandler D N clk config w clientAddr q =
      Inr (None, config\<lparr>StatsHandler := inserted (StatsHandler config) item\<rparr>, w, calls) \<and>
    \<not> Acl item \<and> Client item = clientAddr"
proof -
  have "\<not> admitted config clientAddr q"
    using assms(1-3) by (auto simp: admitted_def checkAcl_def list_all_iff list_ex_iff)
  then obtain item where "handle D N clk config w clientAddr q =
      Inr \<lparr>written = None, logItem = item, s_config = config, s_world = w\<rparr>" "\<not> Acl item" "Client item = clientAddr"
    using handle_refused [of config clientAddr q D N clk w] by blast
  with MakeHandler_eq [OF this(1)] assms(4) show ?thesis
    by (intro exI [of _ "item\<lparr>QueryTime := clk 8 - clk 0\<rparr>"]) (simp add: Let_def)
qed

theorem refused_clients_get_nothing_witness:
  "\<exists>item calls. MakeHandler sample_lib (answer_net []) int sample_config 0 ''203.0.113.9:5353'' (sample_query ''h.local'' TypeA) =
      Inr (None, sample_config\<lparr>StatsHandler := inserted (StatsHandler sample_config) item\<rparr>, 0, calls) \<and>
    \<not> Acl item \<and> Client item = ''203.0.113.9:5353''"
  by (rule refused_clients_get_nothing [OF sample_host(2)])
     (simp_all add: sample_config_def sample_client IPNet_Contains_def networkNumberAndMask_def To4_def v4InV6Prefix_def rb_wf_def)

text \<open>
  Claim C33. An ACL entry \<^verbatim>\<open>a.b.c.d/n\<close> admits exactly the IPv4 clients whose first \<open>n\<close> bits are those of
  \<^verbatim>\<open>a.b.c.d\<close>: the entry is accepted when the options are read, adds one network to the ACL, and
  membership of a client, from the text of its address to the comparison, is agreement on the prefix.
\<close>

theorem acl_entry_is_prefix:
  assumes "n \<le> 32"
  shows "\<exists>cidr. set_Acl (uc\<lparr>U_Acl := [dotted [a, b, c, d] @ ''/'' @ fmt_d n]\<rparr>) config = Inr (config\<lparr>P_Acl := P_Acl config @ [cidr]\<rparr>) \<and>
    (checkAcl [cidr] (ParseIP (dotted [e, f, g, h])) \<longleftrightarrow> take n (ip_bits [e, f, g, h]) = take n (ip_bits [a, b, c, d]))"
proof -
  let ?cidr = "\<lparr>NetIP = map2 (AND) [a, b, c, d] (CIDRMask n 32), NetMask = CIDRMask n 32\<rparr>"
  have "IPNet_Contains ?cidr (v4InV6Prefix @ [e, f, g, h]) = IPNet_Contains ?cidr [e, f, g, h]"
    by (simp add: IPNet_Contains_def To4_def v4InV6Prefix_def)
  then have "checkAcl [?cidr] (ParseIP (dotted [e, f, g, h])) \<longleftrightarrow> take n (ip_bits [e, f, g, h]) = take n (ip_bits [a, b, c, d])"
    using Contains_masked_v4 [of "[a, b, c, d]" n "[e, f, g, h]"] assms by (simp add: checkAcl_def ParseIP_dotted)
  moreover have "set_Acl (uc\<lparr>U_Acl := [dotted [a, b, c, d] @ ''/'' @ fmt_d n]\<rparr>) config = Inr (config\<lparr>P_Acl := P_Acl config @ [?cidr]\<rparr>)"
    using ParseCIDR_dotted [OF assms, of a b c d] by (simp add: set_Acl_def)
  ultimately show ?thesis by blast
qed

theorem acl_entry_is_prefix_witness:
  "\<exists>cidr. set_Acl (NewUserConfig\<lparr>U_Acl := [dotted [10, 1, 0, 0] @ ''/'' @ fmt_d 16]\<rparr>) sample_config =
      Inr (sample_config\<lparr>P_Acl := P_Acl sample_config @ [cidr]\<rparr>) \<and>
    (checkAcl [cidr] (ParseIP (dotted [10, 1, 2, 3])) \<longleftrightarrow> take 16 (ip_bits [10, 1, 2, 3]) = take 16 (ip_bits [10, 1, 0, 0]))"
  by (rule acl_entry_is_prefix) simp

lemma serve_not_blocked:
  assumes "serve D N clk config w q qname qtype item = Inr s"
    "\<not> (\<not> blockingPaused config (clk 1) \<and> BlockList_Match (P_BlockList config) qname qtype)"
  shows "Blocked (logItem s) = Blocked item"
proof -
  obtain r where r: "resolve D N clk 2 config w q = Inr r" using assms by (auto simp: serve_def and_then_Inr)
  obtain out cached config' w' where r': "r = (out, cached, config', w')" by (cases r) auto
  have "Blocked (logItem s) = Blocked item \<or> serve_dns64 D N clk config' w' q item = Inr s"
    using assms r r' by (cases out) (auto simp: serve_def split: if_splits)
  moreover have "serve_dns64 D N clk config' w' q item = Inr s \<Longrightarrow> Blocked (logItem s) = Blocked item"
    by (erule serve_dns64_cases)
  ultimately show ?thesis by blast
qed

lemma dnsErrorResponse_fields:
  assumes "SetRcode_doc D" "MQuestion q = [qu]"
  shows "Rcode (dnsErrorResponse D q rcode err) = rcode" "Id (dnsErrorResponse D q rcode err) = Id q"
    "Answer (dnsErrorResponse D q rcode err) = []" "MQuestion (dnsErrorResponse D q rcode err) = [qu]"
    "Response (dnsErrorResponse D q rcode err)"
  using assms by (auto simp: dnsErrorResponse_def SetRcode_doc_def Let_def split: sum.splits option.splits)

text \<open>
  Claim C9. Blocking: an admitted query is logged as blocked exactly when blocking is not paused and the name or one
  of its parents has an entry for the type or for ANY; a blocked query gets a name error for its
  question and identifier with no answers, no upstream is asked, and the cache is left alone.
\<close>

theorem blocked_names_get_name_error:
  assumes "SetRcode_doc D" "admitted config clientAddr q" "MQuestion q = [qu]" "bl_wf (P_BlockList config)"
    "rb_wf (StatsHandler config)" "MakeHandler D N clk config w clientAddr q = Inr (m, config', w', calls)"
  shows "let B = (\<not> blockingPaused config (clk 1) \<and>
      blocked_by (bl_entries (P_BlockList config)) (splitName (CanonicalName D (Q_Name qu))) (Qtype qu)) in
    (\<exists>item. StatsHandler config' = inserted (StatsHandler config) item \<and> (Blocked item \<longleftrightarrow> B)) \<and>
    (B \<longrightarrow> w' = w \<and> P_Cache config' = P_Cache config \<and>
       (\<exists>r. m = Some r \<and> Rcode r = RcodeNameError \<and> Id r = Id q \<and> MQuestion r = [qu] \<and> Answer r = []))"
proof -
  let ?B = "\<not> blockingPaused config (clk 1) \<and> BlockList_Match (P_BlockList config) (CanonicalName D (Q_Name qu)) (Qtype qu)"
  obtain s where s: "handle D N clk config w clientAddr q = Inr s"
    using assms(6) by (auto simp: MakeHandler_def and_then_Inr)
  note serve = s [unfolded handle_admitted [OF assms(2,3)]]
  have st: "StatsHandler (s_config s) = StatsHandler config"
    using only_resolving_fields(1) serve_frame [OF serve] by blast
  have item: "Blocked (logItem s) \<longleftrightarrow> ?B" using serve_not_blocked [OF serve] serve
    by (cases ?B) (auto simp: serve_def zeroLog_def)
  have eq: "m = written s" "config' = (s_config s)\<lparr>StatsHandler := inserted (StatsHandler config) ((logItem s)\<lparr>QueryTime := clk 8 - clk 0\<rparr>)\<rparr>"
    "w' = s_world s"
    using assms(6) MakeHandler_eq [OF s] st assms(5) by (auto simp: Let_def)
  have "?B \<Longrightarrow> written s = Some (dnsErrorResponse D q RcodeNameError ''Blocked'') \<and> s_config s = config \<and> s_world s = w"
    using serve by (auto simp: serve_def)
  then show ?thesis
    using eq item dnsErrorResponse_fields [OF assms(1,3)] bl_Match [OF assms(4)]
    by (auto simp: Let_def intro!: exI [of _ "(logItem s)\<lparr>QueryTime := clk 8 - clk 0\<rparr>"])
qed

theorem blocked_names_get_name_error_witness:
  "\<exists>m config' w' calls. MakeHandler sample_lib (answer_net []) int sample_config 0 ''192.0.2.7:5353'' (sample_query ''x.ads.local'' TypeA) =
      Inr (m, config', w', calls) \<and>
    (let B = (\<not> blockingPaused sample_config 1 \<and>
       blocked_by (bl_entries (P_BlockList sample_config)) (splitName (CanonicalName sample_lib ''x.ads.local'')) TypeA) in
    (\<exists>item. StatsHandler config' = inserted (StatsHandler sample_config) item \<and> (Blocked item \<longleftrightarrow> B)) \<and>
    (B \<longrightarrow> w' = 0 \<and> P_Cache config' = P_Cache sample_config \<and>
       (\<exists>r. m = Some r \<and> Rcode r = RcodeNameError \<and> Id r = Id (sample_query ''x.ads.local'' TypeA) \<and>
          MQuestion r = [\<lparr>Q_Name = ''x.ads.local'', Qtype = TypeA, Qclass = ClassINET\<rparr>] \<and> Answer r = [])))"
proof -
  let ?q = "sample_query ''x.ads.local'' TypeA"
  have q: "MQuestion ?q = [\<lparr>Q_Name = ''x.ads.local'', Qtype = TypeA, Qclass = ClassINET\<rparr>]" by (simp add: sample_query_def)
  then have adm: "admitted sample_config ''192.0.2.7:5353'' ?q" by (intro sample_admitted) simp
  have wf: "bl_wf (P_BlockList sample_config)" "rb_wf (StatsHandler sample_config)"
    using sample_config_inv by (simp_all add: proxy_inv_def)
  obtain m config' w' calls where run: "MakeHandler sample_lib (answer_net []) int sample_config 0 ''192.0.2.7:5353'' ?q = Inr (m, config', w', calls)"
    using MakeHandler_no_panic [OF sample_config_inv sample_clock answer_net_question] by blast
  from blocked_names_get_name_error [OF sample_set_rcode adm q wf run] run show ?thesis by (intro exI conjI) simp_all
qed

text \<open>
  Claim C8. Upstreams are tried in order: on a cache miss the answer is that of the first upstream, in
  the configured order, that gives one, and it is offered to the cache; only when all fail is there an
  error. An answer of the first upstream clears the error count; its failure adds one, and when the
  count was already three it is cleared and the first upstream moves to the end of the list.
\<close>

theorem upstreams_tried_in_order:
  assumes "Cache_Get D (P_Cache config) q (clk k) (clk (k + 1)) = Inr (c, None)"
    "try_upstreams D N (Upstream config) w q = (res, rs, w')" "Upstream config \<noteq> []"
  shows "resolve D N clk k config w q =
    (case res of
       None \<Rightarrow> Inr (Inl all_failed, False, after_first False (config\<lparr>P_Cache := c\<rparr>) rs, w')
     | Some (i, out) \<Rightarrow>
         map_sum id (\<lambda>c'. (Inr out, False, (after_first (i = 0) (config\<lparr>P_Cache := c\<rparr>) rs)\<lparr>P_Cache := c'\<rparr>, w'))
           (Cache_Add D c out (clk (k + 2))))"
proof -
  have tryu: "try_upstreams D N (Upstream (config\<lparr>P_Cache := c\<rparr>)) w q = (res, rs, w')" using assms(2) by simp
  show ?thesis
    using assms(1,3) resolve_loop_eq [OF tryu, of "clk (k + 2)"]
    by (cases res) (auto simp: resolve_def map_sum.compositionality comp_def id_def)
qed

theorem upstreams_tried_in_order_witness:
  "\<exists>rs. resolve sample_lib (answer_net []) int 0 sample_config 0 (sample_query ''h.local'' TypeA) =
    map_sum id (\<lambda>c'. (Inr ((sample_query ''h.local'' TypeA)\<lparr>Response := True, Answer := []\<rparr>), False,
        (after_first True (sample_config\<lparr>P_Cache := Cache_New\<rparr>) rs)\<lparr>P_Cache := c'\<rparr>, 1))
      (Cache_Add sample_lib Cache_New ((sample_query ''h.local'' TypeA)\<lparr>Response := True, Answer := []\<rparr>) 2)"
proof -
  let ?q = "sample_query ''h.local'' TypeA"
  have get: "Cache_Get sample_lib (P_Cache sample_config) ?q (int 0) (int (0 + 1)) = Inr (Cache_New, None)"
    by (simp add: sample_config_def Cache_Get_def sample_query_def Cache_New_def Let_def)
  have "try_upstreams sample_lib (answer_net []) (Upstream sample_config) 0 ?q =
      (Some (0, ?q\<lparr>Response := True, Answer := []\<rparr>), Upstream sample_config, 1)"
    by (simp add: sample_config_def Udp_Resolve_def answer_net_def)
  from upstreams_tried_in_order [OF get this] show ?thesis
    by (intro exI [of _ "Upstream sample_config"]) (simp add: sample_config_def)
qed

text \<open>One cache miss with a dead first upstream.\<close>

lemma dead_first_step:
  assumes dead: "\<forall>r w. Resolver_String r = a \<longrightarrow> (\<exists>x r' w'. Resolve D N r w q = (Inl x, r', w'))"
    and names: "map Resolver_String (Upstream config) = a # bs" and inv: "list_all resolver_inv (Upstream config)"
    and run: "resolve D N clk k config w q = Inr (out, False, config', w')"
  shows "list_all resolver_inv (Upstream config') \<and>
    (if UpstreamErr config \<ge> 3 then map Resolver_String (Upstream config') = bs @ [a] \<and> UpstreamErr config' = 0
     else map Resolver_String (Upstream config') = a # bs \<and> UpstreamErr config' = UpstreamErr config + 1)"
  using run
proof (cases rule: resolve_cases)
  case (miss c res rs)
  obtain r rest where up: "Upstream config = r # rest" "Resolver_String r = a" using names by auto
  then obtain x r' w1 where "Resolve D N r w q = (Inl x, r', w1)" using dead by blast
  then have "\<forall>i m. res = Some (i, m) \<longrightarrow> i \<noteq> 0" using miss(3) up by (auto split: prod.splits)
  then have "\<exists>c'. config' = (after_first False (config\<lparr>P_Cache := c\<rparr>) rs)\<lparr>P_Cache := c'\<rparr>"
    using miss(4) up by (cases res) (auto simp: map_sum_Inr, metis ProxyConfig.surjective ProxyConfig.update_convs(4))
  moreover have "list_all resolver_inv rs" "map Resolver_String rs = a # bs"
    using try_upstreams_keeps [OF inv miss(3)] names by auto
  ultimately show ?thesis
    by (auto simp: after_first_def list_all_iff rotate1_map [symmetric])
qed simp


text \<open>A network without answers.\<close>

definition dead_net :: "nat netops" where
  "dead_net = \<lparr>Exchange = (\<lambda>w q a. (Inl (None, EOF), w)), Dial = (\<lambda>w a c. (Some EOF, w)), SetReadDeadline = (\<lambda>w c t. w),
     Read1 = (\<lambda>w c. (Some EOF, w)), ExchangeWithConn = (\<lambda>w q c. (Inl (None, EOF), w)), NewRequestErr = (\<lambda>m u. None),
     HttpDo = (\<lambda>w r. (Inl EOF, w))\<rparr>"

lemma dead_net_fails: "\<exists>x r' w'. Resolve D dead_net r w q = (Inl x, r', w')"
proof -
  obtain x r' w' where res: "Resolve D dead_net r w q = (x, r', w')" by (metis prod_cases3)
  show ?thesis
  proof (cases x)
    case (Inr m)
    show ?thesis
    proof (cases r)
      case (DOT d)
      then obtain d' where "Dot_Resolve_loop dead_net maxAttempts None (ErrorString '''') d w q = (Inr m, d', w')"
        using res Inr by (auto simp: Dot_Resolve_def split: prod.splits)
      from Dot_Resolve_loop_reply [OF this] show ?thesis by (simp add: dead_net_def)
    qed (use res Inr in \<open>auto simp: Udp_Resolve_def Doh_Resolve_def dead_net_def split: sum.splits\<close>)
  qed (use res in auto)
qed

definition two_upstreams :: "int \<Rightarrow> Resolver list \<Rightarrow> ProxyConfig" where
  "two_upstreams e us = sample_config\<lparr>Upstream := us, UpstreamErr := e\<rparr>"

lemma dead_resolve:
  fixes e :: int
  assumes "MQuestion q = [qu]"
  shows "resolve D dead_net clk k (two_upstreams e [UDP a, UDP b]) w q =
    (let c = two_upstreams e [UDP a, UDP b]
     in Inr (Inl all_failed, False, if e \<ge> 3 then two_upstreams 0 [UDP b, UDP a] else two_upstreams (e + 1) [UDP a, UDP b], w))"
proof -
  let ?c = "two_upstreams e [UDP a, UDP b]"
  have get: "Cache_Get D (P_Cache ?c) q (clk k) (clk (k + 1)) = Inr (Cache_New, None)"
    using assms by (simp add: two_upstreams_def sample_config_def Cache_Get_def Cache_New_def Let_def)
  have tryu: "try_upstreams D dead_net (Upstream (?c\<lparr>P_Cache := Cache_New\<rparr>)) w q = (None, [UDP a, UDP b], w)"
    by (simp add: two_upstreams_def Udp_Resolve_def dead_net_def)
  show ?thesis
    using get resolve_loop_eq [OF tryu]
    by (simp add: resolve_def Let_def) (simp add: two_upstreams_def after_first_def sample_config_def)
qed


section \<open>DNS64 and caching\<close>

lemma dns64_rr_A:
  assumes "Data rr = RA a" "length (To4 a) = 4" "length pfx = 16"
  shows "dns64_rr pfx rr =
    \<lparr>Hdr = \<lparr>Hdr_Name = Hdr_Name (Hdr rr), Rrtype = TypeAAAA, Class = ClassINET, Ttl = Ttl (Hdr rr)\<rparr>,
     Data = RAAAA (take 12 pfx @ To4 a)\<rparr>"
proof -
  obtain x0 x1 x2 x3 where x: "To4 a = [x0, x1, x2, x3]"
    using assms(2) by (auto simp: numeral_eq_Suc length_Suc_conv)
  have "pfx[12 := x0, 13 := x1, 14 := x2, 15 := x3] = take 12 pfx @ [x0, x1, x2, x3]"
    using assms(3) by (auto simp: list_eq_iff_nth_eq nth_list_update nth_append nth_Cons' less_Suc_eq numeral_eq_Suc)
  then show ?thesis using assms x by (simp add: dns64_rr_def Let_def)
qed

lemma dns64_rr_other: "(\<forall>a. Data rr = RA a \<longrightarrow> To4 a = []) \<Longrightarrow> dns64_rr pfx rr = rr"
  by (auto simp: dns64_rr_def Let_def split: RData.splits)

text \<open>
  Claim C25. DNS64: when it is on and an AAAA query gets an empty answer, the client receives the answer to
  the A query, with its question turned back to AAAA and every IPv4 address record replaced by an AAAA
  record of the same name and TTL whose address is the first twelve bytes of the prefix and then
  the four bytes of the IPv4 address; other records are kept, in place.
\<close>

theorem dns64_synthesises_addresses:
  assumes "admitted config clientAddr q" "MQuestion q = [qu]" "Qtype qu = TypeAAAA" "Dns64 config"
    "blockingPaused config (clk 1) \<or> \<not> BlockList_Match (P_BlockList config) (CanonicalName D (Q_Name qu)) TypeAAAA"
    "resolve D N clk 2 config w q = Inr (Inr out, cached, config1, w1)" "Answer out = []"
    "resolve D N clk 5 config1 w1 (q\<lparr>MQuestion := [qu\<lparr>Qtype := TypeA\<rparr>]\<rparr>) = Inr (Inr out4, cached4, config2, w2)"
    "MQuestion out4 = qu4 # qs" "length (NetIP (Dns64Prefix config)) = 16" "rb_wf (StatsHandler config)"
  shows "\<exists>m config' calls. MakeHandler D N clk config w clientAddr q = Inr (Some m, config', w2, calls) \<and>
    MQuestion m = qu4\<lparr>Qtype := TypeAAAA\<rparr> # qs \<and> Id m = Id out4 \<and>
    list_all2 (\<lambda>rr rr'. case Data rr of
        RA a \<Rightarrow> (if To4 a \<noteq> [] then rr' = \<lparr>Hdr = \<lparr>Hdr_Name = Hdr_Name (Hdr rr), Rrtype = TypeAAAA, Class = ClassINET, Ttl = Ttl (Hdr rr)\<rparr>,
                Data = RAAAA (take 12 (NetIP (Dns64Prefix config)) @ To4 a)\<rparr> else rr' = rr)
      | _ \<Rightarrow> rr' = rr) (Answer out4) (Answer m)"
proof -
  have f1: "only_resolving config config1" using resolve_frame [OF assms(6)] .
  have f2: "only_resolving config config2" using only_resolving_trans [OF f1 resolve_frame [OF assms(8)]] .
  let ?m = "out4\<lparr>MQuestion := qu4\<lparr>Qtype := TypeAAAA\<rparr> # qs, Answer := map (dns64_rr (NetIP (Dns64Prefix config))) (Answer out4)\<rparr>"
  have "\<exists>item. handle D N clk config w clientAddr q = Inr \<lparr>written = Some ?m, logItem = item, s_config = config2, s_world = w2\<rparr>"
    unfolding handle_admitted [OF assms(1,2)]
    using assms(3-9) only_resolving_fields [OF f1] only_resolving_fields [OF f2]
    by (auto simp: serve_def serve_dns64_def set_qtype_def assms(2) Let_def)
  then obtain item where h: "handle D N clk config w clientAddr q = Inr \<lparr>written = Some ?m, logItem = item, s_config = config2, s_world = w2\<rparr>" ..
  have "rb_wf (StatsHandler config2)" using assms(11) only_resolving_fields [OF f2] by simp
  with MakeHandler_eq [OF h] obtain config' calls where run: "MakeHandler D N clk config w clientAddr q = Inr (Some ?m, config', w2, calls)"
    by (simp add: Let_def)
  have "case Data rr of
        RA a \<Rightarrow> (if To4 a \<noteq> [] then dns64_rr (NetIP (Dns64Prefix config)) rr = \<lparr>Hdr = \<lparr>Hdr_Name = Hdr_Name (Hdr rr), Rrtype = TypeAAAA, Class = ClassINET, Ttl = Ttl (Hdr rr)\<rparr>,
                Data = RAAAA (take 12 (NetIP (Dns64Prefix config)) @ To4 a)\<rparr> else dns64_rr (NetIP (Dns64Prefix config)) rr = rr)
      | _ \<Rightarrow> dns64_rr (NetIP (Dns64Prefix config)) rr = rr" for rr
    using dns64_rr_A [OF _ _ assms(10), of rr] dns64_rr_other [of rr] To4_cases by (auto split: RData.splits)
  with run show ?thesis by (intro exI [of _ ?m] exI) (simp add: list_all2_map2 list_all2_same)
qed

definition v4_only_net :: "nat netops" where
  "v4_only_net = (answer_net [])\<lparr>Exchange := (\<lambda>w q a. (Inr (q\<lparr>Response := True,
     Answer := (if map Qtype (MQuestion q) = [TypeA] then [sample_rr ''h.local.'' TypeA 60 (RA [192, 0, 2, 1])] else [])\<rparr>), w + 1))\<rparr>"

theorem dns64_synthesises_addresses_witness:
  "\<exists>m config' calls. MakeHandler sample_lib v4_only_net int sample_config 0 ''192.0.2.7:5353'' (sample_query ''h.local'' TypeAAAA) =
      Inr (Some m, config', 2, calls) \<and>
    MQuestion m = [\<lparr>Q_Name = ''h.local'', Qtype = TypeAAAA, Qclass = ClassINET\<rparr>] \<and>
    Answer m = [sample_rr ''h.local.'' TypeAAAA 60 (RAAAA [0, 100, 255, 155, 0, 0, 0, 0, 0, 0, 0, 0, 192, 0, 2, 1])]"
proof -
  let ?q = "sample_query ''h.local'' TypeAAAA" and ?qu = "\<lparr>Q_Name = ''h.local'', Qtype = TypeAAAA, Qclass = ClassINET\<rparr>"
  let ?out = "?q\<lparr>Response := True, Answer := []\<rparr>"
  let ?q4 = "?q\<lparr>MQuestion := [?qu\<lparr>Qtype := TypeA\<rparr>]\<rparr>"
  let ?out4 = "?q4\<lparr>Response := True, Answer := [sample_rr ''h.local.'' TypeA 60 (RA [192, 0, 2, 1])]\<rparr>"
  have q: "MQuestion ?q = [?qu]" by (simp add: sample_query_def)
  have adm: "admitted sample_config ''192.0.2.7:5353'' ?q" by (rule sample_admitted) (simp add: q)
  have blk: "blockingPaused sample_config (int 1) \<or> \<not> BlockList_Match (P_BlockList sample_config) (CanonicalName sample_lib (Q_Name ?qu)) TypeAAAA"
    by (simp add: sample_canonical_names sample_config_def) code_simp
  have r1: "resolve sample_lib v4_only_net int 2 sample_config 0 ?q = Inr (Inr ?out, False, sample_config, 1)"
    by (simp add: resolve_def Cache_Get_def sample_config_def Cache_New_def Let_def sample_query_def Udp_Resolve_def
        v4_only_net_def answer_net_def snapshot_pos_def Cache_Add_def dns_consts newMsg_def)
  obtain config2 where r2: "resolve sample_lib v4_only_net int 5 sample_config 1 ?q4 = Inr (Inr ?out4, False, config2, 2)"
    by (simp add: resolve_def Cache_Get_def sample_config_def Cache_New_def Let_def sample_query_def Udp_Resolve_def
        v4_only_net_def answer_net_def snapshot_pos_def Cache_Add_def dns_consts newMsg_def minTTL_def ttl_step_def sample_rr_def)
  have rest: "Qtype ?qu = TypeAAAA" "Dns64 sample_config" "Answer ?out = []" "MQuestion ?out4 = ?qu\<lparr>Qtype := TypeA\<rparr> # []"
    "length (NetIP (Dns64Prefix sample_config)) = 16" "rb_wf (StatsHandler sample_config)"
    by (simp_all add: sample_config_def rb_wf_def)
  from dns64_synthesises_addresses [OF adm q rest(1,2) blk r1 rest(3) r2 rest(4,5,6)] show ?thesis
    by (auto simp: sample_rr_def sample_config_def To4_def list_all2_Cons1)
qed



section \<open>Sequences of queries\<close>

text \<open>A query event: its clock readings, the client's address and the message.\<close>

fun run_handler :: "dns_lib \<Rightarrow> 'w netops \<Rightarrow> ProxyConfig \<Rightarrow> 'w \<Rightarrow> ((nat \<Rightarrow> int) \<times> string \<times> Msg) list \<Rightarrow>
    (Msg option list \<times> ProxyConfig \<times> 'w) go" where
  "run_handler D N config w [] = Inr ([], config, w)"
| "run_handler D N config w ((clk, addr, q) # evs) =
     and_then (MakeHandler D N clk config w addr q) (\<lambda>(m, config, w, calls).
     map_sum id (\<lambda>(ms, config, w). (m # ms, config, w)) (run_handler D N config w evs))"

fun clocks_ok :: "int \<Rightarrow> ((nat \<Rightarrow> int) \<times> string \<times> Msg) list \<Rightarrow> bool" where
  "clocks_ok t [] \<longleftrightarrow> True"
| "clocks_ok t ((clk, addr, q) # evs) \<longleftrightarrow> clock_ok t clk \<and> clocks_ok (clk 8) evs"

lemma run_handler_ok:
  assumes "replies_have_question D N"
  shows "proxy_inv names t config \<Longrightarrow> clocks_ok t evs \<Longrightarrow>
    \<exists>ms config' w' t'. run_handler D N config w evs = Inr (ms, config', w') \<and> length ms = length evs \<and> proxy_inv names t' config'"
proof (induction evs arbitrary: t config w)
  case (Cons ev evs)
  obtain clk addr q where ev: "ev = (clk, addr, q)" by (cases ev) auto
  have clk: "clock_ok t clk" "clocks_ok (clk 8) evs" using Cons.prems(2) ev by auto
  obtain m c1 w1 calls where run: "MakeHandler D N clk config w addr q = Inr (m, c1, w1, calls)"
    using MakeHandler_no_panic [OF Cons.prems(1) clk(1) assms] by blast
  have "proxy_inv names (clk 8) c1" using MakeHandler_inv [OF Cons.prems(1) clk(1) run] .
  from Cons.IH [OF this clk(2), of w1] obtain ms config' w' t' where
    "run_handler D N c1 w1 evs = Inr (ms, config', w')" "length ms = length evs" "proxy_inv names t' config'" by blast
  then show ?case using ev run by auto
qed auto

text \<open>
  The upstream list over time: through any sequence of queries, whatever the upstreams do as
  long as their replies carry a question, no query panics, each is handled, the upstreams remain the
  configured ones in a rotated order, the count of consecutive errors stays between zero and three, and
  every DoT pool keeps its bound and accounts for its connections.
\<close>

theorem queries_only_rotate_upstreams:
  assumes "replies_have_question D N" "proxy_inv names t config" "clocks_ok t evs"
  shows "\<exists>ms config' w'. run_handler D N config w evs = Inr (ms, config', w') \<and> length ms = length evs \<and>
    (\<exists>n. map Resolver_String (Upstream config') = rotate n names) \<and> 0 \<le> UpstreamErr config' \<and> UpstreamErr config' \<le> 3 \<and>
    list_all resolver_inv (Upstream config')"
  using run_handler_ok [OF assms] by (fastforce simp: proxy_inv_def)

theorem queries_only_rotate_upstreams_witness:
  "\<exists>ms config' w'. run_handler sample_lib (answer_net []) sample_config 0
      [(int, ''192.0.2.7:5353'', sample_query ''h.local'' TypeA), (\<lambda>i. 9, ''192.0.2.7:5353'', sample_query ''ads.local'' TypeA)] =
      Inr (ms, config', w') \<and>
    length ms = length [(int, ''192.0.2.7:5353'', sample_query ''h.local'' TypeA), (\<lambda>i. 9, ''192.0.2.7:5353'', sample_query ''ads.local'' TypeA)] \<and>
    (\<exists>n. map Resolver_String (Upstream config') = rotate n [''192.0.2.53:53'']) \<and> 0 \<le> UpstreamErr config' \<and> UpstreamErr config' \<le> 3 \<and>
    list_all resolver_inv (Upstream config')"
  by (rule queries_only_rotate_upstreams [OF answer_net_question sample_config_inv]) (simp add: clock_ok_def)

end
