(* ===== verification/Doh.thy ===== *)
theory Doh
  imports Proxy
begin

text \<open>
  Package \<^verbatim>\<open>doh\<close>: \<^verbatim>\<open>doh.go\<close>, the DNS-over-HTTPS server. A request is what \<^verbatim>\<open>net/http\<close> hands to the
  handler, with its query string and headers parsed; the handler gives one reply, the new
  configuration and the new world. The cryptographic operations behind the certificates are the
  record \<open>cryptolib\<close>, an argument of the functions that use them.
\<close>

section \<open>Go's library: base64, headers, bodies\<close>

text \<open>
  \<^verbatim>\<open>base64.RawURLEncoding\<close>: the URL alphabet without padding. The decoder skips line breaks and does not
  look at the unused bits of the last character.
\<close>

definition b64_value :: "char \<Rightarrow> nat option" where
  "b64_value c =
     (let n = (of_char c :: nat)
      in if 65 \<le> n \<and> n \<le> 90 then Some (n - 65)
         else if 97 \<le> n \<and> n \<le> 122 then Some (n - 71)
         else if 48 \<le> n \<and> n \<le> 57 then Some (n + 4)
         else if n = 45 then Some 62
         else if n = 95 then Some 63
         else None)"

definition b64_quantum :: "nat \<Rightarrow> nat \<Rightarrow> nat \<Rightarrow> nat \<Rightarrow> u8 list" where
  "b64_quantum a b c d =
     (let v = a * 262144 + b * 4096 + c * 64 + d in [of_nat (v div 65536), of_nat (v div 256), of_nat v])"

fun b64_bytes :: "nat list \<Rightarrow> u8 list option" where
  "b64_bytes [] = Some []"
| "b64_bytes [a] = None"
| "b64_bytes [a, b] = Some (take 1 (b64_quantum a b 0 0))"
| "b64_bytes [a, b, c] = Some (take 2 (b64_quantum a b c 0))"
| "b64_bytes (a # b # c # d # vs) = map_option (append (b64_quantum a b c d)) (b64_bytes vs)"

definition DecodeString :: "string \<Rightarrow> u8 list option" where
  "DecodeString s =
     (case those (map b64_value (filter (\<lambda>c. c \<noteq> carriage \<and> c \<noteq> newline) s)) of
        None \<Rightarrow> None | Some vs \<Rightarrow> b64_bytes vs)"

text \<open>The encoder, which clients use.\<close>

definition b64_char :: "nat \<Rightarrow> char" where
  "b64_char n =
     (if n < 26 then char_of (n + 65) else if n < 52 then char_of (n + 71)
      else if n < 62 then char_of (n - 4) else if n = 62 then CHR ''-'' else CHR ''_'')"

fun b64_sextets :: "u8 list \<Rightarrow> nat list" where
  "b64_sextets [] = []"
| "b64_sextets [a] = [unat a div 4, unat a mod 4 * 16]"
| "b64_sextets [a, b] = [unat a div 4, unat a mod 4 * 16 + unat b div 16, unat b mod 16 * 4]"
| "b64_sextets (a # b # c # bs) =
     unat a div 4 # (unat a mod 4 * 16 + unat b div 16) # (unat b mod 16 * 4 + unat c div 64) # unat c mod 64 # b64_sextets bs"

definition EncodeToString :: "u8 list \<Rightarrow> string" where
  "EncodeToString bs = map b64_char (b64_sextets bs)"

text \<open>A body is the bytes that arrive before its end, and the error that ends it, if one does.\<close>

record http_req =
  R_Method :: string
  R_Path :: string
  R_Query :: "(string \<times> string) list"
  R_Header :: "(string \<times> string) list"
  R_Body :: "u8 list \<times> string option"
  R_Host :: string
  R_RemoteAddr :: string

definition Values_Get :: "(string \<times> string) list \<Rightarrow> string \<Rightarrow> string" where
  "Values_Get m k = (case map_of m k of None \<Rightarrow> '''' | Some v \<Rightarrow> v)"

definition ReadAll_Limit :: "u8 list \<times> string option \<Rightarrow> nat \<Rightarrow> string + u8 list" where
  "ReadAll_Limit body n =
     (case body of (bytes, err) \<Rightarrow>
        if n \<le> length bytes then Inr (take n bytes)
        else (case err of Some e \<Rightarrow> Inl e | None \<Rightarrow> Inr bytes))"

text \<open>A reply is an error with its text, or a success with its content type and body.\<close>

datatype http_reply = HttpError int string | HttpOk string "u8 list"

section \<open>doh.go: the handler\<close>

record dohAddr =
  network :: string
  addr :: string

record dohResponseWriter =
  dw_local :: dohAddr
  dw_remote :: dohAddr
  dw_msg :: "Msg option"

definition WriteMsg :: "dohResponseWriter \<Rightarrow> Msg \<Rightarrow> dohResponseWriter" where
  "WriteMsg w m = w\<lparr>dw_msg := Some m\<rparr>"

text \<open>The bytes of the message in a request, or the error reply.\<close>

definition doh_bytes :: "http_req \<Rightarrow> http_reply + u8 list" where
  "doh_bytes r =
     (if R_Method r = ''GET'' then
        let b64 = Values_Get (R_Query r) ''dns''
        in if b64 = '''' then Inl (HttpError 400 ''missing dns parameter'')
           else (case DecodeString b64 of
                   None \<Rightarrow> Inl (HttpError 400 ''invalid dns parameter'')
                 | Some bytes \<Rightarrow> Inr bytes)
      else if R_Method r = ''POST'' then
        if Values_Get (R_Header r) ''Content-Type'' \<noteq> ''application/dns-message'' then
          Inl (HttpError 415 ''unsupported content type'')
        else (case ReadAll_Limit (R_Body r) 65536 of
                Inl err \<Rightarrow> Inl (HttpError 400 ''error reading body'')
              | Inr bytes \<Rightarrow> Inr bytes)
      else Inl (HttpError 405 ''method not allowed''))"

text \<open>The message as it was decoded, or the error reply.\<close>

definition doh_query :: "dns_lib \<Rightarrow> ProxyConfig \<Rightarrow> http_req \<Rightarrow> http_reply + Msg" where
  "doh_query D config r =
     (if R_Path r \<noteq> DohPath config then Inl (HttpError 404 ''404 page not found'')
      else and_then (doh_bytes r) (\<lambda>msgBytes.
        case Unpack D msgBytes of
          Inl err \<Rightarrow> Inl (HttpError 400 ''invalid dns message'')
        | Inr q \<Rightarrow> Inr q))"

definition doh_respond :: "dns_lib \<Rightarrow> dohResponseWriter \<Rightarrow> http_reply" where
  "doh_respond D dohW =
     (case dw_msg dohW of
        None \<Rightarrow> HttpError 403 ''forbidden''
      | Some m \<Rightarrow>
          (case Pack D m of
             Inl err \<Rightarrow> HttpError 500 ''error packing response''
           | Inr respBytes \<Rightarrow> HttpOk ''application/dns-message'' respBytes))"

definition MakeDoHHandler :: "dns_lib \<Rightarrow> 'w netops \<Rightarrow> (nat \<Rightarrow> int) \<Rightarrow> ProxyConfig \<Rightarrow> 'w \<Rightarrow> http_req \<Rightarrow>
    (http_reply \<times> ProxyConfig \<times> 'w \<times> (nat \<times> ConnectionLog) list) go" where
  "MakeDoHHandler D N clk config w r =
     (case doh_query D config r of
        Inl reply \<Rightarrow> Inr (reply, config, w, [])
      | Inr q \<Rightarrow>
          let dohW = \<lparr>dw_local = \<lparr>network = ''tcp'', addr = R_Host r\<rparr>,
                      dw_remote = \<lparr>network = ''tcp'', addr = R_RemoteAddr r\<rparr>, dw_msg = None\<rparr>
          in and_then (MakeHandler D N clk config w (addr (dw_remote dohW)) q) (\<lambda>(m, config, w, calls).
             let dohW = (case m of None \<Rightarrow> dohW | Some m \<Rightarrow> WriteMsg dohW m)
             in Inr (doh_respond D dohW, config, w, calls)))"

section \<open>doh.go: certificates and listeners\<close>

datatype key_usage = KeyUsageDigitalSignature

datatype ext_key_usage = ExtKeyUsageServerAuth

record certTemplate =
  SerialNumber :: int
  CommonName :: string
  NotBefore :: int
  NotAfter :: int
  KeyUsage :: key_usage
  ExtKeyUsage :: "ext_key_usage list"

record ('key, 'cert) cryptolib =
  GenerateKey :: "string + 'key"
  rand_Int :: "int \<Rightarrow> string + int"
  CreateCertificate :: "certTemplate \<Rightarrow> 'key \<Rightarrow> string + u8 list"
  MarshalECPrivateKey :: "'key \<Rightarrow> string + u8 list"
  X509KeyPair :: "string \<times> u8 list \<Rightarrow> string \<times> u8 list \<Rightarrow> string + 'cert"
  LoadX509KeyPair :: "string \<Rightarrow> string \<Rightarrow> string + 'cert"

text \<open>The two readings of the clock give the start and the end of the certificate's validity.\<close>

definition generateSelfSigned :: "('key, 'cert) cryptolib \<Rightarrow> int \<Rightarrow> int \<Rightarrow> string + 'cert" where
  "generateSelfSigned C n1 n2 =
     and_then (GenerateKey C) (\<lambda>key.
     and_then (rand_Int C (2 ^ 128)) (\<lambda>serial.
     let tmpl = \<lparr>SerialNumber = serial, CommonName = ''dinosaur-dns'', NotBefore = n1 - 60 * Second,
                 NotAfter = n2 + 10 * 365 * 24 * 3600 * Second, KeyUsage = KeyUsageDigitalSignature,
                 ExtKeyUsage = [ExtKeyUsageServerAuth]\<rparr>
     in and_then (CreateCertificate C tmpl key) (\<lambda>certDER.
        and_then (MarshalECPrivateKey C key) (\<lambda>keyDER.
        X509KeyPair C (''CERTIFICATE'', certDER) (''EC PRIVATE KEY'', keyDER)))))"

record 'cert tlsConfig =
  Certificates :: "'cert list"
  NextProtos :: "string list"

definition MakeTLSConfig :: "('key, 'cert) cryptolib \<Rightarrow> int \<Rightarrow> int \<Rightarrow> string \<Rightarrow> string \<Rightarrow> string + 'cert tlsConfig" where
  "MakeTLSConfig C n1 n2 certFile keyFile =
     and_then (if certFile \<noteq> '''' \<and> keyFile \<noteq> '''' then LoadX509KeyPair C certFile keyFile else generateSelfSigned C n1 n2) (\<lambda>cert.
     Inr \<lparr>Certificates = [cert], NextProtos = [''h2'', ''http/1.1'']\<rparr>)"

text \<open>A server as it is configured; the timeouts are in nanoseconds.\<close>

record 'cert http_server =
  Srv_Addr :: string
  TLSConfig :: "'cert tlsConfig"
  ReadHeaderTimeout :: int
  ReadTimeout :: int
  WriteTimeout :: int
  IdleTimeout :: int

text \<open>
  The text of the fatal error, or the lines that are printed, the servers that are started, all with the handler
  above, and the fatal lines of those that end with an error, which \<open>serve_err\<close> gives.
\<close>

definition StartDoH :: "('key, 'cert) cryptolib \<Rightarrow> ('cert http_server \<Rightarrow> string option) \<Rightarrow> int \<Rightarrow> int \<Rightarrow> ProxyConfig \<Rightarrow>
    string + string list \<times> 'cert http_server list \<times> string list" where
  "StartDoH C serve_err n1 n2 config =
     (case MakeTLSConfig C n1 n2 (DohCert config) (DohKey config) of
        Inl err \<Rightarrow> Inl (''DoH TLS: '' @ err)
      | Inr tlsCfg \<Rightarrow>
          let servers = map (\<lambda>a. \<lparr>Srv_Addr = a, TLSConfig = tlsCfg, ReadHeaderTimeout = 10 * Second, ReadTimeout = 15 * Second,
                          WriteTimeout = 15 * Second, IdleTimeout = 120 * Second\<rparr>) (DohBind config)
          in Inr ((if DohCert config = '''' then [''DoH: using auto-generated self-signed certificate''] else []) @
                  map (\<lambda>srv. ''Starting DoH listener: '' @ Srv_Addr srv @ DohPath config) servers,
                  servers,
                  List.map_filter (\<lambda>srv. map_option (\<lambda>err. ''DoH '' @ Srv_Addr srv @ '': '' @ err) (serve_err srv)) servers))"

section \<open>Base64 round trip\<close>

lemma b64_value_char: "n < 64 \<Longrightarrow> b64_value (b64_char n) = Some n"
  by (auto simp: b64_value_def b64_char_def Let_def of_char_of)

lemma b64_char_visible: "n < 64 \<Longrightarrow> b64_char n \<noteq> carriage \<and> b64_char n \<noteq> newline"
proof -
  assume n: "n < 64"
  have "b64_value carriage = None" "b64_value newline = None"
    by (simp_all add: b64_value_def carriage_def newline_def Let_def of_char_of)
  with b64_value_char [OF n] show ?thesis by auto
qed

lemma sextet_bounds:
  "unat (a :: u8) div 4 < 64" "unat a mod 4 * 16 < 64" "unat a mod 16 * 4 < 64" "unat a mod 64 < 64"
  "unat a mod 4 * 16 + unat (b :: u8) div 16 < 64" "unat a mod 16 * 4 + unat b div 64 < 64"
proof -
  have mods: "unat a mod 4 < 4" "unat a mod 16 < 16" "unat a mod 64 < 64" by simp_all
  have divs: "unat a div 4 < 64" "unat b div 16 < 16" "unat b div 64 < 4"
    using unat_u8 [of a] unat_u8 [of b] by (simp_all add: less_mult_imp_div_less)
  show "unat a div 4 < 64" "unat a mod 4 * 16 < 64" "unat a mod 16 * 4 < 64" "unat a mod 64 < 64"
    "unat a mod 4 * 16 + unat b div 16 < 64" "unat a mod 16 * 4 + unat b div 64 < 64"
    using mods divs by linarith+
qed

lemma b64_sextets_bound: "\<forall>n \<in> set (b64_sextets bs). n < 64"
  by (induction bs rule: b64_sextets.induct) (simp_all add: sextet_bounds)

lemma those_b64: "\<forall>n \<in> set ns. n < 64 \<Longrightarrow> those (map (b64_value \<circ> b64_char) ns) = Some ns"
  by (induction ns) (simp_all add: b64_value_char)

text \<open>The quantum of the sextets of three bytes is the three bytes.\<close>

lemma quantum_value:
  fixes a b c :: nat
  shows "a div 4 * 262144 + (a mod 4 * 16 + b div 16) * 4096 + (b mod 16 * 4 + c div 64) * 64 + c mod 64 = a * 65536 + b * 256 + c"
proof -
  have sum: "x * 262144 + (y * 16 + u) * 4096 + (v * 4 + s) * 64 + t = (x * 4 + y) * 65536 + (u * 16 + v) * 256 + (s * 64 + t)"
    for x y u v s t :: nat by (simp add: algebra_simps)
  show ?thesis unfolding sum by simp
qed

lemma u8_256: "(256 :: u8) = 0"
  by (simp add: word_eq_iff_unsigned)

lemma u8_of_nat_add: "(of_nat (n * 256 + unat (b :: u8)) :: u8) = b"
  by (simp add: u8_256)

lemma b64_quantum_bytes:
  fixes a b c :: u8
  shows "b64_quantum (unat a div 4) (unat a mod 4 * 16 + unat b div 16) (unat b mod 16 * 4 + unat c div 64) (unat c mod 64) = [a, b, c]"
proof -
  let ?v = "unat a * 65536 + unat b * 256 + unat c"
  have d: "?v div 256 = unat a * 256 + unat b" "?v div 65536 = unat a"
    using unat_u8 [of b] unat_u8 [of c] by (simp_all add: div_nat_eqI)
  have v: "?v = (unat a * 256 + unat b) * 256 + unat c" by simp
  show ?thesis
    unfolding b64_quantum_def quantum_value Let_def d unfolding v u8_of_nat_add by simp
qed

lemma b64_bytes_sextets: "b64_bytes (b64_sextets bs) = Some bs"
proof (induction bs rule: b64_sextets.induct)
  case (2 a)
  show ?case using b64_quantum_bytes [of a 0 0] by simp
next
  case (3 a b)
  show ?case using b64_quantum_bytes [of a b 0] by simp
qed (simp_all add: b64_quantum_bytes)

lemma filter_visible: "\<forall>n \<in> set ns. n < 64 \<Longrightarrow>
  filter (\<lambda>c. c \<noteq> carriage \<and> c \<noteq> newline) (map b64_char ns) = map b64_char ns"
  by (induction ns) (simp_all add: b64_char_visible)

lemma DecodeString_EncodeToString: "DecodeString (EncodeToString bs) = Some bs"
  by (simp add: DecodeString_def EncodeToString_def filter_visible b64_sextets_bound those_b64 b64_bytes_sextets)

lemma EncodeToString_Nil_iff: "EncodeToString bs = '''' \<longleftrightarrow> bs = []"
  by (cases bs rule: b64_sextets.cases) (simp_all add: EncodeToString_def)

section \<open>Properties\<close>

lemma MakeDoHHandler_query:
  assumes "doh_query D config r = Inr q"
  shows "MakeDoHHandler D N clk config w r =
    map_sum id (\<lambda>(m, config', w', calls).
      (case m of None \<Rightarrow> HttpError 403 ''forbidden''
       | Some m \<Rightarrow> (case Pack D m of Inl err \<Rightarrow> HttpError 500 ''error packing response''
                   | Inr b \<Rightarrow> HttpOk ''application/dns-message'' b), config', w', calls))
      (MakeHandler D N clk config w (R_RemoteAddr r) q)"
  using assms
  by (cases "MakeHandler D N clk config w (R_RemoteAddr r) q")
     (auto simp: MakeDoHHandler_def doh_respond_def WriteMsg_def Let_def split: option.splits)

text \<open>
  Claim C12. The two ways to ask over HTTPS are one: for the bytes of a message, a GET with their base64url text and a
  POST with the bytes as its body, from the same client, have the same outcome, which is that of the DNS handler on
  the message: its answer packed, 403 when the handler drops the query, 500 when the answer cannot be packed,
  with the same effect on the configuration, the world and the log.
\<close>

theorem doh_get_and_post_agree:
  assumes "bytes \<noteq> []" "length bytes \<le> 65536" "Unpack D bytes = Inr q"
    and get: "R_Path get = DohPath config" "R_Method get = ''GET''"
      "Values_Get (R_Query get) ''dns'' = EncodeToString bytes" "R_RemoteAddr get = client"
    and post: "R_Path post = DohPath config" "R_Method post = ''POST''"
      "Values_Get (R_Header post) ''Content-Type'' = ''application/dns-message''" "R_Body post = (bytes, None)" "R_RemoteAddr post = client"
  shows "MakeDoHHandler D N clk config w get = MakeDoHHandler D N clk config w post \<and>
    MakeDoHHandler D N clk config w post =
      map_sum id (\<lambda>(m, config', w', calls).
        (case m of None \<Rightarrow> HttpError 403 ''forbidden''
         | Some m \<Rightarrow> (case Pack D m of Inl err \<Rightarrow> HttpError 500 ''error packing response''
                     | Inr b \<Rightarrow> HttpOk ''application/dns-message'' b), config', w', calls))
        (MakeHandler D N clk config w client q)"
proof -
  have "doh_bytes get = Inr bytes"
    using assms(1) get by (simp add: doh_bytes_def DecodeString_EncodeToString EncodeToString_Nil_iff)
  then have g: "doh_query D config get = Inr q" using get(1) assms(3) by (simp add: doh_query_def)
  have "doh_bytes post = Inr bytes" using assms(2) post by (simp add: doh_bytes_def ReadAll_Limit_def)
  then have p: "doh_query D config post = Inr q" using post(1) assms(3) by (simp add: doh_query_def)
  show ?thesis using MakeDoHHandler_query [OF g, of N clk w] MakeDoHHandler_query [OF p, of N clk w] get(4) post(5) by simp
qed

definition doh_lib :: dns_lib where
  "doh_lib = sample_lib\<lparr>Unpack := \<lambda>b. Inr (sample_query ''h.local'' TypeA), Pack := \<lambda>m. Inr [1, 2, 3, 4]\<rparr>"

definition doh_request :: "string \<Rightarrow> (string \<times> string) list \<Rightarrow> u8 list \<Rightarrow> http_req" where
  "doh_request method query body =
     \<lparr>R_Method = method, R_Path = ''/dns-query'', R_Query = query, R_Header = [(''Content-Type'', ''application/dns-message'')],
      R_Body = (body, None), R_Host = ''dns.local'', R_RemoteAddr = ''192.0.2.7:5353''\<rparr>"

theorem doh_get_and_post_agree_witness:
  "MakeDoHHandler doh_lib (answer_net []) int sample_config 0 (doh_request ''GET'' [(''dns'', EncodeToString [1, 2])] []) =
     MakeDoHHandler doh_lib (answer_net []) int sample_config 0 (doh_request ''POST'' [] [1, 2])"
proof -
  have "Unpack doh_lib [1, 2] = Inr (sample_query ''h.local'' TypeA)" by (simp add: doh_lib_def)
  from doh_get_and_post_agree [of "[1, 2]" doh_lib, OF _ _ this,
      where get = "doh_request ''GET'' [(''dns'', EncodeToString [1, 2])] []" and post = "doh_request ''POST'' [] [1, 2]"
        and config = sample_config and client = "''192.0.2.7:5353''" and N = "answer_net []" and clk = int and w = 0]
  show ?thesis by (simp add: doh_request_def sample_config_def Values_Get_def)
qed

text \<open>
  Claim C24. The HTTPS server never fails a request: from a state that satisfies the invariant, when upstream replies carry a
  question, every request gets a reply without a panic and the invariant is kept. A request that carries no message
  is answered with its error and changes nothing; one that does is refused exactly when the DNS handler would not
  admit the client, so that the ACL holds over HTTPS too, and only an admitted query is ever answered.
\<close>

theorem doh_total_and_guarded:
  assumes "proxy_inv names t config" "clock_ok t clk" "replies_have_question D N"
  shows "\<exists>reply config' w' calls. MakeDoHHandler D N clk config w r = Inr (reply, config', w', calls) \<and>
    proxy_inv names (clk 8) config' \<and>
    (case doh_query D config r of
       Inl e \<Rightarrow> reply = e \<and> config' = config \<and> w' = w \<and> calls = []
     | Inr q \<Rightarrow> (reply = HttpError 403 ''forbidden'' \<longleftrightarrow> \<not> admitted config (R_RemoteAddr r) q) \<and>
         (\<forall>ct b. reply = HttpOk ct b \<longrightarrow> admitted config (R_RemoteAddr r) q))"
proof (cases "doh_query D config r")
  case (Inl e)
  then show ?thesis using assms(1) clock_mono(2) [OF assms(2), of 8 8] by (auto simp: MakeDoHHandler_def intro: proxy_inv_mono)
next
  case (Inr q)
  from handle_no_panic [OF assms] obtain s where s: "handle D N clk config w (R_RemoteAddr r) q = Inr s"
    "written s \<noteq> None \<longleftrightarrow> admitted config (R_RemoteAddr r) q" by blast
  from MakeHandler_no_panic [OF assms] obtain m config' w' calls where
    run: "MakeHandler D N clk config w (R_RemoteAddr r) q = Inr (m, config', w', calls)" by blast
  have "m = written s" using run s(1) by (auto simp: MakeHandler_def and_then_Inr Let_def)
  with s(2) have "m \<noteq> None \<longleftrightarrow> admitted config (R_RemoteAddr r) q" by simp
  with run MakeHandler_inv [OF assms(1,2) run] Inr show ?thesis
    by (cases m) (auto simp: MakeDoHHandler_query [OF Inr] split: sum.splits)
qed

theorem doh_total_and_guarded_witness:
  "\<exists>reply config' w' calls. MakeDoHHandler doh_lib (answer_net []) int sample_config 0 (doh_request ''POST'' [] [1, 2]) =
      Inr (reply, config', w', calls) \<and> proxy_inv [''192.0.2.53:53''] 8 config' \<and> reply \<noteq> HttpError 403 ''forbidden''"
proof -
  have "doh_query doh_lib sample_config (doh_request ''POST'' [] [1, 2]) = Inr (sample_query ''h.local'' TypeA)"
    by (simp add: doh_query_def doh_bytes_def doh_request_def doh_lib_def sample_config_def Values_Get_def ReadAll_Limit_def)
  moreover have "admitted sample_config (R_RemoteAddr (doh_request ''POST'' [] [1, 2])) (sample_query ''h.local'' TypeA)"
    by (simp add: doh_request_def sample_query_def sample_admitted)
  ultimately show ?thesis
    using doh_total_and_guarded [OF sample_config_inv sample_clock answer_net_question, of doh_lib "[]" 0 "doh_request ''POST'' [] [1, 2]"] by auto
qed

end
