(* ===== verification/Api.thy ===== *)
theory Api
  imports Proxy
begin

text \<open>
  Package \<^verbatim>\<open>api\<close>: the change log of \<^verbatim>\<open>changelog.go\<close>, the service of \<^verbatim>\<open>jsonrpc.go\<close> and the set-up of
  \<^verbatim>\<open>api.go\<close> (the log stream of \<^verbatim>\<open>log.go\<close> is in theory \<open>Stats\<close>). The service holds a pointer to the proxy's
  configuration and its own change log; here it is a record of the two, and a call gives a result or an error text
  with the new record, or a panic. Each lock is held for a whole operation of the change log. The
  JSON text of a configuration is a parameter, as is the printing of seconds.
\<close>

section \<open>changelog.go\<close>

record changeLog =
  blocks :: "(string, unit) gomap"
  blockDeletes :: "(string, unit) gomap"
  localRRs :: "(string, string) gomap"
  localRRPtrs :: "(string, string) gomap"
  localRRDeletes :: "(string, unit) gomap"

definition newChangeLog :: changeLog where
  "newChangeLog = \<lparr>blocks = [], blockDeletes = [], localRRs = [], localRRPtrs = [], localRRDeletes = []\<rparr>"

definition rrKey :: "dns_lib \<Rightarrow> string \<Rightarrow> string \<Rightarrow> string" where
  "rrKey D name qtype = ToLower (Fqdn D name) @ '' '' @ ToUpper qtype"

definition normalizeBlockEntry :: "string \<Rightarrow> string" where
  "normalizeBlockEntry entry =
     (let parts = SplitN2 CHR '':'' entry;
          domain = ToLower (TrimSuffix (parts ! 0) ''.'')
      in if length parts = 2 then domain @ '':'' @ ToUpper (parts ! 1) else domain)"

definition addBlock :: "changeLog \<Rightarrow> string \<Rightarrow> changeLog" where
  "addBlock c entry =
     (let key = normalizeBlockEntry entry
      in case gm_get (blockDeletes c) key of
           Some _ \<Rightarrow> c\<lparr>blockDeletes := gm_del key (blockDeletes c)\<rparr>
         | None \<Rightarrow> c\<lparr>blocks := gm_set key () (blocks c)\<rparr>)"

definition removeBlock :: "changeLog \<Rightarrow> string \<Rightarrow> changeLog" where
  "removeBlock c entry =
     (let key = normalizeBlockEntry entry
      in case gm_get (blocks c) key of
           Some _ \<Rightarrow> c\<lparr>blocks := gm_del key (blocks c)\<rparr>
         | None \<Rightarrow> c\<lparr>blockDeletes := gm_set key () (blockDeletes c)\<rparr>)"

text \<open>The key of a record text; a text without a record gives a nil record, whose header is then read.\<close>

definition rr_text_key :: "dns_lib \<Rightarrow> string \<Rightarrow> (string + string) go" where
  "rr_text_key D rrStr =
     (case NewRR D rrStr of
        Inl err \<Rightarrow> Inr (Inl err)
      | Inr None \<Rightarrow> Inl NilDereference
      | Inr (Some rr) \<Rightarrow> Inr (Inr (rrKey D (Hdr_Name (Hdr rr)) (TypeToString D (Rrtype (Hdr rr))))))"

definition addRR :: "dns_lib \<Rightarrow> changeLog \<Rightarrow> string \<Rightarrow> changeLog go" where
  "addRR D c rrStr =
     and_then (rr_text_key D rrStr) (\<lambda>r. Inr (case r of
        Inl err \<Rightarrow> c
      | Inr key \<Rightarrow>
          (case gm_get (localRRDeletes c) key of
             Some _ \<Rightarrow> c\<lparr>localRRDeletes := gm_del key (localRRDeletes c)\<rparr>
           | None \<Rightarrow> c\<lparr>localRRs := gm_set key rrStr (localRRs c)\<rparr>)))"

definition addRRPtr :: "dns_lib \<Rightarrow> changeLog \<Rightarrow> string \<Rightarrow> changeLog go" where
  "addRRPtr D c rrStr =
     and_then (rr_text_key D rrStr) (\<lambda>r. Inr (case r of
        Inl err \<Rightarrow> c
      | Inr key \<Rightarrow>
          (case gm_get (localRRDeletes c) key of
             Some _ \<Rightarrow> c\<lparr>localRRDeletes := gm_del key (localRRDeletes c)\<rparr>
           | None \<Rightarrow> c\<lparr>localRRPtrs := gm_set key rrStr (localRRPtrs c)\<rparr>)))"

definition removeRR :: "dns_lib \<Rightarrow> changeLog \<Rightarrow> string \<Rightarrow> string \<Rightarrow> changeLog" where
  "removeRR D c name qtype =
     (let key = rrKey D name qtype
      in case gm_get (localRRs c) key of
           Some _ \<Rightarrow> c\<lparr>localRRs := gm_del key (localRRs c)\<rparr>
         | None \<Rightarrow>
             (case gm_get (localRRPtrs c) key of
                Some _ \<Rightarrow> c\<lparr>localRRPtrs := gm_del key (localRRPtrs c)\<rparr>
              | None \<Rightarrow> c\<lparr>localRRDeletes := gm_set key () (localRRDeletes c)\<rparr>))"

record GetChangesRes =
  Ch_Blocks :: "string list"
  Ch_BlockDeletes :: "string list"
  Ch_LocalRRs :: "string list"
  Ch_LocalRRPtrs :: "string list"
  Ch_LocalRRDeletes :: "string list"

definition snapshot :: "changeLog \<Rightarrow> GetChangesRes" where
  "snapshot c =
     \<lparr>Ch_Blocks = sort (map fst (blocks c)), Ch_BlockDeletes = sort (map fst (blockDeletes c)),
      Ch_LocalRRs = sort (map snd (localRRs c)), Ch_LocalRRPtrs = sort (map snd (localRRPtrs c)),
      Ch_LocalRRDeletes = sort (map fst (localRRDeletes c))\<rparr>"

section \<open>jsonrpc.go\<close>

record ApiService =
  svc_config :: ProxyConfig
  changelog :: changeLog

definition NewApiService :: "ProxyConfig \<Rightarrow> ApiService" where
  "NewApiService c = \<lparr>svc_config = c, changelog = newChangeLog\<rparr>"

type_synonym 'r rpc = "((string + 'r) \<times> ApiService) go"

definition Svc_Config :: "ApiService \<Rightarrow> UserConfig rpc" where
  "Svc_Config s =
     (case P_UserConfig (svc_config s) of None \<Rightarrow> Inl NilDereference | Some uc \<Rightarrow> Inr (Inr uc, s))"

record CacheAddReq =
  CA_RR :: string
  CA_Permanent :: bool
  CA_Ptr :: bool

definition CacheAdd :: "dns_lib \<Rightarrow> (nat \<Rightarrow> int) \<Rightarrow> ApiService \<Rightarrow> CacheAddReq \<Rightarrow> unit rpc" where
  "CacheAdd D clk s req =
     (case AddRRString D (P_Cache (svc_config s)) (CA_RR req) (CA_Permanent req) (CA_Ptr req) clk of
        Inl err \<Rightarrow> Inr (Inl err, s)
      | Inr c \<Rightarrow>
          let s = s\<lparr>svc_config := (svc_config s)\<lparr>P_Cache := c\<rparr>\<rparr>
          in if CA_Permanent req then
               map_sum id (\<lambda>cl. (Inr (), s\<lparr>changelog := cl\<rparr>))
                 (if CA_Ptr req then addRRPtr D (changelog s) (CA_RR req) else addRR D (changelog s) (CA_RR req))
             else Inr (Inr (), s))"

record CacheDeleteReq =
  CD_Name :: string
  CD_Qtype :: string
  CD_Ptr :: bool

definition CacheDelete :: "dns_lib \<Rightarrow> int \<Rightarrow> int \<Rightarrow> ApiService \<Rightarrow> CacheDeleteReq \<Rightarrow> unit rpc" where
  "CacheDelete D n1 n2 s req =
     map_sum id (\<lambda>c. (Inr (), s\<lparr>svc_config := (svc_config s)\<lparr>P_Cache := c\<rparr>,
         changelog := removeRR D (changelog s) (CD_Name req) (CD_Qtype req)\<rparr>))
       (DeleteName D (P_Cache (svc_config s)) (CD_Name req) (CD_Qtype req) (CD_Ptr req) n1 n2)"

definition CacheDebug :: "dns_lib \<Rightarrow> (int \<Rightarrow> string) \<Rightarrow> (nat \<Rightarrow> int) \<Rightarrow> ApiService \<Rightarrow> string list rpc" where
  "CacheDebug D fmt_secs clk s =
     map_sum id (\<lambda>entries. (Inr entries, s)) (Cache_Debug D fmt_secs (P_Cache (svc_config s)) clk)"

definition BlockListCount :: "ApiService \<Rightarrow> nat rpc" where
  "BlockListCount s = Inr (Inr (BlockList_Count (P_BlockList (svc_config s))), s)"

text \<open>An error in the middle of the entries leaves those before it added and recorded.\<close>

fun BlockListAdd :: "dns_lib \<Rightarrow> ApiService \<Rightarrow> string list \<Rightarrow> (string + unit) \<times> ApiService" where
  "BlockListAdd D s [] = (Inr (), s)"
| "BlockListAdd D s (v # vs) =
     (case AddEntry D (P_BlockList (svc_config s)) v TypeANY of
        Inl err \<Rightarrow> (Inl (bl_error_String err), s)
      | Inr b \<Rightarrow>
          BlockListAdd D (s\<lparr>svc_config := (svc_config s)\<lparr>P_BlockList := b\<rparr>, changelog := addBlock (changelog s) v\<rparr>) vs)"

definition BlockListDelete :: "dns_lib \<Rightarrow> ApiService \<Rightarrow> string \<Rightarrow> (string + bool) \<times> ApiService" where
  "BlockListDelete D s name =
     (case DeleteEntry D (P_BlockList (svc_config s)) name TypeANY of
        Inl err \<Rightarrow> (Inl (bl_error_String err), s)
      | Inr (found, b) \<Rightarrow>
          (Inr found, s\<lparr>svc_config := (svc_config s)\<lparr>P_BlockList := b\<rparr>,
             changelog := (if found then removeBlock (changelog s) name else changelog s)\<rparr>))"

definition BlockListList :: "dns_lib \<Rightarrow> ApiService \<Rightarrow> BlockEntry list rpc" where
  "BlockListList D s = Inr (Inr (BlockList_Dump D (P_BlockList (svc_config s))), s)"

text \<open>The remaining time is kept in nanoseconds, where the source has a float of seconds.\<close>

record BlockingStatusRes =
  Paused :: bool
  Remaining :: int

definition GetBlockingStatus :: "ApiService \<Rightarrow> int \<Rightarrow> BlockingStatusRes" where
  "GetBlockingStatus s now =
     (case BlockPauseUntil (svc_config s) of
        None \<Rightarrow> \<lparr>Paused = False, Remaining = 0\<rparr>
      | Some until \<Rightarrow>
          if now < until then \<lparr>Paused = True, Remaining = until - now\<rparr> else \<lparr>Paused = False, Remaining = 0\<rparr>)"

text \<open>The product of a number of seconds and a second is that of 64-bit integers.\<close>

definition PauseBlocking :: "ApiService \<Rightarrow> int \<Rightarrow> int \<Rightarrow> int \<Rightarrow> BlockingStatusRes \<times> ApiService" where
  "PauseBlocking s seconds n1 n2 =
     (let seconds = (if seconds \<le> 0 then 300 else seconds);
          s = s\<lparr>svc_config := (svc_config s)\<lparr>BlockPauseUntil := Some (n1 + wrap64 (seconds * Second))\<rparr>\<rparr>
      in (GetBlockingStatus s n2, s))"

definition ResumeBlocking :: "ApiService \<Rightarrow> int \<Rightarrow> BlockingStatusRes \<times> ApiService" where
  "ResumeBlocking s now =
     (let s = s\<lparr>svc_config := (svc_config s)\<lparr>BlockPauseUntil := None\<rparr>\<rparr> in (GetBlockingStatus s now, s))"

definition GetChanges :: "ApiService \<Rightarrow> GetChangesRes" where
  "GetChanges s = snapshot (changelog s)"

fun filterRRs_loop :: "dns_lib \<Rightarrow> string list \<Rightarrow> string set \<Rightarrow> string list go" where
  "filterRRs_loop D [] deleteSet = Inr []"
| "filterRRs_loop D (rrStr # startup) deleteSet =
     and_then (rr_text_key D rrStr) (\<lambda>r.
     let keep = (case r of Inl err \<Rightarrow> True | Inr k \<Rightarrow> k \<notin> deleteSet)
     in map_sum id (\<lambda>out. if keep then rrStr # out else out) (filterRRs_loop D startup deleteSet))"

definition filterRRs :: "dns_lib \<Rightarrow> string list \<Rightarrow> string set \<Rightarrow> string list \<Rightarrow> string list go" where
  "filterRRs D startup deleteSet additions = map_sum id (\<lambda>out. out @ additions) (filterRRs_loop D startup deleteSet)"

definition merged_config :: "dns_lib \<Rightarrow> GetChangesRes \<Rightarrow> UserConfig \<Rightarrow> UserConfig go" where
  "merged_config D cl uc =
     (let deleteSet = set (Ch_BlockDeletes cl);
          filtered = filter (\<lambda>entry. normalizeBlockEntry entry \<notin> deleteSet) (Block uc);
          removedFromBlock = set (map normalizeBlockEntry (Block uc)) \<inter> deleteSet;
          extraDeletes = filter (\<lambda>d. d \<notin> removedFromBlock) (Ch_BlockDeletes cl);
          uc1 = uc\<lparr>Block := filtered @ Ch_Blocks cl, BlockDelete := BlockDelete uc @ extraDeletes\<rparr>;
          deleteRRSet = set (Ch_LocalRRDeletes cl)
      in and_then (filterRRs D (LocalRR uc) deleteRRSet (Ch_LocalRRs cl)) (\<lambda>rrs.
         and_then (filterRRs D (LocalRRPtr uc) deleteRRSet (Ch_LocalRRPtrs cl)) (\<lambda>ptrs.
         Inr (uc1\<lparr>LocalRR := rrs, LocalRRPtr := ptrs\<rparr>))))"

text \<open>\<open>marshal\<close> is \<^verbatim>\<open>json.MarshalIndent\<close> of a configuration.\<close>

definition GetMergedConfig :: "dns_lib \<Rightarrow> (UserConfig \<Rightarrow> string + string) \<Rightarrow> ApiService \<Rightarrow> string rpc" where
  "GetMergedConfig D marshal s =
     (case P_UserConfig (svc_config s) of
        None \<Rightarrow> Inl NilDereference
      | Some uc \<Rightarrow> map_sum id (\<lambda>uc. (marshal uc, s)) (merged_config D (snapshot (changelog s)) uc))"

section \<open>The methods together\<close>

text \<open>
  The methods that the RPC server finds in the service by name, with their arguments, and their results. The
  readings of the clock are numbered from 0.
\<close>

datatype api_call = MConfig | MCacheAdd CacheAddReq | MCacheDelete CacheDeleteReq | MCacheDebug | MBlockListCount
  | MBlockListAdd "string list" | MBlockListDelete string | MBlockListList | MGetBlockingStatus | MPauseBlocking int
  | MResumeBlocking | MGetChanges | MGetMergedConfig

datatype api_res = RConfig UserConfig | REmpty | RStrings "string list" | RCount nat | RFound bool
  | REntries "BlockEntry list" | RStatus BlockingStatusRes | RChanges GetChangesRes | RText string

definition with_res :: "('r \<Rightarrow> api_res) \<Rightarrow> 'r rpc \<Rightarrow> api_res rpc" where
  "with_res f = map_sum id (map_prod (map_sum id f) id)"

primrec api_dispatch :: "dns_lib \<Rightarrow> (int \<Rightarrow> string) \<Rightarrow> (UserConfig \<Rightarrow> string + string) \<Rightarrow> (nat \<Rightarrow> int) \<Rightarrow> ApiService \<Rightarrow> api_call \<Rightarrow> api_res rpc" where
  "api_dispatch D fmt_secs marshal clk s MConfig = with_res RConfig (Svc_Config s)"
| "api_dispatch D fmt_secs marshal clk s (MCacheAdd req) = with_res (\<lambda>_. REmpty) (CacheAdd D clk s req)"
| "api_dispatch D fmt_secs marshal clk s (MCacheDelete req) = with_res (\<lambda>_. REmpty) (CacheDelete D (clk 0) (clk 1) s req)"
| "api_dispatch D fmt_secs marshal clk s MCacheDebug = with_res RStrings (CacheDebug D fmt_secs clk s)"
| "api_dispatch D fmt_secs marshal clk s MBlockListCount = with_res RCount (BlockListCount s)"
| "api_dispatch D fmt_secs marshal clk s (MBlockListAdd entries) = with_res (\<lambda>_. REmpty) (Inr (BlockListAdd D s entries))"
| "api_dispatch D fmt_secs marshal clk s (MBlockListDelete name) = with_res RFound (Inr (BlockListDelete D s name))"
| "api_dispatch D fmt_secs marshal clk s MBlockListList = with_res REntries (BlockListList D s)"
| "api_dispatch D fmt_secs marshal clk s MGetBlockingStatus = Inr (Inr (RStatus (GetBlockingStatus s (clk 0))), s)"
| "api_dispatch D fmt_secs marshal clk s (MPauseBlocking seconds) =
     Inr (map_prod (Inr \<circ> RStatus) id (PauseBlocking s seconds (clk 0) (clk 1)))"
| "api_dispatch D fmt_secs marshal clk s MResumeBlocking = Inr (map_prod (Inr \<circ> RStatus) id (ResumeBlocking s (clk 0)))"
| "api_dispatch D fmt_secs marshal clk s MGetChanges = Inr (Inr (RChanges (GetChanges s)), s)"
| "api_dispatch D fmt_secs marshal clk s MGetMergedConfig = with_res RText (GetMergedConfig D marshal s)"

section \<open>api.go\<close>

text \<open>
  Where the service listens. \<open>listen\<close> is the error of binding a listener, if any; the last component is the socket
  that is removed when a signal ends the program.
\<close>

datatype listener = UnixListener string | TcpListener string

definition bindListener :: "(listener \<Rightarrow> string option) \<Rightarrow> string \<Rightarrow> ((string + listener) \<times> string option) go" where
  "bindListener listen bindAddress =
     (case bindAddress of
        [] \<Rightarrow> Inl IndexOutOfRange
      | c # _ \<Rightarrow>
          let l = (if c = CHR ''/'' then UnixListener bindAddress else TcpListener bindAddress)
          in Inr (case listen l of Some err \<Rightarrow> Inl err | None \<Rightarrow> Inr l,
                  if c = CHR ''/'' then Some bindAddress else None))"

datatype api_route = ExactPath string | PathPrefix string

datatype api_target = Pong | RedirectTo string | RpcServer | LogHandler_target | StaticFiles | TestFiles

definition api_routes :: "(api_route \<times> api_target) list" where
  "api_routes =
     [(ExactPath ''/ping'', Pong), (ExactPath ''/'', RedirectTo ''/static/index.html''), (ExactPath ''/api'', RpcServer),
      (ExactPath ''/log'', LogHandler_target), (PathPrefix ''/static/'', StaticFiles), (PathPrefix ''/test/'', TestFiles)]"

text \<open>The lines printed, and the fatal error or what is served; \<open>serve_err\<close> is the error that ends \<^verbatim>\<open>http.Serve\<close>, if any.\<close>

record api_server =
  A_Listener :: listener
  A_Service :: ApiService
  A_Routes :: "(api_route \<times> api_target) list"

definition MakeApiHandler :: "(listener \<Rightarrow> string option) \<Rightarrow> (listener \<Rightarrow> string option) \<Rightarrow> ProxyConfig \<Rightarrow>
    (string list \<times> (string + api_server)) go" where
  "MakeApiHandler listen serve_err config =
     and_then (bindListener listen (ApiBind config)) (\<lambda>(l, _). Inr (case l of
        Inl err \<Rightarrow> ([], Inl (''API listener could not bind ['' @ ApiBind config @ '']: '' @ err))
      | Inr l \<Rightarrow>
          ([''Starting API Listener: '' @ ApiBind config],
           case serve_err l of
             Some err \<Rightarrow> Inl (''Error starting API server: '' @ err)
           | None \<Rightarrow> Inr \<lparr>A_Listener = l, A_Service = NewApiService config, A_Routes = api_routes\<rparr>)))"

section \<open>Keys of the change log\<close>

lemma SplitN2_Split_single: "Split c s = [n] \<Longrightarrow> SplitN2 c s = [n] \<and> s = n"
proof -
  assume s: "Split c s = [n]"
  then have n: "s = n" using Join_Split [of c s] by simp
  have "c \<notin> set n" using Split_parts [of n c s] s by simp
  then have "dropWhile (\<lambda>x. x \<noteq> c) n = []" by (auto simp: dropWhile_eq_Nil_conv)
  then show ?thesis unfolding SplitN2_def n by (simp only: list.case simp_thms)
qed

lemma SplitN2_Split_pair: "Split c s = [n, t] \<Longrightarrow> SplitN2 c s = [n, t] \<and> s = n @ c # t"
proof -
  assume s: "Split c s = [n, t]"
  then have "s = n @ c # t" using Join_Split [of c s] by simp
  moreover have "c \<notin> set n" using Split_parts [of n c s] s by simp
  ultimately show ?thesis by (auto simp: SplitN2_def takeWhile_append dropWhile_append)
qed

text \<open>
  An entry whose key keeps its meaning: its name does not end in two dots and its type, if given, is spelled in
  upper case and is not \<open>ANY\<close>, which is what an entry without a type means.
\<close>

definition plain_entry :: "dns_lib \<Rightarrow> string \<Rightarrow> bool" where
  "plain_entry D s \<longleftrightarrow>
     (let parts = Split CHR '':'' s
      in \<not> HasSuffix (TrimSuffix (parts ! 0) ''.'') ''.'' \<and>
         (length parts = 2 \<longrightarrow> ToUpper (parts ! 1) = parts ! 1 \<and> StringToType D (parts ! 1) \<noteq> Some TypeANY))"

lemma entry_cases:
  assumes "plain_entry D s" "parse_entry D TypeANY s = Some e"
  obtains (untyped) "Split CHR '':'' s = [s]" "e = (splitName s, TypeANY)" "normalizeBlockEntry s = ToLower (TrimSuffix s ''.'')"
      "\<not> HasSuffix (TrimSuffix s ''.'') ''.''"
  | (typed) n t q where "Split CHR '':'' s = [n, t]" "e = (splitName n, q)" "StringToType D t = Some q" "q \<noteq> TypeANY"
      "normalizeBlockEntry s = ToLower (TrimSuffix n ''.'') @ CHR '':'' # t" "\<not> HasSuffix (TrimSuffix n ''.'') ''.''" "ToUpper t = t"
proof -
  consider n where "Split CHR '':'' s = [n]" | n t where "Split CHR '':'' s = [n, t]"
    using assms(2) by (auto simp: parse_entry_def split: list.splits)
  then show thesis
  proof cases
    case (1 n)
    with SplitN2_Split_single [OF 1] show thesis
      using assms by (intro untyped) (auto simp: parse_entry_def plain_entry_def normalizeBlockEntry_def)
  next
    case (2 n t)
    obtain q where q: "StringToType D t = Some q" "e = (splitName n, q)" using assms(2) 2 by (auto simp: parse_entry_def)
    show thesis
      using SplitN2_Split_pair [OF 2] assms(1) q 2
      by (intro typed [OF 2 q(2,1)]) (auto simp: plain_entry_def normalizeBlockEntry_def)
  qed
qed

lemma key_name:
  assumes "\<not> HasSuffix (TrimSuffix n ''.'') ''.''"
  shows "TrimSuffix (ToLower (TrimSuffix n ''.'')) ''.'' = ToLower (TrimSuffix n ''.'')"
    "splitName (ToLower (TrimSuffix n ''.'')) = splitName n"
proof -
  show trim: "TrimSuffix (ToLower (TrimSuffix n ''.'')) ''.'' = ToLower (TrimSuffix n ''.'')"
    using assms by (intro TrimSuffix_id) simp
  show "splitName (ToLower (TrimSuffix n ''.'')) = splitName n"
    by (simp add: splitName_eq_iff trim)
qed

lemma no_colon_name: "CHR '':'' \<notin> set n \<Longrightarrow> CHR '':'' \<notin> set (ToLower (TrimSuffix n ''.''))"
  by (rule colon_not_in_ToLower) (auto simp: TrimSuffix_single dest: in_set_butlastD)

text \<open>A key means what its entry means, is its own key and is plain.\<close>

lemma key_meaning:
  assumes "plain_entry D s" "parse_entry D TypeANY s = Some e"
  shows "parse_entry D TypeANY (normalizeBlockEntry s) = Some e \<and>
    normalizeBlockEntry (normalizeBlockEntry s) = normalizeBlockEntry s \<and> plain_entry D (normalizeBlockEntry s)"
  using assms
proof (cases rule: entry_cases)
  case untyped
  let ?k = "ToLower (TrimSuffix s ''.'')"
  have "CHR '':'' \<notin> set s" using untyped(1) Split_parts [of s "CHR '':''" s] by simp
  then have k: "Split CHR '':'' ?k = [?k]" by (intro Split_no_sep no_colon_name)
  show ?thesis
    using untyped key_name [OF untyped(4)] k SplitN2_Split_single [OF k]
    by (simp add: parse_entry_def plain_entry_def normalizeBlockEntry_def [of ?k])
next
  case (typed n t q)
  let ?n = "ToLower (TrimSuffix n ''.'')"
  have c: "CHR '':'' \<notin> set n" "CHR '':'' \<notin> set t"
    using typed(1) Split_parts [of n "CHR '':''" s] Split_parts [of t "CHR '':''" s] by simp_all
  have k: "Split CHR '':'' (?n @ CHR '':'' # t) = [?n, t]"
    by (simp only: Split_append_sep [OF no_colon_name [OF c(1)]] Split_no_sep [OF c(2)])
  show ?thesis
    using typed key_name [OF typed(6)] k SplitN2_Split_pair [OF k]
    by (simp add: parse_entry_def plain_entry_def normalizeBlockEntry_def [of "?n @ CHR '':'' # t"])
qed

lemma key_inj:
  assumes "TypeTables_doc D" "plain_entry D s" "parse_entry D TypeANY s = Some e"
    "plain_entry D s'" "parse_entry D TypeANY s' = Some e"
  shows "normalizeBlockEntry s = normalizeBlockEntry s'"
  using assms(2,3)
proof (cases rule: entry_cases)
  case untyped
  from assms(4,5) show ?thesis
  proof (cases rule: entry_cases)
    case untyped
    with \<open>e = (splitName s, TypeANY)\<close> have "splitName s = splitName s'" by simp
    then show ?thesis using untyped(3) \<open>normalizeBlockEntry s = _\<close> by (simp only: splitName_eq_iff)
  next
    case (typed n t q)
    then show ?thesis using untyped(2) by simp
  qed
next
  case first: (typed n t q)
  from assms(4,5) show ?thesis
  proof (cases rule: entry_cases)
    case untyped
    then show ?thesis using first(2,4) by simp
  next
    case (typed n' t' q')
    then have "splitName n = splitName n'" "q' = q" using first(2) by simp_all
    moreover from this(2) have "t' = t" using assms(1) first(3) typed(3) unfolding TypeTables_doc_def by metis
    ultimately show ?thesis using typed(5) first(5) by (simp only: splitName_eq_iff)
  qed
qed

section \<open>The change log as a difference\<close>

definition logged :: "dns_lib \<Rightarrow> (string, unit) gomap \<Rightarrow> (string list \<times> u16) set" where
  "logged D m = entries_of (parse_entry D TypeANY) (map fst m)"

definition keys_ok :: "dns_lib \<Rightarrow> (string, unit) gomap \<Rightarrow> bool" where
  "keys_ok D m \<longleftrightarrow> (\<forall>k \<in> fst ` set m. plain_entry D k \<and> normalizeBlockEntry k = k \<and> parse_entry D TypeANY k \<noteq> None)"

lemma logged_eq: "logged D m = {e. \<exists>k \<in> fst ` set m. parse_entry D TypeANY k = Some e}"
  by (auto simp: logged_def entries_of_def)

lemma gm_get_iff: "gm_get m k = None \<longleftrightarrow> k \<notin> fst ` set m"
  by (rule map_of_eq_None_iff)

lemma fst_set_update: "fst ` set (gm_set k v m) = insert k (fst ` set m)"
  by (simp add: dom_map_of_conv_image_fst [symmetric] update_conv')

lemma fst_set_delete: "fst ` set (gm_del k m) = fst ` set m - {k}"
  by (auto simp: AList.delete_eq)

lemma logged_iff:
  assumes "TypeTables_doc D" "keys_ok D m" "plain_entry D s" "parse_entry D TypeANY s = Some e"
  shows "e \<in> logged D m \<longleftrightarrow> normalizeBlockEntry s \<in> fst ` set m"
proof
  assume "e \<in> logged D m"
  then obtain k where k: "k \<in> fst ` set m" "parse_entry D TypeANY k = Some e" unfolding logged_eq by blast
  with assms(2) have "plain_entry D k" "normalizeBlockEntry k = k" by (auto simp: keys_ok_def)
  then show "normalizeBlockEntry s \<in> fst ` set m" using key_inj [OF assms(1,3,4) _ k(2)] k(1) by simp
next
  assume "normalizeBlockEntry s \<in> fst ` set m"
  then show "e \<in> logged D m" using key_meaning [OF assms(3,4)] unfolding logged_eq by blast
qed

lemma logged_set:
  assumes "keys_ok D m" "plain_entry D s" "parse_entry D TypeANY s = Some e"
  shows "keys_ok D (gm_set (normalizeBlockEntry s) () m)" "logged D (gm_set (normalizeBlockEntry s) () m) = insert e (logged D m)"
  using assms(1) key_meaning [OF assms(2,3)] unfolding keys_ok_def logged_eq fst_set_update by auto

lemma logged_del:
  assumes "TypeTables_doc D" "keys_ok D m" "plain_entry D s" "parse_entry D TypeANY s = Some e"
  shows "keys_ok D (gm_del (normalizeBlockEntry s) m)" "logged D (gm_del (normalizeBlockEntry s) m) = logged D m - {e}"
proof -
  show ok: "keys_ok D (gm_del (normalizeBlockEntry s) m)" using assms(2) by (auto simp: keys_ok_def fst_set_delete)
  have "e \<notin> logged D (gm_del (normalizeBlockEntry s) m)"
    by (simp add: logged_iff [OF assms(1) ok assms(3,4)] fst_set_delete)
  moreover have "x \<in> logged D (gm_del (normalizeBlockEntry s) m) \<longleftrightarrow> x \<in> logged D m" if "x \<noteq> e" for x
    using that key_meaning [OF assms(3,4)] unfolding logged_eq fst_set_delete by auto
  ultimately show "logged D (gm_del (normalizeBlockEntry s) m) = logged D m - {e}"
    by (intro set_eqI) (metis Diff_iff singletonI singletonD)
qed

text \<open>
  The running list is the list at start-up, given by its entries \<open>S\<close>, less the logged deletions, plus the logged
  additions; deletions are of entries that were there, additions of entries that were not.
\<close>

definition cl_inv :: "dns_lib \<Rightarrow> (string list \<times> u16) set \<Rightarrow> ApiService \<Rightarrow> bool" where
  "cl_inv D S s \<longleftrightarrow>
     (let b = P_BlockList (svc_config s); add = logged D (blocks (changelog s)); del = logged D (blockDeletes (changelog s))
      in bl_wf b \<and> keys_ok D (blocks (changelog s)) \<and> keys_ok D (blockDeletes (changelog s)) \<and>
         del \<subseteq> S \<and> add \<inter> S = {} \<and> bl_entries b = (S - del) \<union> add)"

lemma AddEntry_effect:
  assumes "parse_entry D q s = Some e" "bl_wf b"
  obtains b' where "AddEntry D b s q = Inr b'" "bl_wf b'" "bl_entries b' = insert e (bl_entries b)"
proof -
  obtain p t where e: "e = (p, t)" by fastforce
  have "AddEntry D b s q = Inr (b\<lparr>Root := level_Add (Root b) p t\<rparr>)" using assms(1) unfolding e by (rule AddEntry_Some)
  then show thesis
    using that assms(2) e by (simp add: bl_wf_def bl_entries_def level_wf_Add level_entries_Add)
qed

lemma DeleteEntry_effect:
  assumes "parse_entry D q s = Some e" "bl_wf b"
  obtains b' where "DeleteEntry D b s q = Inr (e \<in> bl_entries b, b')" "bl_wf b'" "bl_entries b' = bl_entries b - {e}"
proof -
  obtain p t where e: "e = (p, t)" by fastforce
  from DeleteEntry_parse assms(1) have "DeleteEntry D b s q =
      Inr (fst (level_Delete (Root b) p t), b\<lparr>Root := snd (level_Delete (Root b) p t)\<rparr>)" unfolding e by blast
  then show thesis
    using that assms(2) e by (simp add: bl_wf_def bl_entries_def level_wf_Delete level_entries_Delete found_Delete)
qed

lemma addBlock_inv:
  assumes D: "TypeTables_doc D" and inv: "cl_inv D S s" and s: "plain_entry D v" "parse_entry D TypeANY v = Some e" "e \<notin> S \<or> e \<in> logged D (blockDeletes (changelog s))"
    and b: "bl_wf b" "bl_entries b = insert e (bl_entries (P_BlockList (svc_config s)))"
  shows "cl_inv D S (s\<lparr>svc_config := (svc_config s)\<lparr>P_BlockList := b\<rparr>, changelog := addBlock (changelog s) v\<rparr>)"
proof (cases "e \<in> logged D (blockDeletes (changelog s))")
  case True
  then have "gm_get (blockDeletes (changelog s)) (normalizeBlockEntry v) \<noteq> None"
    using inv logged_iff [OF D _ s(1,2)] by (simp add: cl_inv_def Let_def gm_get_iff)
  with True show ?thesis
    using inv b logged_del [OF D _ s(1,2)] by (auto simp: cl_inv_def addBlock_def Let_def)
next
  case False
  then have "gm_get (blockDeletes (changelog s)) (normalizeBlockEntry v) = None"
    using inv logged_iff [OF D _ s(1,2)] by (simp add: cl_inv_def Let_def gm_get_iff)
  with False show ?thesis
    using inv b s(3) logged_set [OF _ s(1,2)] by (auto simp: cl_inv_def addBlock_def Let_def)
qed

lemma removeBlock_inv:
  assumes D: "TypeTables_doc D" and inv: "cl_inv D S s" and s: "plain_entry D v" "parse_entry D TypeANY v = Some e"
    and e: "e \<in> bl_entries (P_BlockList (svc_config s))"
    and b: "bl_wf b" "bl_entries b = bl_entries (P_BlockList (svc_config s)) - {e}"
  shows "cl_inv D S (s\<lparr>svc_config := (svc_config s)\<lparr>P_BlockList := b\<rparr>, changelog := removeBlock (changelog s) v\<rparr>)"
proof (cases "e \<in> logged D (blocks (changelog s))")
  case True
  then have "gm_get (blocks (changelog s)) (normalizeBlockEntry v) \<noteq> None"
    using inv logged_iff [OF D _ s(1,2)] by (simp add: cl_inv_def Let_def gm_get_iff)
  with True show ?thesis
    using inv b logged_del [OF D _ s(1,2)] by (auto simp: cl_inv_def removeBlock_def Let_def)
next
  case False
  then have "gm_get (blocks (changelog s)) (normalizeBlockEntry v) = None"
    using inv logged_iff [OF D _ s(1,2)] by (simp add: cl_inv_def Let_def gm_get_iff)
  with False show ?thesis
    using inv b e logged_set [OF _ s(1,2)] by (auto simp: cl_inv_def removeBlock_def Let_def)
qed

text \<open>
  Calls that the log can follow: every entry is plain, and an entry that is added is not already in the list.
\<close>

fun fresh_adds :: "dns_lib \<Rightarrow> ApiService \<Rightarrow> string list \<Rightarrow> bool" where
  "fresh_adds D s [] \<longleftrightarrow> True"
| "fresh_adds D s (v # vs) \<longleftrightarrow>
     plain_entry D v \<and> (\<forall>e \<in> bl_entries (P_BlockList (svc_config s)). parse_entry D TypeANY v \<noteq> Some e) \<and>
     fresh_adds D (snd (BlockListAdd D s [v])) vs"

fun followed_call :: "dns_lib \<Rightarrow> ApiService \<Rightarrow> api_call \<Rightarrow> bool" where
  "followed_call D s (MBlockListAdd vs) \<longleftrightarrow> fresh_adds D s vs"
| "followed_call D s (MBlockListDelete v) \<longleftrightarrow> plain_entry D v"
| "followed_call D s _ \<longleftrightarrow> True"

text \<open>Any sequence of such calls, whatever the clock reads.\<close>

inductive api_reach :: "dns_lib \<Rightarrow> (int \<Rightarrow> string) \<Rightarrow> (UserConfig \<Rightarrow> string + string) \<Rightarrow> ApiService \<Rightarrow> ApiService \<Rightarrow> bool"
  for D fmt_secs marshal s0 where
  api_start: "api_reach D fmt_secs marshal s0 s0"
| api_call: "api_reach D fmt_secs marshal s0 s \<Longrightarrow> followed_call D s call \<Longrightarrow>
    api_dispatch D fmt_secs marshal clk s call = Inr (r, s') \<Longrightarrow> api_reach D fmt_secs marshal s0 s'"

lemma BlockListAdd_inv:
  assumes "TypeTables_doc D"
  shows "cl_inv D S s \<Longrightarrow> fresh_adds D s vs \<Longrightarrow> cl_inv D S (snd (BlockListAdd D s vs))"
proof (induction vs arbitrary: s)
  case (Cons v vs)
  show ?case
  proof (cases "parse_entry D TypeANY v")
    case None
    then obtain err where "AddEntry D (P_BlockList (svc_config s)) v TypeANY = Inl err"
      using AddEntry_ok_iff [of D "P_BlockList (svc_config s)" v TypeANY] by (metis sum.exhaust)
    then show ?thesis using Cons.prems(1) by simp
  next
    case (Some e)
    have wf: "bl_wf (P_BlockList (svc_config s))" using Cons.prems(1) by (simp add: cl_inv_def Let_def)
    obtain b where b: "AddEntry D (P_BlockList (svc_config s)) v TypeANY = Inr b" "bl_wf b"
      "bl_entries b = insert e (bl_entries (P_BlockList (svc_config s)))" using AddEntry_effect [OF Some wf] .
    have v: "plain_entry D v" "e \<notin> S \<or> e \<in> logged D (blockDeletes (changelog s))"
      using Cons.prems Some by (auto simp: cl_inv_def Let_def)
    show ?thesis
      using Cons.IH [OF addBlock_inv [OF assms Cons.prems(1) v(1) Some v(2) b(2,3)]] Cons.prems(2) b(1) by simp
  qed
qed simp

lemma BlockListDelete_inv:
  assumes "TypeTables_doc D" "cl_inv D S s" "plain_entry D v"
  shows "cl_inv D S (snd (BlockListDelete D s v))"
proof (cases "parse_entry D TypeANY v")
  case None
  then obtain err where "DeleteEntry D (P_BlockList (svc_config s)) v TypeANY = Inl err"
    by (auto simp: DeleteEntry_def parse_entry_def split: list.splits)
  then show ?thesis using assms(2) by (simp add: BlockListDelete_def)
next
  case (Some e)
  have wf: "bl_wf (P_BlockList (svc_config s))" using assms(2) by (simp add: cl_inv_def Let_def)
  obtain b where b: "DeleteEntry D (P_BlockList (svc_config s)) v TypeANY = Inr (e \<in> bl_entries (P_BlockList (svc_config s)), b)"
    "bl_wf b" "bl_entries b = bl_entries (P_BlockList (svc_config s)) - {e}" using DeleteEntry_effect [OF Some wf] .
  show ?thesis
  proof (cases "e \<in> bl_entries (P_BlockList (svc_config s))")
    case True
    with removeBlock_inv [OF assms(1,2,3) Some True b(2,3)] b(1) show ?thesis by (simp add: BlockListDelete_def)
  next
    case False
    then have "snd (BlockListDelete D s v) = s\<lparr>svc_config := (svc_config s)\<lparr>P_BlockList := b\<rparr>, changelog := changelog s\<rparr>"
      "bl_entries b = bl_entries (P_BlockList (svc_config s))" using b by (auto simp: BlockListDelete_def)
    then show ?thesis using assms(2) b(2) by (simp add: cl_inv_def Let_def)
  qed
qed

text \<open>The other calls leave the list and its part of the log alone.\<close>

definition same_blocks :: "ApiService \<Rightarrow> ApiService \<Rightarrow> bool" where
  "same_blocks s s' \<longleftrightarrow> P_BlockList (svc_config s') = P_BlockList (svc_config s) \<and>
     blocks (changelog s') = blocks (changelog s) \<and> blockDeletes (changelog s') = blockDeletes (changelog s)"

lemma add_rr_blocks:
  "addRR D c t = Inr c' \<Longrightarrow> blocks c' = blocks c \<and> blockDeletes c' = blockDeletes c"
  "addRRPtr D c t = Inr c' \<Longrightarrow> blocks c' = blocks c \<and> blockDeletes c' = blockDeletes c"
  "blocks (removeRR D c n q) = blocks c \<and> blockDeletes (removeRR D c n q) = blockDeletes c"
proof -
  show "addRR D c t = Inr c' \<Longrightarrow> blocks c' = blocks c \<and> blockDeletes c' = blockDeletes c"
    by (cases "rr_text_key D t") (auto simp: addRR_def split: option.splits sum.splits)
  show "addRRPtr D c t = Inr c' \<Longrightarrow> blocks c' = blocks c \<and> blockDeletes c' = blockDeletes c"
    by (cases "rr_text_key D t") (auto simp: addRRPtr_def split: option.splits sum.splits)
  show "blocks (removeRR D c n q) = blocks c \<and> blockDeletes (removeRR D c n q) = blockDeletes c"
    by (auto simp: removeRR_def Let_def split: option.splits)
qed

lemma with_res_Inr: "with_res f m = Inr (r, s) \<longleftrightarrow> (\<exists>r'. m = Inr (r', s) \<and> r = map_sum id f r')"
  by (cases m) (auto simp: with_res_def)

lemmas rpc_defs = Svc_Config_def CacheAdd_def CacheDelete_def CacheDebug_def BlockListCount_def BlockListList_def
  PauseBlocking_def ResumeBlocking_def GetMergedConfig_def with_res_Inr map_sum_Inr Let_def

lemma api_dispatch_blocks:
  assumes "api_dispatch D fmt_secs marshal clk s call = Inr (r, s')"
  shows "(\<exists>vs. call = MBlockListAdd vs \<and> s' = snd (BlockListAdd D s vs)) \<or>
    (\<exists>v. call = MBlockListDelete v \<and> s' = snd (BlockListDelete D s v)) \<or> same_blocks s s'"
  using assms
  by (cases call) (auto simp: rpc_defs same_blocks_def add_rr_blocks split: sum.splits option.splits if_splits)

lemma api_reach_cl_inv:
  assumes "TypeTables_doc D" "bl_wf (P_BlockList config)" "api_reach D fmt_secs marshal (NewApiService config) s"
  shows "cl_inv D (bl_entries (P_BlockList config)) s"
  using assms(3)
proof (induction rule: api_reach.induct)
  case api_start
  then show ?case using assms(2) by (simp add: cl_inv_def NewApiService_def newChangeLog_def keys_ok_def logged_def entries_of_def)
next
  case (api_call s call clk r s')
  from api_dispatch_blocks [OF api_call.hyps(3)] show ?case
    using api_call.hyps(2) api_call.IH BlockListAdd_inv [OF assms(1)] BlockListDelete_inv [OF assms(1)]
    by (auto simp: same_blocks_def cl_inv_def)
qed

section \<open>Properties\<close>

lemma snapshot_entries:
  "entries_of (parse_entry D TypeANY) (Ch_Blocks (snapshot c)) = logged D (blocks c)"
  "entries_of (parse_entry D TypeANY) (Ch_BlockDeletes (snapshot c)) = logged D (blockDeletes c)"
  by (simp_all add: snapshot_def entries_of_def logged_def)

text \<open>
  Claim C19. The change log is the difference between the blocklist as it was at start-up and as it is: through any
  sequence of API calls whose entries are plain and not added twice, the running list blocks exactly what the
  start-up entries, less the reported deletions, plus the reported additions, block; every reported
  deletion is of a start-up entry and no reported addition is.
\<close>

theorem changes_are_the_difference:
  assumes "TypeTables_doc D" "bl_wf (P_BlockList config)" "api_reach D fmt_secs marshal (NewApiService config) s"
  shows "let start = bl_entries (P_BlockList config);
             added = entries_of (parse_entry D TypeANY) (Ch_Blocks (GetChanges s));
             deleted = entries_of (parse_entry D TypeANY) (Ch_BlockDeletes (GetChanges s))
         in (BlockList_Match (P_BlockList (svc_config s)) n q \<longleftrightarrow> blocked_by ((start - deleted) \<union> added) (splitName n) q) \<and>
            deleted \<subseteq> start \<and> added \<inter> start = {}"
  using api_reach_cl_inv [OF assms] by (simp add: cl_inv_def Let_def GetChanges_def snapshot_entries bl_Match)

lemma sample_calls:
  "api_reach sample_lib fmt marshal (NewApiService sample_config)
     (snd (BlockListDelete sample_lib (snd (BlockListAdd sample_lib (NewApiService sample_config) [''tracker.local:A''])) ''ADS.local.''))"
proof -
  let ?s0 = "NewApiService sample_config"
  let ?s1 = "snd (BlockListAdd sample_lib ?s0 [''tracker.local:A''])"
  have parse: "parse_entry sample_lib TypeANY ''tracker.local:A'' = Some ([''tracker'', ''local''], TypeA)"
    by (simp add: parse_entry_def sample_lib_def sample_types_def splitName_def) (simp add: ToLower_def lower_char_def TrimSuffix_def HasSuffix_def)
  have plain: "plain_entry sample_lib ''tracker.local:A''" "plain_entry sample_lib ''ADS.local.''"
    by (simp_all add: plain_entry_def sample_lib_def sample_types_def HasSuffix_def TrimSuffix_def ToUpper_def upper_char_def dns_consts)
  have start: "bl_entries (P_BlockList (svc_config ?s0)) = {(splitName ''ads.local'', TypeANY)}"
    by (simp add: NewApiService_def sample_config_def)
  have "followed_call sample_lib ?s0 (MBlockListAdd [''tracker.local:A''])"
    using plain start parse by (simp add: dns_consts)
  then have 1: "api_reach sample_lib fmt marshal ?s0 ?s1"
    by (rule api_call [OF api_start, where r = "map_sum id (\<lambda>_. REmpty) (fst (BlockListAdd sample_lib ?s0 [''tracker.local:A'']))"])
       (simp add: with_res_Inr prod_eq_iff)
  show ?thesis
    by (rule api_call [OF 1, of "MBlockListDelete ''ADS.local.''" _ "map_sum id RFound (fst (BlockListDelete sample_lib ?s1 ''ADS.local.''))"])
       (use plain in \<open>simp_all add: with_res_Inr prod_eq_iff\<close>)
qed

theorem changes_are_the_difference_witness:
  "let s = snd (BlockListDelete sample_lib (snd (BlockListAdd sample_lib (NewApiService sample_config) [''tracker.local:A''])) ''ADS.local.'');
       start = bl_entries (P_BlockList sample_config);
       added = entries_of (parse_entry sample_lib TypeANY) (Ch_Blocks (GetChanges s));
       deleted = entries_of (parse_entry sample_lib TypeANY) (Ch_BlockDeletes (GetChanges s))
   in (BlockList_Match (P_BlockList (svc_config s)) ''www.ads.local'' TypeA \<longleftrightarrow>
         blocked_by ((start - deleted) \<union> added) (splitName ''www.ads.local'') TypeA) \<and>
      deleted \<subseteq> start \<and> added \<inter> start = {}"
proof -
  have "bl_wf (P_BlockList sample_config)" by (simp add: sample_config_def)
  from changes_are_the_difference [OF sample_type_tables this sample_calls, of "''www.ads.local''" TypeA]
  show ?thesis by (simp only: Let_def)
qed

text \<open>The entries that come from files and not from the block options.\<close>

definition list_entries :: "dns_lib \<Rightarrow> sysenv \<Rightarrow> UserConfig \<Rightarrow> (string list \<times> u16) set" where
  "list_entries D E uc =
     (\<Union>u \<in> set (U_Blocklist uc). entries_of (list_line D TypeANY) (url_lines E u)) \<union>
     (\<Union>u \<in> set (BlocklistAAAA uc). entries_of (list_line D TypeAAAA) (url_lines E u)) \<union>
     (\<Union>u \<in> set (BlocklistFromHosts uc). entries_of (hosts_line D) (url_lines E u))"

lemma configured_split: "configured_entries D E uc = entries_of (parse_entry D TypeANY) (Block uc) \<union> list_entries D E uc"
  by (auto simp: configured_entries_def list_entries_def)

lemma merged_config_fields:
  assumes "merged_config D cl uc = Inr uc'"
  shows "Block uc' = filter (\<lambda>entry. normalizeBlockEntry entry \<notin> set (Ch_BlockDeletes cl)) (Block uc) @ Ch_Blocks cl"
    "BlockDelete uc' = BlockDelete uc @ filter (\<lambda>d. d \<notin> normalizeBlockEntry ` set (Block uc)) (Ch_BlockDeletes cl)"
    "U_Blocklist uc' = U_Blocklist uc" "BlocklistAAAA uc' = BlocklistAAAA uc" "BlocklistFromHosts uc' = BlocklistFromHosts uc"
proof -
  obtain rrs ptrs where uc': "uc' = uc\<lparr>Block := filter (\<lambda>entry. normalizeBlockEntry entry \<notin> set (Ch_BlockDeletes cl)) (Block uc) @ Ch_Blocks cl,
      BlockDelete := BlockDelete uc @ filter (\<lambda>d. d \<notin> normalizeBlockEntry ` set (Block uc) \<inter> set (Ch_BlockDeletes cl)) (Ch_BlockDeletes cl),
      LocalRR := rrs, LocalRRPtr := ptrs\<rparr>"
    using assms by (auto simp: merged_config_def Let_def and_then_Inr)
  have "filter (\<lambda>d. d \<notin> normalizeBlockEntry ` set (Block uc) \<inter> set (Ch_BlockDeletes cl)) (Ch_BlockDeletes cl) =
      filter (\<lambda>d. d \<notin> normalizeBlockEntry ` set (Block uc)) (Ch_BlockDeletes cl)" by (rule filter_cong) auto
  with uc' show "Block uc' = filter (\<lambda>entry. normalizeBlockEntry entry \<notin> set (Ch_BlockDeletes cl)) (Block uc) @ Ch_Blocks cl"
    "BlockDelete uc' = BlockDelete uc @ filter (\<lambda>d. d \<notin> normalizeBlockEntry ` set (Block uc)) (Ch_BlockDeletes cl)"
    "U_Blocklist uc' = U_Blocklist uc" "BlocklistAAAA uc' = BlocklistAAAA uc" "BlocklistFromHosts uc' = BlocklistFromHosts uc"
    by simp_all
qed

text \<open>The block options that the filter keeps are those whose entries were not deleted.\<close>

lemma kept_options:
  assumes D: "TypeTables_doc D" and m: "keys_ok D m" and vs: "\<forall>v \<in> set vs. plain_entry D v \<and> parse_entry D TypeANY v \<noteq> None"
  shows "entries_of (parse_entry D TypeANY) (filter (\<lambda>v. normalizeBlockEntry v \<notin> fst ` set m) vs) =
    entries_of (parse_entry D TypeANY) vs - logged D m"
proof -
  have "normalizeBlockEntry v \<in> fst ` set m \<longleftrightarrow> e \<in> logged D m" if "v \<in> set vs" "parse_entry D TypeANY v = Some e" for v e
    using logged_iff [OF D m _ that(2)] vs that(1) by blast
  then show ?thesis by (auto simp: entries_of_def) blast+
qed

lemma no_extra_deletes:
  assumes D: "TypeTables_doc D" and m: "keys_ok D m" and vs: "\<forall>v \<in> set vs. plain_entry D v"
    and sub: "logged D m \<subseteq> entries_of (parse_entry D TypeANY) vs"
  shows "fst ` set m \<subseteq> normalizeBlockEntry ` set vs"
proof
  fix k assume k: "k \<in> fst ` set m"
  with m obtain e where e: "plain_entry D k" "normalizeBlockEntry k = k" "parse_entry D TypeANY k = Some e" by (auto simp: keys_ok_def)
  then have "e \<in> logged D m" using k unfolding logged_eq by blast
  with sub obtain v where "v \<in> set vs" "parse_entry D TypeANY v = Some e" by (auto simp: entries_of_def)
  with key_inj [OF D e(1,3)] vs e(2) show "k \<in> normalizeBlockEntry ` set vs" by force
qed

text \<open>
  Claim C10. A restart with the merged configuration brings the blocklist back: when the running list was loaded from
  options without deletions, API calls changed it (with plain entries, none added that was already there), the
  block entries of the options are plain and no deleted entry comes from a file, then the configuration that
  \<^verbatim>\<open>GetMergedConfig\<close> writes loads without an error as long as the files do, and the new list blocks
  exactly what the running one blocks.
\<close>

theorem merged_config_restores_blocklist:
  assumes D: "TypeTables_doc D" and start: "UpdateBlockList D E uc BlockList_New = Inr (P_BlockList config)" "BlockDelete uc = []"
      "\<forall>v \<in> set (Block uc). plain_entry D v"
    and calls: "api_reach D fmt_secs marshal (NewApiService config) s" "merged_config D (GetChanges s) uc = Inr uc'"
    and files: "entries_of (parse_entry D TypeANY) (Ch_BlockDeletes (GetChanges s)) \<inter> list_entries D E uc = {}"
  shows "\<exists>b. UpdateBlockList D E uc' BlockList_New = Inr b \<and>
    (\<forall>n q. BlockList_Match b n q \<longleftrightarrow> BlockList_Match (P_BlockList (svc_config s)) n q)"
proof -
  let ?parse = "parse_entry D TypeANY" and ?cl = "changelog s"
  have S: "bl_wf (P_BlockList config)" "bl_entries (P_BlockList config) = configured_entries D E uc"
    using UpdateBlockList_entries [OF start(1)] start(2) by auto
  have inv: "cl_inv D (configured_entries D E uc) s" using api_reach_cl_inv [OF D S(1) calls(1)] unfolding S(2) .
  let ?add = "logged D (blocks ?cl)" and ?del = "logged D (blockDeletes ?cl)"
  from inv have run: "bl_wf (P_BlockList (svc_config s))" "bl_entries (P_BlockList (svc_config s)) = (configured_entries D E uc - ?del) \<union> ?add"
    and keys: "keys_ok D (blocks ?cl)" "keys_ok D (blockDeletes ?cl)" and del: "?del \<subseteq> configured_entries D E uc"
    by (simp_all add: cl_inv_def Let_def)
  have files': "?del \<inter> list_entries D E uc = {}" using files by (simp add: GetChanges_def snapshot_entries)
  note uc' = merged_config_fields [OF calls(2)]
  have ch: "set (Ch_Blocks (GetChanges s)) = fst ` set (blocks ?cl)" "set (Ch_BlockDeletes (GetChanges s)) = fst ` set (blockDeletes ?cl)"
    by (simp_all add: GetChanges_def snapshot_def)
  have blk: "\<forall>v \<in> set (Block uc). plain_entry D v \<and> ?parse v \<noteq> None"
    using start(3) UpdateBlockList_parses [OF start(1)] by blast
  have "fst ` set (blockDeletes ?cl) \<subseteq> normalizeBlockEntry ` set (Block uc)"
    using del files' by (intro no_extra_deletes [OF D keys(2) start(3)]) (auto simp: configured_split)
  then have nodel: "BlockDelete uc' = []" using uc'(2) start(2) ch(2) by (auto simp: filter_empty_conv)
  have "entries_of ?parse (Ch_Blocks (GetChanges s)) = ?add" by (simp add: GetChanges_def snapshot_entries)
  then have blk': "entries_of ?parse (Block uc') = (entries_of ?parse (Block uc) - ?del) \<union> ?add"
    using kept_options [OF D keys(2) blk] unfolding uc'(1) ch(2) by (auto simp: entries_of_def)
  have "\<forall>v \<in> set (Block uc'). ?parse v \<noteq> None" using blk keys(1) unfolding uc'(1) by (auto simp: ch keys_ok_def)
  from UpdateBlockList_reload [OF start(1) this nodel uc'(3-5)] obtain b where b: "UpdateBlockList D E uc' BlockList_New = Inr b" by blast
  have "bl_wf b" "bl_entries b = configured_entries D E uc'"
    using UpdateBlockList_entries [OF b] nodel by auto
  moreover have "configured_entries D E uc' = bl_entries (P_BlockList (svc_config s))"
    using files' run(2) uc'(3-5) blk' by (auto simp: configured_split list_entries_def)
  ultimately show ?thesis using b run(1) by (auto simp: bl_Match)
qed

theorem merged_config_restores_blocklist_witness:
  "\<exists>uc' b. merged_config sample_lib
      (GetChanges (snd (BlockListDelete sample_lib (snd (BlockListAdd sample_lib (NewApiService sample_config) [''tracker.local:A''])) ''ADS.local.'')))
      (NewUserConfig\<lparr>Block := [''ads.local'']\<rparr>) = Inr uc' \<and>
    UpdateBlockList sample_lib sample_env uc' BlockList_New = Inr b \<and>
    (\<forall>n q. BlockList_Match b n q \<longleftrightarrow>
      BlockList_Match (P_BlockList (svc_config (snd (BlockListDelete sample_lib
        (snd (BlockListAdd sample_lib (NewApiService sample_config) [''tracker.local:A''])) ''ADS.local.'')))) n q)"
proof -
  let ?uc = "NewUserConfig\<lparr>Block := [''ads.local'']\<rparr>"
  let ?s = "snd (BlockListDelete sample_lib (snd (BlockListAdd sample_lib (NewApiService sample_config) [''tracker.local:A''])) ''ADS.local.'')"
  have start: "UpdateBlockList sample_lib sample_env ?uc BlockList_New = Inr (P_BlockList sample_config)"
    by (simp add: UpdateBlockList_def NewUserConfig_def AddEntry_def sample_config_def)
  obtain uc' where uc': "merged_config sample_lib (GetChanges ?s) ?uc = Inr uc'"
    by (simp add: merged_config_def Let_def filterRRs_def NewUserConfig_def)
  have plain: "\<forall>v \<in> set (Block ?uc). plain_entry sample_lib v" "BlockDelete ?uc = []"
    by (simp_all add: plain_entry_def HasSuffix_def TrimSuffix_def NewUserConfig_def)
  have files: "entries_of (parse_entry sample_lib TypeANY) (Ch_BlockDeletes (GetChanges ?s)) \<inter> list_entries sample_lib sample_env ?uc = {}"
    by (simp add: list_entries_def NewUserConfig_def)
  show ?thesis
    using merged_config_restores_blocklist [OF sample_type_tables start plain(2,1) sample_calls uc' files] uc' by blast
qed



lemma serve_paused:
  assumes "blockingPaused config (clk 1)" "serve D N clk config w q qname qtype item = Inr s"
  shows "Blocked (logItem s) = Blocked item"
proof -
  from assms obtain r where r: "resolve D N clk 2 config w q = Inr r" by (auto simp: serve_def and_then_Inr)
  obtain out cached config' w' where r': "r = (out, cached, config', w')" by (cases r) auto
  have "Blocked (logItem s) = Blocked item \<or> serve_dns64 D N clk config' w' q item = Inr s"
    using assms r r' by (cases out) (auto simp: serve_def split: if_splits)
  then show ?thesis by (auto elim: serve_dns64_cases)
qed

lemma handle_paused:
  assumes "blockingPaused config (clk 1)" "handle D N clk config w clientAddr q = Inr s"
  shows "\<not> Blocked (logItem s)"
proof (cases "admitted config clientAddr q")
  case True
  then obtain qu where "MQuestion q = [qu]" by (cases "MQuestion q") (auto simp: admitted_def)
  from handle_admitted [OF True this, of D N clk w] assms(2) serve_paused [of config clk D N w q, OF assms(1)]
  show ?thesis by (fastforce simp: zeroLog_def)
next
  case False
  then show ?thesis using handle_refused [OF False, of D N clk w] assms(2) by auto
qed

text \<open>
  Claim C37. Pausing: after \<^verbatim>\<open>PauseBlocking\<close> with a number of seconds up to about 292 years (300 seconds when it is
  not positive) no query is blocked until that time has passed and blocking is on again from then,
  the status says so with the time that remains, and \<^verbatim>\<open>ResumeBlocking\<close> ends the pause at once. One second beyond
  the bound the product overflows and blocking is not paused at all.
\<close>

theorem pause_and_resume:
  assumes "seconds \<le> 9223372036" "d = (if seconds \<le> 0 then 300 else seconds) * Second" "PauseBlocking s seconds n1 n2 = (res, s')"
  shows "(blockingPaused (svc_config s') now \<longleftrightarrow> now < n1 + d) \<and>
    (Paused res \<longleftrightarrow> n2 < n1 + d) \<and> (Paused res \<longrightarrow> Remaining res = n1 + d - n2) \<and>
    (clk 1 < n1 + d \<longrightarrow> handle D N clk (svc_config s') w clientAddr q = Inr r \<longrightarrow> \<not> Blocked (logItem r)) \<and>
    \<not> blockingPaused (svc_config (snd (ResumeBlocking s' n3))) now \<and>
    (n1 \<le> now \<longrightarrow> \<not> blockingPaused (svc_config (snd (PauseBlocking s 9223372037 n1 n2))) now)"
proof -
  have "wrap64 d = d" using assms(1,2) by (intro wrap64_id) auto
  then have s': "s' = s\<lparr>svc_config := (svc_config s)\<lparr>BlockPauseUntil := Some (n1 + d)\<rparr>\<rparr>" "res = GetBlockingStatus s' n2"
    using assms(2,3) by (auto simp: PauseBlocking_def Let_def)
  have paused: "blockingPaused (svc_config s') now \<longleftrightarrow> now < n1 + d" for now by (simp add: s'(1) blockingPaused_def)
  have over: "wrap64 (9223372037 * Second) < 0" by (simp add: wrap64_def)
  show ?thesis
    using paused over handle_paused [of "svc_config s'" clk D N w clientAddr q r]
    by (auto simp: s' GetBlockingStatus_def ResumeBlocking_def PauseBlocking_def Let_def blockingPaused_def)
qed

theorem pause_and_resume_witness:
  "Paused (fst (PauseBlocking (NewApiService sample_config) 60 0 5)) \<and>
   Remaining (fst (PauseBlocking (NewApiService sample_config) 60 0 5)) = 60 * Second - 5"
  using pause_and_resume [of 60 "60 * Second" "NewApiService sample_config" 0 5
      "fst (PauseBlocking (NewApiService sample_config) 60 0 5)" "snd (PauseBlocking (NewApiService sample_config) 60 0 5)" 0
      int sample_lib "answer_net []" 0]
  by simp

end
