(* ===== verification/Server.thy ===== *)
theory Server
  imports Doh Api
begin

text \<open>
  Package \<^verbatim>\<open>server\<close>: what \<^verbatim>\<open>StartServer\<close> starts, and the running server as a transition system. The state is the
  proxy's configuration with the change log of the API, the world of the resolvers, and the time. A step is one DNS
  query, one HTTPS request, one pass of the flush or the refresh loop, or one API call; each is atomic here, where
  the program runs them in goroutines that lock the parts they touch (the interleaving inside the DoT
  pool is in theory \<open>Resolver\<close>).
\<close>

section \<open>util.go\<close>

text \<open>\<^verbatim>\<open>IPMask.String\<close> and \<^verbatim>\<open>IPNet.String\<close>.\<close>

definition Mask_String :: "u8 list \<Rightarrow> string" where
  "Mask_String m =
     (if m = [] then ''<nil>'' else concat (map (\<lambda>b. [hex_digit (unat b div 16), hex_digit (unat b mod 16)]) m))"

definition IPNet_String :: "IPNet \<Rightarrow> string" where
  "IPNet_String n =
     (let (nn, m) = networkNumberAndMask n
      in if nn = [] \<or> m = [] then ''<nil>''
         else case simpleMaskLength m of
                None \<Rightarrow> IP_String nn @ ''/'' @ Mask_String m
              | Some l \<Rightarrow> IP_String nn @ ''/'' @ fmt_d l)"

definition AclToString :: "IPNet list \<Rightarrow> string list" where
  "AclToString acl = map IPNet_String acl"

definition split_host :: "string \<Rightarrow> string" where
  "split_host hostport = (case SplitHostPort hostport of None \<Rightarrow> '''' | Some (host, _) \<Rightarrow> host)"

definition isV4Global :: "string \<Rightarrow> bool" where
  "isV4Global hostport = (let host = split_host hostport in host = ''0.0.0.0'' \<or> host = ''0'')"

definition isV6Global :: "string \<Rightarrow> bool" where
  "isV6Global hostport = (let host = split_host hostport in host = ''::'' \<or> host = ''::0'')"

section \<open>server.go: what is started\<close>

record dns_server =
  DS_Addr :: string
  DS_Net :: string
  DS_UDPSize :: nat

definition listen_servers :: "string \<Rightarrow> dns_server list" where
  "listen_servers listenAddr =
     (let nets = (''udp'', ''tcp'');
          nets = (if isV4Global listenAddr then (''udp4'', ''tcp4'') else nets);
          nets = (if isV6Global listenAddr then (''udp6'', ''tcp6'') else nets)
      in [\<lparr>DS_Addr = listenAddr, DS_Net = fst nets, DS_UDPSize = 4096\<rparr>,
          \<lparr>DS_Addr = listenAddr, DS_Net = snd nets, DS_UDPSize = 0\<rparr>])"

record started =
  DebugLine :: string
  Servers :: "dns_server list"
  FlushEvery :: int
  RefreshEvery :: "int option"
  StartApi :: bool
  StartDoh :: bool
  InfoLines :: "string list"
  FatalLines :: "string list"

text \<open>
  \<open>serve_err\<close> is the error that ends the service of a listener, if any: each such error is a fatal line of the
  logger, which ends the program. The wait for the context is not modelled: the program's context is never done.
\<close>

definition StartServer :: "(UserConfig option \<Rightarrow> string) \<Rightarrow> (dns_server \<Rightarrow> string option) \<Rightarrow> ProxyConfig \<Rightarrow> started" where
  "StartServer json_indent serve_err config =
     (let servers = concat (map listen_servers (ListenAddr config)) in
     \<lparr>DebugLine = json_indent (P_UserConfig config),
      Servers = servers,
      FlushEvery = CacheFlush config,
      RefreshEvery = (if Refresh config then Some (RefreshInterval config) else None),
      StartApi = Api config,
      StartDoh = (length (DohBind config) > 0),
      InfoLines =
        [''Started server: '' @ Join '' '' (ListenAddr config),
         ''Upstream: '' @ Join '' '' (map Resolver_String (Upstream config)),
         ''Blocklist: '' @ fmt_d (BlockList_Count (P_BlockList config)) @ '' entries'',
         ''ACL: '' @ Join '' '' (AclToString (P_Acl config))],
      FatalLines = List.map_filter (\<lambda>s. map_option (\<lambda>err. DS_Addr s @ '': '' @ err) (serve_err s)) servers\<rparr>)"

text \<open>One pass of the flush loop and of the refresh loop: the line that is printed and the new configuration.\<close>

definition flush_pass :: "ProxyConfig \<Rightarrow> int \<Rightarrow> string \<times> ProxyConfig" where
  "flush_pass config now =
     (let (total, expd, c) = Flush (P_Cache config) now
      in (''Cache: '' @ fmt_d total @ ''/'' @ fmt_d expd @ '' (total/expired)'', config\<lparr>P_Cache := c\<rparr>))"

definition refresh_pass :: "dns_lib \<Rightarrow> sysenv \<Rightarrow> ProxyConfig \<Rightarrow> (string \<times> ProxyConfig) go" where
  "refresh_pass D E config =
     (case P_UserConfig config of
        None \<Rightarrow> Inl NilDereference
      | Some uc \<Rightarrow>
          (case UpdateBlockList D E uc BlockList_New of
             Inl (CfgPanic p) \<Rightarrow> Inl p
           | Inl (CfgErr err) \<Rightarrow> Inr (''Error updating blocklist: '' @ err, config)
           | Inl (CfgFatal err) \<Rightarrow> Inr (''Error updating blocklist: '' @ err, config)
           | Inr newBL \<Rightarrow>
               let config = config\<lparr>P_BlockList := newBL\<rparr>
               in Inr (''Updated Blocklist: '' @ fmt_d (BlockList_Count (P_BlockList config)) @ '' entries'', config)))"

section \<open>The running server\<close>

type_synonym 'w server = "ApiService \<times> 'w \<times> int"

inductive server_step :: "dns_lib \<Rightarrow> 'w netops \<Rightarrow> (int \<Rightarrow> string) \<Rightarrow> (UserConfig \<Rightarrow> string + string) \<Rightarrow> 'w server \<Rightarrow> 'w server \<Rightarrow> bool"
  for D N fmt_secs marshal where
  step_query: "clock_ok t clk \<Longrightarrow> MakeHandler D N clk (svc_config s) w clientAddr q = Inr (m, config', w', calls) \<Longrightarrow>
    server_step D N fmt_secs marshal (s, w, t) (s\<lparr>svc_config := config'\<rparr>, w', clk 8)"
| step_doh: "clock_ok t clk \<Longrightarrow> DohBind (svc_config s) \<noteq> [] \<Longrightarrow> MakeDoHHandler D N clk (svc_config s) w r = Inr (reply, config', w', calls) \<Longrightarrow>
    server_step D N fmt_secs marshal (s, w, t) (s\<lparr>svc_config := config'\<rparr>, w', clk 8)"
| step_flush: "t \<le> t' \<Longrightarrow> flush_pass (svc_config s) t' = (line, config') \<Longrightarrow>
    server_step D N fmt_secs marshal (s, w, t) (s\<lparr>svc_config := config'\<rparr>, w, t')"
| step_refresh: "t \<le> t' \<Longrightarrow> Refresh (svc_config s) \<Longrightarrow> refresh_pass D E (svc_config s) = Inr (line, config') \<Longrightarrow>
    server_step D N fmt_secs marshal (s, w, t) (s\<lparr>svc_config := config'\<rparr>, w, t')"
| step_api: "clock_ok t clk \<Longrightarrow> Api (svc_config s) \<Longrightarrow> api_dispatch D fmt_secs marshal clk s call = Inr (r, s') \<Longrightarrow>
    server_step D N fmt_secs marshal (s, w, t) (s', w, clk 8)"

inductive_cases server_stepE: "server_step D N fmt_secs marshal x y"

section \<open>Invariants of a transition system\<close>

locale kept_invariant =
  fixes step :: "'s \<Rightarrow> 's \<Rightarrow> bool" and inv :: "'s \<Rightarrow> bool"
  assumes keeps: "inv s \<Longrightarrow> step s s' \<Longrightarrow> inv s'"
begin

lemma reachable: "step\<^sup>*\<^sup>* s s' \<Longrightarrow> inv s \<Longrightarrow> inv s'"
  by (induction rule: rtranclp_induct) (auto intro: keeps)

end

text \<open>The change log never holds a key as added and as deleted.\<close>

definition changelog_ok :: "changeLog \<Rightarrow> bool" where
  "changelog_ok c \<longleftrightarrow>
     (\<forall>k u. gm_get (blockDeletes c) k = Some u \<longrightarrow> gm_get (blocks c) k = None) \<and>
     (\<forall>k u. gm_get (localRRDeletes c) k = Some u \<longrightarrow> gm_get (localRRs c) k = None \<and> gm_get (localRRPtrs c) k = None)"

fun server_inv :: "string list \<Rightarrow> UserConfig \<Rightarrow> 'w server \<Rightarrow> bool" where
  "server_inv names uc (s, w, t) \<longleftrightarrow>
     proxy_inv names t (svc_config s) \<and> P_UserConfig (svc_config s) = Some uc \<and> changelog_ok (changelog s)"

lemma handle_frame:
  assumes "handle D N clk config w clientAddr q = Inr s"
  shows "only_resolving config (s_config s)"
proof (cases "admitted config clientAddr q")
  case True
  then obtain qu where "MQuestion q = [qu]" by (cases "MQuestion q") (auto simp: admitted_def)
  from handle_admitted [OF True this, of D N clk w] assms have "\<exists>qname qtype item. serve D N clk config w q qname qtype item = Inr s"
    by metis
  then show ?thesis using serve_frame [of D N clk config w q _ _ _ s] by blast
next
  case False
  then show ?thesis using handle_refused [OF False, of D N clk w] assms only_resolving_refl by fastforce
qed

lemma MakeHandler_UserConfig:
  assumes "MakeHandler D N clk config w clientAddr q = Inr (m, config', w', calls)"
  shows "P_UserConfig config' = P_UserConfig config"
proof -
  obtain s stats where s: "handle D N clk config w clientAddr q = Inr s" "config' = (s_config s)\<lparr>StatsHandler := stats\<rparr>"
    using assms by (auto simp: MakeHandler_def and_then_Inr Let_def)
  from handle_frame [OF s(1)] s(2) show ?thesis by (auto simp: only_resolving_def)
qed

lemma MakeDoHHandler_runs:
  assumes "MakeDoHHandler D N clk config w r = Inr (reply, config', w', calls)"
  shows "config' = config \<or> (\<exists>q m. MakeHandler D N clk config w (R_RemoteAddr r) q = Inr (m, config', w', calls))"
  using assms by (auto simp: MakeDoHHandler_def and_then_Inr Let_def split: sum.splits)

lemma flush_pass_inv:
  assumes "proxy_inv names t config" "t \<le> t'" "flush_pass config t' = (line, config')"
  shows "proxy_inv names t' config' \<and> P_UserConfig config' = P_UserConfig config"
proof -
  have c: "cache_inv t' (snd (snd (Flush (P_Cache config) t')))"
    using assms(1,2) by (intro Flush_inv) (auto simp: proxy_inv_def intro: cache_inv_mono)
  have "config' = config\<lparr>P_Cache := snd (snd (Flush (P_Cache config) t'))\<rparr>" using assms(3) by (auto simp: flush_pass_def split: prod.splits)
  then show ?thesis using proxy_inv_cache [OF assms(1) c] by simp
qed

lemma refresh_pass_cases:
  assumes "refresh_pass D E config = Inr (line, config')"
  shows "config' = config \<or> (\<exists>uc b. P_UserConfig config = Some uc \<and> UpdateBlockList D E uc BlockList_New = Inr b \<and> config' = config\<lparr>P_BlockList := b\<rparr>)"
  using assms by (auto simp: refresh_pass_def Let_def split: option.splits sum.splits cfg_error.splits)

lemma refresh_pass_inv:
  assumes "proxy_inv names t config" "refresh_pass D E config = Inr (line, config')"
  shows "proxy_inv names t config' \<and> P_UserConfig config' = P_UserConfig config"
  using refresh_pass_cases [OF assms(2)] assms(1) by (auto simp: proxy_inv_def UpdateBlockList_entries(1))

lemma AddRRString_inv:
  assumes D: "SetQuestion_doc D" and c: "cache_inv t c" and clk: "clock_ok t clk" and run: "AddRRString D c entry permanent ptr clk = Inr c'"
  shows "cache_inv (clk 8) c'"
proof -
  note mono = clock_mono [OF clk]
  have add: "cache_inv (clk 1) (AddRR D c rr permanent (clk 0) (clk 1))" for rr
    using mono(1) [of 1 0] mono(2) [of 8 0] by (intro AddRR_inv [OF D c]) simp_all
  have c1: "cache_inv (clk 1) c" using c mono(2) [of 8 1] by (auto intro: cache_inv_mono)
  obtain c1 rr where c1': "cache_inv (clk 1) c1" "c' = AddRR D c1 rr permanent (clk 2) (clk 3)"
    using run add c1 by (auto simp: AddRRString_def Let_def split: sum.splits if_splits option.splits RData.splits)
  have "cache_inv (clk 3) c'" unfolding c1'(2) using mono(1) by (intro AddRR_inv [OF D c1'(1)]) simp_all
  then show ?thesis using mono(1) [of 8 3] by (auto intro: cache_inv_mono)
qed

lemma BlockListAdd_keeps:
  "proxy_inv names t (svc_config s) \<Longrightarrow> proxy_inv names t (svc_config (snd (BlockListAdd D s vs))) \<and>
    P_UserConfig (svc_config (snd (BlockListAdd D s vs))) = P_UserConfig (svc_config s)"
proof (induction vs arbitrary: s)
  case (Cons v vs)
  show ?case
  proof (cases "AddEntry D (P_BlockList (svc_config s)) v TypeANY")
    case (Inr b)
    then have "bl_wf b" using AddEntry_adds [OF Inr] Cons.prems by (simp add: adds_def proxy_inv_def)
    then have "proxy_inv names t ((svc_config s)\<lparr>P_BlockList := b\<rparr>)" using Cons.prems by (simp add: proxy_inv_def)
    with Cons.IH [of "s\<lparr>svc_config := (svc_config s)\<lparr>P_BlockList := b\<rparr>, changelog := addBlock (changelog s) v\<rparr>"] Inr show ?thesis by simp
  qed (use Cons.prems in simp)
qed simp

lemma DeleteEntry_wf: "bl_wf b \<Longrightarrow> DeleteEntry D b v q = Inr (found, b') \<Longrightarrow> bl_wf b'"
  by (auto simp: DeleteEntry_def split: list.splits option.splits dest: bl_Delete(1)) (metis bl_Delete(1) snd_conv)+

lemma BlockListDelete_keeps:
  "proxy_inv names t (svc_config s) \<Longrightarrow> proxy_inv names t (svc_config (snd (BlockListDelete D s v))) \<and>
    P_UserConfig (svc_config (snd (BlockListDelete D s v))) = P_UserConfig (svc_config s)"
  by (auto simp: BlockListDelete_def proxy_inv_def dest: DeleteEntry_wf split: sum.splits prod.splits)

lemma api_dispatch_config:
  assumes D: "SetQuestion_doc D" and inv: "proxy_inv names t (svc_config s)" and clk: "clock_ok t clk"
    and run: "api_dispatch D fmt_secs marshal clk s call = Inr (r, s')"
  shows "proxy_inv names (clk 8) (svc_config s') \<and> P_UserConfig (svc_config s') = P_UserConfig (svc_config s)"
proof -
  note mono = clock_mono [OF clk]
  have inv8: "proxy_inv names (clk 8) (svc_config s)" using inv mono(2) [of 8 8] by (auto intro: proxy_inv_mono)
  have c: "cache_inv t (P_Cache (svc_config s))" using inv by (simp add: proxy_inv_def)
  have cache: "proxy_inv names (clk 8) ((svc_config s)\<lparr>P_Cache := c'\<rparr>)" if "cache_inv (clk 8) c'" for c'
    using inv that by (rule proxy_inv_cache)
  show ?thesis
  proof (cases call)
    case (MCacheAdd req)
    show ?thesis
    proof (cases "AddRRString D (P_Cache (svc_config s)) (CA_RR req) (CA_Permanent req) (CA_Ptr req) clk")
      case (Inl err)
      then show ?thesis using run MCacheAdd inv8 by (auto simp: rpc_defs)
    next
      case (Inr c')
      then have "svc_config s' = (svc_config s)\<lparr>P_Cache := c'\<rparr>" using run MCacheAdd by (auto simp: rpc_defs split: if_splits)
      then show ?thesis using AddRRString_inv [OF D c clk Inr] cache by simp
    qed
  next
    case (MCacheDelete req)
    then obtain c' where "DeleteName D (P_Cache (svc_config s)) (CD_Name req) (CD_Qtype req) (CD_Ptr req) (clk 0) (clk 1) = Inr c'"
      "svc_config s' = (svc_config s)\<lparr>P_Cache := c'\<rparr>" using run by (auto simp: rpc_defs)
    moreover from this(1) have "cache_inv (clk 1) c'" using mono(1) [of 1 0] mono(2) [of 8 0] by (intro DeleteName_inv [OF c]) simp_all
    ultimately show ?thesis using cache mono(1) [of 8 1] by (auto intro: cache_inv_mono)
  next
    case (MBlockListAdd vs)
    then have "s' = snd (BlockListAdd D s vs)" using run by (auto simp: rpc_defs)
    then show ?thesis using BlockListAdd_keeps [OF inv8] by simp
  next
    case (MBlockListDelete v)
    then have "s' = snd (BlockListDelete D s v)" using run by (auto simp: rpc_defs)
    then show ?thesis using BlockListDelete_keeps [OF inv8] by simp
  qed (use run inv8 in \<open>auto simp: rpc_defs proxy_inv_def split: option.splits\<close>)
qed

lemma changelog_ok_blocks:
  "changelog_ok c \<Longrightarrow> changelog_ok (addBlock c v)" "changelog_ok c \<Longrightarrow> changelog_ok (removeBlock c v)"
  by (auto simp: changelog_ok_def addBlock_def removeBlock_def Let_def split: option.splits if_splits)

lemma changelog_ok_records:
  "changelog_ok c \<Longrightarrow> addRR D c t = Inr c' \<Longrightarrow> changelog_ok c'" "changelog_ok c \<Longrightarrow> addRRPtr D c t = Inr c' \<Longrightarrow> changelog_ok c'"
  "changelog_ok c \<Longrightarrow> changelog_ok (removeRR D c n q)"
proof -
  note simps = changelog_ok_def
  show "changelog_ok c \<Longrightarrow> addRR D c t = Inr c' \<Longrightarrow> changelog_ok c'"
    by (cases "rr_text_key D t") (auto simp: addRR_def simps split: option.splits sum.splits if_splits)
  show "changelog_ok c \<Longrightarrow> addRRPtr D c t = Inr c' \<Longrightarrow> changelog_ok c'"
    by (cases "rr_text_key D t") (auto simp: addRRPtr_def simps split: option.splits sum.splits if_splits)
  show "changelog_ok c \<Longrightarrow> changelog_ok (removeRR D c n q)"
    by (auto simp: removeRR_def Let_def simps split: option.splits if_splits)
qed

lemma BlockListAdd_changelog: "changelog_ok (changelog s) \<Longrightarrow> changelog_ok (changelog (snd (BlockListAdd D s vs)))"
  by (induction vs arbitrary: s) (auto simp: changelog_ok_blocks split: sum.splits)

lemma api_dispatch_changelog:
  assumes "changelog_ok (changelog s)" "api_dispatch D fmt_secs marshal clk s call = Inr (r, s')"
  shows "changelog_ok (changelog s')"
proof (cases call)
  case (MBlockListAdd vs)
  then have "s' = snd (BlockListAdd D s vs)" using assms(2) by (auto simp: rpc_defs)
  then show ?thesis using BlockListAdd_changelog [OF assms(1)] by simp
next
  case (MBlockListDelete v)
  then have "s' = snd (BlockListDelete D s v)" using assms(2) by (auto simp: rpc_defs)
  then show ?thesis using assms(1) by (auto simp: BlockListDelete_def changelog_ok_blocks split: sum.splits prod.splits)
qed (use assms in \<open>auto simp: rpc_defs intro: changelog_ok_records split: option.splits sum.splits if_splits\<close>)

lemma server_step_inv:
  assumes D: "SetQuestion_doc D" and inv: "server_inv names uc x" and step: "server_step D N fmt_secs marshal x y"
  shows "server_inv names uc y"
  using step inv
proof (cases rule: server_step.cases)
  case (step_query t clk s w clientAddr q m config' w' calls)
  have "proxy_inv names t (svc_config s)" using inv step_query(1) by simp
  from MakeHandler_inv [OF this step_query(3,4)] MakeHandler_UserConfig [OF step_query(4)] show ?thesis
    using inv step_query(1,2) by simp
next
  case (step_doh t clk s w r reply config' w' calls)
  have now: "proxy_inv names t (svc_config s)" using inv step_doh(1) by simp
  then have "proxy_inv names (clk 8) (svc_config s)" using clock_mono(2) [OF step_doh(3), of 8 8] by (auto intro: proxy_inv_mono)
  moreover have "proxy_inv names (clk 8) config' \<and> P_UserConfig config' = P_UserConfig (svc_config s)"
    if "MakeHandler D N clk (svc_config s) w (R_RemoteAddr r) q = Inr (m, config', w', calls)" for q m
    using MakeHandler_inv [OF now step_doh(3) that] MakeHandler_UserConfig [OF that] by blast
  ultimately have "proxy_inv names (clk 8) config' \<and> P_UserConfig config' = P_UserConfig (svc_config s)"
    using MakeDoHHandler_runs [OF step_doh(5)] by blast
  then show ?thesis using inv step_doh(1,2) by simp
next
  case (step_flush t t' s line config' w)
  have "proxy_inv names t (svc_config s)" using inv step_flush(1) by simp
  from flush_pass_inv [OF this step_flush(3,4)] show ?thesis using inv step_flush(1,2) by simp
next
  case (step_refresh t t' s E line config' w)
  have "proxy_inv names t' (svc_config s)" using inv step_refresh(1) proxy_inv_mono [OF _ step_refresh(3)] by simp
  from refresh_pass_inv [OF this step_refresh(5)] show ?thesis using inv step_refresh(1,2) by simp
next
  case (step_api t clk s call r s' w)
  have "proxy_inv names t (svc_config s)" "changelog_ok (changelog s)" using inv step_api(1) by simp_all
  with api_dispatch_config [OF D _ step_api(3,5)] api_dispatch_changelog [OF _ step_api(5)] show ?thesis
    using inv step_api(1,2) by simp
qed

interpretation running: kept_invariant "server_step D N fmt_secs marshal" "\<lambda>x. SetQuestion_doc D \<and> server_inv names uc x"
  for D N fmt_secs marshal names uc
  by unfold_locales (blast intro: server_step_inv)

section \<open>Start-up\<close>

text \<open>Each paragraph of \<^verbatim>\<open>GetProxyConfig\<close> touches its own fields only.\<close>

lemma try_fold_frame:
  assumes "\<And>s x s'. f s x = Inr s' \<Longrightarrow> g s' = g s"
  shows "try_fold f s xs = Inr s' \<Longrightarrow> g s' = g s"
proof (induction xs arbitrary: s)
  case (Cons x xs)
  then obtain s1 where s1: "f s x = Inr s1" "try_fold f s1 xs = Inr s'" by (auto split: sum.splits)
  show ?case using Cons.IH [OF s1(2)] assms [OF s1(1)] by simp
qed simp

text \<open>The fields that the handler depends on.\<close>

definition core :: "ProxyConfig \<Rightarrow> Resolver list \<times> int \<times> DNSCache \<times> BlockList \<times> nat stats \<times> int option" where
  "core c = (Upstream c, UpstreamErr c, P_Cache c, P_BlockList c, StatsHandler c, BlockPauseUntil c)"

lemma set_Listen_core: "set_Listen E uc c = Inr c' \<Longrightarrow> core c' = core c"
  unfolding set_Listen_def by (rule try_fold_frame [where g = core]) (auto simp: core_def and_then_Inr)

lemma set_Acl_core: "set_Acl uc c = Inr c' \<Longrightarrow> core c' = core c"
  unfolding set_Acl_def by (rule try_fold_frame [where g = core]) (auto simp: core_def split: option.splits)

lemma set_Dns64_core: "set_Dns64 uc c = Inr c' \<Longrightarrow> core c' = core c"
  by (auto simp: set_Dns64_def Let_def core_def split: if_splits option.splits)

lemma set_Api_Doh_core: "set_Api_Doh E uc c = Inr c' \<Longrightarrow> core c' = core c"
proof -
  have fold: "try_fold (\<lambda>c v. and_then (lift_addr (ParseAddr E v 443)) (\<lambda>addrs. Inr (c\<lparr>DohBind := DohBind c @ addrs\<rparr>))) c0 vs = Inr c1 \<Longrightarrow>
      core c1 = core c0" for c0 c1 vs
    by (rule try_fold_frame [where g = core]) (auto simp: core_def and_then_Inr)
  assume run: "set_Api_Doh E uc c = Inr c'"
  define c0 where "c0 = (if U_ApiBind uc \<noteq> '''' then c\<lparr>Api := U_Api uc, ApiBind := U_ApiBind uc\<rparr> else c\<lparr>Api := U_Api uc\<rparr>)"
  obtain c1 where c1: "try_fold (\<lambda>c v. and_then (lift_addr (ParseAddr E v 443)) (\<lambda>addrs. Inr (c\<lparr>DohBind := DohBind c @ addrs\<rparr>))) c0 (U_Doh uc) = Inr c1"
      "core c' = core c1"
    using run by (cases "U_DohPath uc = ''''") (auto simp: set_Api_Doh_def Let_def and_then_Inr c0_def core_def)
  have "core c0 = core c" by (simp add: c0_def core_def)
  with fold [OF c1(1)] c1(2) show "core c' = core c" by simp
qed

lemma set_rest_core:
  "set_Refresh E fmt_dur uc c = Inr c' \<Longrightarrow> core c' = core c" "set_Log dial uc c = Inr c' \<Longrightarrow> core c' = core c"
  "set_Setuid E uc c = Inr c' \<Longrightarrow> core c' = core c"
  by (auto simp: set_Refresh_def set_Log_def set_Setuid_def Let_def core_def split: if_splits sum.splits)

lemma set_Local_core:
  assumes "set_Local D E clk uc c = Inr c'"
  obtains cache where "core c' = core (c\<lparr>P_Cache := cache\<rparr>)" "c' = c\<lparr>P_Cache := cache\<rparr>"
  using assms by (auto simp: set_Local_def Let_def and_then_Inr core_def)

text \<open>Records added for good keep the cache in order whenever they are added by time \<open>t\<close>.\<close>

lemma AddRR_permanent_inv:
  assumes "SetQuestion_doc D" "cache_inv t c" "n2 \<le> t"
  shows "cache_inv t (AddRR D c rr True n1 n2)"
proof (cases rr)
  case (Some r)
  then show ?thesis
    using assms by (auto simp: AddRR_def Let_def SetQuestion_doc_def item_ok_def intro!: cache_inv_set)
qed (use assms in \<open>simp add: AddRR_def\<close>)

lemma AddRRString_permanent_inv:
  assumes "SetQuestion_doc D" "cache_inv t c" "\<And>i. clk i \<le> t" "AddRRString D c entry True ptr clk = Inr c'"
  shows "cache_inv t c'"
  using assms(4) AddRR_permanent_inv [OF assms(1) _ assms(3)] assms(2)
  by (auto simp: AddRRString_def Let_def split: sum.splits if_splits option.splits RData.splits)

lemma add_records_inv:
  assumes "SetQuestion_doc D" "\<And>i. clk i \<le> t"
  shows "cache_inv t c \<Longrightarrow> add_records D ptr clk k c vs = Inr c' \<Longrightarrow> cache_inv t c'"
proof (induction vs arbitrary: c k)
  case (Cons v vs)
  then obtain c1 where c1: "AddRRString D c v True ptr (\<lambda>i. clk (k + i)) = Inr c1" "add_records D ptr clk (k + 4) c1 vs = Inr c'"
    by (auto split: sum.splits)
  have "cache_inv t c1" using AddRRString_permanent_inv [OF assms(1) Cons.prems(1) _ c1(1)] assms(2) by blast
  then show ?case using Cons.IH c1(2) by blast
qed simp

lemma add_zone_inv:
  assumes "SetQuestion_doc D" "\<And>i. clk i \<le> t"
  shows "cache_inv t c \<Longrightarrow> cache_inv t (add_zone D clk k c rrs)"
  by (induction rrs arbitrary: c k) (simp_all add: AddRR_permanent_inv [OF assms(1)] assms(2))

lemma add_zones_inv:
  assumes "SetQuestion_doc D" "\<And>i. clk i \<le> t"
  shows "cache_inv t c \<Longrightarrow> add_zones D E clk k c vs = Inr c' \<Longrightarrow> cache_inv t c'"
proof (induction vs arbitrary: c k)
  case (Cons v vs)
  obtain f where f: "UrlOpen E v = Inr f" using Cons.prems(2) by (cases "UrlOpen E v") auto
  obtain rrs where "ZoneParser E f = (rrs, None)" using Cons.prems(2) f by (cases "ZoneParser E f"; cases "snd (ZoneParser E f)") auto
  then have "add_zones D E clk (k + 2 * length rrs) (add_zone D clk k c rrs) vs = Inr c'" using Cons.prems(2) f by simp
  then show ?case by (rule Cons.IH [OF add_zone_inv [OF assms Cons.prems(1)]])
qed simp

lemma set_Local_inv:
  assumes "SetQuestion_doc D" "\<And>i. clk i \<le> t" "cache_inv t (P_Cache c)" "set_Local D E clk uc c = Inr c'"
  shows "cache_inv t (P_Cache c')"
proof -
  let ?k1 = "4 * length (LocalRR uc)" and ?k2 = "4 * length (LocalRR uc) + 4 * length (LocalRRPtr uc)"
  obtain c1 c2 c3 where c: "add_records D False clk 0 (P_Cache c) (LocalRR uc) = Inr c1" "add_records D True clk ?k1 c1 (LocalRRPtr uc) = Inr c2"
    "add_zones D E clk ?k2 c2 (Localzone uc) = Inr c3" "c' = c\<lparr>P_Cache := c3\<rparr>"
    using assms(4) by (auto simp: set_Local_def Let_def and_then_Inr)
  have "cache_inv t c1" using add_records_inv [OF assms(1,2,3) c(1)] .
  then have "cache_inv t c2" using add_records_inv [OF assms(1,2) _ c(2)] by blast
  then have "cache_inv t c3" using add_zones_inv [OF assms(1,2) _ c(3)] by blast
  then show ?thesis using c(4) by simp
qed

lemma new_upstream_inv: "resolver_inv (new_upstream v)"
  by (simp add: new_upstream_def)

lemma NewProxyConfig_inv:
  assumes "NewProxyConfig = Inr c"
  shows "rb_wf (StatsHandler c)" "P_Cache c = Cache_New" "P_BlockList c = BlockList_New" "Upstream c = []" "UpstreamErr c = 0"
    "BlockPauseUntil c = None"
proof -
  obtain st :: "nat stats" where st: "Stats_New 1000 = Inr st" "rb_wf st"
    using NewCircularBuffer_wf [of 1000 zeroLog] by (auto simp: Stats_New_def)
  then show "rb_wf (StatsHandler c)" "P_Cache c = Cache_New" "P_BlockList c = BlockList_New" "Upstream c = []" "UpstreamErr c = 0"
    "BlockPauseUntil c = None"
    using assms by (auto simp: NewProxyConfig_def)
qed

text \<open>What a successful start leaves: the invariant, with the configured upstreams in their order.\<close>

lemma GetProxyConfig_inv:
  assumes D: "SetQuestion_doc D" and clk: "\<And>i. clk i \<le> t" and new: "NewProxyConfig = Inr c0"
    and run: "GetProxyConfig D E fmt_dur dial clk uc c0 = Inr c"
  shows "proxy_inv (map (Resolver_String \<circ> new_upstream) (U_Upstream uc)) t c" "P_UserConfig c = Some uc" "BlockPauseUntil c = None"
    "Upstream c = map new_upstream (U_Upstream uc)" "UpdateBlockList D E uc BlockList_New = Inr (P_BlockList c)"
    "\<exists>c1 c2. set_Local D E clk uc c1 = Inr c2 \<and> P_Cache c1 = Cache_New \<and> P_Cache c = P_Cache c2"
proof -
  from run obtain c1 bl c2 c3 c4 c5 c6 c7 c8 where steps: "set_Listen E uc c0 = Inr c1"
    "UpdateBlockList D E uc (P_BlockList (set_Upstream uc c1)) = Inr bl"
    "set_Local D E clk uc ((set_Upstream uc c1)\<lparr>P_BlockList := bl\<rparr>) = Inr c2" "set_Acl uc c2 = Inr c3" "set_Dns64 uc c3 = Inr c4"
    "set_Api_Doh E uc c4 = Inr c5" "set_Refresh E fmt_dur uc c5 = Inr c6" "set_Log dial uc c6 = Inr c7" "set_Setuid E uc c7 = Inr c8"
    "c = c8\<lparr>P_UserConfig := Some uc\<rparr>"
    by (auto simp: GetProxyConfig_def and_then_Inr Let_def)
  have c1: "core c1 = core c0" using set_Listen_core [OF steps(1)] .
  obtain cache where c2: "c2 = (set_Upstream uc c1)\<lparr>P_BlockList := bl, P_Cache := cache\<rparr>" using set_Local_core [OF steps(3)] by auto
  have "core c = core c2"
    using set_Acl_core [OF steps(4)] set_Dns64_core [OF steps(5)] set_Api_Doh_core [OF steps(6)] set_rest_core(1) [OF steps(7)]
      set_rest_core(2) [OF steps(8)] set_rest_core(3) [OF steps(9)] steps(10) by (simp add: core_def)
  with c1 c2 have fields: "Upstream c = Upstream c0 @ map new_upstream (U_Upstream uc)" "UpstreamErr c = UpstreamErr c0" "P_Cache c = cache"
    "P_BlockList c = bl" "StatsHandler c = StatsHandler c0" "BlockPauseUntil c = BlockPauseUntil c0" "P_BlockList c1 = P_BlockList c0" "P_Cache c1 = P_Cache c0"
    by (auto simp: core_def set_Upstream_def)
  note new = NewProxyConfig_inv [OF new]
  have upd: "UpdateBlockList D E uc BlockList_New = Inr bl" using steps(2) fields(7) new(3) by (simp add: set_Upstream_def)
  have "cache_inv t (P_Cache c2)"
    using set_Local_inv [OF D clk _ steps(3)] fields(8) new(2) by (simp add: set_Upstream_def)
  then have cache: "cache_inv t (P_Cache c)" using c2 fields(3) by simp
  show "proxy_inv (map (Resolver_String \<circ> new_upstream) (U_Upstream uc)) t c"
    using fields new cache UpdateBlockList_entries(1) [OF upd]
    by (simp add: proxy_inv_def list_all_iff new_upstream_inv) (rule exI [of _ 0], simp)
  show "P_UserConfig c = Some uc" "BlockPauseUntil c = None" "Upstream c = map new_upstream (U_Upstream uc)"
    "UpdateBlockList D E uc BlockList_New = Inr (P_BlockList c)" using steps(10) fields new upd by simp_all
  show "\<exists>c1 c2. set_Local D E clk uc c1 = Inr c2 \<and> P_Cache c1 = Cache_New \<and> P_Cache c = P_Cache c2"
    using steps(3) c2 fields(3,8) new(2)
    by (intro exI [of _ "(set_Upstream uc c1)\<lparr>P_BlockList := bl\<rparr>"] exI [of _ c2]) (simp add: set_Upstream_def)
qed

section \<open>Properties\<close>

text \<open>
  Claim C1. From start-up on, every query is handled: when the options were accepted, then in every state that DNS
  queries, HTTPS requests, flushes, refreshes, whatever the files hold by then, and API calls can reach, the upstreams
  are the configured ones in a rotated order, all the parts keep their invariants, the options are still those of
  the start, and the next query, from whatever client, returns without a panic as long as upstream
  replies carry a question.
\<close>

theorem server_keeps_serving:
  assumes D: "SetQuestion_doc D" and start: "NewProxyConfig = Inr c0" "GetProxyConfig D E fmt_dur dial clk0 uc c0 = Inr config" "\<forall>i. clk0 i \<le> t0"
    and run: "(server_step D N fmt_secs marshal)\<^sup>*\<^sup>* (NewApiService config, w0, t0) (s, w, t)"
    and query: "clock_ok t clk" "replies_have_question D N"
  shows "proxy_inv (map (Resolver_String \<circ> new_upstream) (U_Upstream uc)) t (svc_config s) \<and>
    P_UserConfig (svc_config s) = Some uc \<and> changelog_ok (changelog s) \<and>
    (\<exists>m config' w' calls. MakeHandler D N clk (svc_config s) w clientAddr q = Inr (m, config', w', calls))"
proof -
  let ?names = "map (Resolver_String \<circ> new_upstream) (U_Upstream uc)"
  have clk0: "clk0 i \<le> t0" for i using start(3) by blast
  have "server_inv ?names uc (NewApiService config, w0, t0)"
    using GetProxyConfig_inv(1,2) [OF D clk0 start(1,2)] by (simp add: NewApiService_def newChangeLog_def changelog_ok_def)
  from running.reachable [OF run] this D have inv: "server_inv ?names uc (s, w, t)" by blast
  then have "proxy_inv ?names t (svc_config s)" by simp
  from MakeHandler_no_panic [OF this query] inv show ?thesis by simp
qed

lemma sample_start:
  "\<exists>c0 config. NewProxyConfig = Inr c0 \<and>
    GetProxyConfig sample_lib sample_env (\<lambda>_. '''') (\<lambda>_. None) (\<lambda>_. 0) (NewUserConfig\<lparr>U_Upstream := [''192.0.2.53'']\<rparr>) c0 = Inr config"
proof -
  obtain st :: "nat stats" where "Stats_New 1000 = Inr st"
    using NewCircularBuffer_wf [of 1000 zeroLog] by (auto simp: Stats_New_def)
  then show ?thesis
    by (simp add: NewProxyConfig_def GetProxyConfig_def set_Listen_def NewUserConfig_def UpdateBlockList_def set_Local_def set_Acl_def
        set_Dns64_def set_Api_Doh_def set_Refresh_def set_Log_def set_Setuid_def Let_def)
qed

theorem server_keeps_serving_witness:
  "\<exists>config m config' w' calls.
    proxy_inv (map (Resolver_String \<circ> new_upstream) [''192.0.2.53'']) 0 config \<and>
    MakeHandler sample_lib (answer_net []) int config 0 ''192.0.2.7:5353'' (sample_query ''h.local'' TypeA) = Inr (m, config', w', calls)"
proof -
  let ?uc = "NewUserConfig\<lparr>U_Upstream := [''192.0.2.53'']\<rparr>"
  obtain c0 config where start: "NewProxyConfig = Inr c0"
    "GetProxyConfig sample_lib sample_env (\<lambda>_. '''') (\<lambda>_. None) (\<lambda>_. 0) ?uc c0 = Inr config" using sample_start by blast
  from server_keeps_serving [OF sample_set_question start, of 0 "answer_net []" "\<lambda>_. ''''" "\<lambda>_. Inr ''''" 0 "NewApiService config" 0 0 int
      "''192.0.2.7:5353''" "sample_query ''h.local'' TypeA"] sample_clock answer_net_question
  show ?thesis by (auto simp: NewApiService_def NewUserConfig_def)
qed

lemma try_fold_Inl: "try_fold f s xs = Inl e \<Longrightarrow> \<exists>s x. x \<in> set xs \<and> f s x = Inl e"
  by (induction xs arbitrary: s) (auto split: sum.splits, blast)

lemma and_then_Inl: "and_then m f = Inl e \<longleftrightarrow> m = Inl e \<or> (\<exists>x. m = Inr x \<and> f x = Inl e)"
  by (cases m) auto

lemma map_sum_Inl: "map_sum f g x = Inl y \<longleftrightarrow> (\<exists>z. x = Inl z \<and> y = f z)"
  by (cases x) auto

lemma load_url_error: "load_url E f b url = Inl e \<Longrightarrow> \<exists>err. e = CfgErr err"
  by (auto simp: load_url_def split: prod.splits option.splits)

lemma UpdateBlockList_panic:
  assumes "UpdateBlockList D E uc b = Inl e" "\<forall>v \<in> set (BlockDelete uc). splitName v \<noteq> []"
  shows "\<exists>err. e = CfgErr err"
proof -
  have lists: "try_fold (load_url E f) b0 us = Inl e \<Longrightarrow> \<exists>err. e = CfgErr err" for f b0 us
    using try_fold_Inl [of "load_url E f" b0 us e] load_url_error by blast
  have opts: "try_fold (\<lambda>b v. map_sum (\<lambda>e. CfgErr (bl_error_String e)) id (AddEntry D b v TypeANY)) b vs = Inl e \<Longrightarrow> \<exists>err. e = CfgErr err" for vs
    by (drule try_fold_Inl) (auto simp: map_sum_Inl)
  have dels: "try_fold (\<lambda>b v. map_sum CfgPanic snd (BlockList_DeleteTree b v)) b0 (BlockDelete uc) \<noteq> Inl e" for b0
  proof
    assume "try_fold (\<lambda>b v. map_sum CfgPanic snd (BlockList_DeleteTree b v)) b0 (BlockDelete uc) = Inl e"
    from try_fold_Inl [OF this] obtain b1 v p where "v \<in> set (BlockDelete uc)" "BlockList_DeleteTree b1 v = Inl p" by (auto simp: map_sum_Inl)
    then show False using assms(2) bl_DeleteTree_total [of v b1] by auto
  qed
  show ?thesis using assms(1) lists opts dels by (auto simp: UpdateBlockList_def and_then_Inl)
qed

lemma UpdateBlockList_deletes:
  assumes "UpdateBlockList D E uc b = Inr b'"
  shows "\<forall>v \<in> set (BlockDelete uc). splitName v \<noteq> []"
proof -
  have "try_fold (\<lambda>b v. map_sum CfgPanic snd (BlockList_DeleteTree b v)) b0 vs = Inr b1 \<Longrightarrow> \<forall>v \<in> set vs. splitName v \<noteq> []" for b0 b1 vs
  proof (induction vs arbitrary: b0)
    case (Cons v vs)
    then show ?case using bl_DeleteTree_root [of v b0] by (auto simp: map_sum_Inr split: sum.splits)
  qed simp
  then show ?thesis using assms by (auto simp: UpdateBlockList_def and_then_Inr)
qed

text \<open>
  Claim C23. A refresh is all or nothing: for options that loaded once, a pass of the refresh loop never panics, whatever
  the files and pages hold now. When one of them cannot be read or parsed the old list stays in force, whole; when
  all can, the list is exactly what the options and the current files say, whatever API calls had changed in the
  old one, and nothing else of the configuration is touched.
\<close>

theorem refresh_all_or_nothing:
  assumes "UpdateBlockList D E0 uc BlockList_New = Inr b0" "P_UserConfig config = Some uc"
  shows "\<exists>line config'. refresh_pass D E config = Inr (line, config') \<and>
    (case UpdateBlockList D E uc BlockList_New of
       Inl e \<Rightarrow> config' = config
     | Inr b \<Rightarrow> config' = config\<lparr>P_BlockList := b\<rparr> \<and>
         (\<forall>n q. BlockList_Match (P_BlockList config') n q \<longleftrightarrow>
            blocked_by {(t, q) \<in> configured_entries D E uc. \<forall>v \<in> set (BlockDelete uc). \<not> suffix (splitName v) t} (splitName n) q))"
proof (cases "UpdateBlockList D E uc BlockList_New")
  case (Inl e)
  from UpdateBlockList_panic [OF Inl UpdateBlockList_deletes [OF assms(1)]] show ?thesis
    using Inl assms(2) by (auto simp: refresh_pass_def)
next
  case (Inr b)
  have "bl_wf b \<and> bl_entries b = {(t, q) \<in> configured_entries D E uc. \<forall>v \<in> set (BlockDelete uc). \<not> suffix (splitName v) t}"
    using UpdateBlockList_entries [OF Inr] by blast
  then show ?thesis using Inr assms(2) by (simp add: refresh_pass_def Let_def bl_Match)
qed

theorem refresh_all_or_nothing_witness:
  "\<exists>line config'. refresh_pass sample_lib (sample_env\<lparr>os_Open := \<lambda>_. Inl ''gone''\<rparr>)
      (sample_config\<lparr>P_UserConfig := Some (NewUserConfig\<lparr>Block := [''ads.local'']\<rparr>)\<rparr>) = Inr (line, config')"
proof -
  have "UpdateBlockList sample_lib sample_env (NewUserConfig\<lparr>Block := [''ads.local'']\<rparr>) BlockList_New = Inr (P_BlockList sample_config)"
    by (simp add: UpdateBlockList_def NewUserConfig_def AddEntry_def sample_config_def)
  from refresh_all_or_nothing [OF this, of "sample_config\<lparr>P_UserConfig := Some (NewUserConfig\<lparr>Block := [''ads.local'']\<rparr>)\<rparr>"
      "sample_env\<lparr>os_Open := \<lambda>_. Inl ''gone''\<rparr>"] show ?thesis by auto
qed

end
