(* ===== verification/Options.thy ===== *)
theory Options
  imports Server
begin

text \<open>
  The command \<^verbatim>\<open>cmd/dinosaur\<close>: the flags and their parsing by Go's \<^verbatim>\<open>flag\<close> package, the merge of configuration
  file and flags (\<^verbatim>\<open>options.go\<close>), and the program from its arguments to the started server (\<^verbatim>\<open>main.go\<close>).
  \<^verbatim>\<open>json.Unmarshal\<close> into the options is the parameter \<open>unmarshal\<close>.
\<close>

section \<open>Flags\<close>

record Flags =
  F_help :: bool
  F_config :: string
  F_dns64 :: bool
  F_dns64Prefix :: string
  F_api :: bool
  F_apiBind :: string
  F_dohCert :: string
  F_dohKey :: string
  F_dohPath :: string
  F_refresh :: bool
  F_refreshInterval :: string
  F_debug :: bool
  F_syslog :: bool
  F_discard :: bool
  F_setuid :: string
  F_listen :: MultiFlag
  F_upstream :: MultiFlag
  F_block :: MultiFlag
  F_blockDelete :: MultiFlag
  F_blocklist :: MultiFlag
  F_blocklistAAAA :: MultiFlag
  F_blocklistHosts :: MultiFlag
  F_localRR :: MultiFlag
  F_localRRPtr :: MultiFlag
  F_localZone :: MultiFlag
  F_acl :: MultiFlag
  F_doh :: MultiFlag

definition default_flags :: Flags where
  "default_flags =
     \<lparr>F_help = False, F_config = '''', F_dns64 = False, F_dns64Prefix = '''', F_api = False, F_apiBind = '''', F_dohCert = '''',
      F_dohKey = '''', F_dohPath = '''', F_refresh = False, F_refreshInterval = '''', F_debug = False, F_syslog = False,
      F_discard = False, F_setuid = '''', F_listen = [], F_upstream = [], F_block = [], F_blockDelete = [], F_blocklist = [],
      F_blocklistAAAA = [], F_blocklistHosts = [], F_localRR = [], F_localRRPtr = [], F_localZone = [], F_acl = [], F_doh = []\<rparr>"

text \<open>The flags that are defined: a boolean flag, or one that takes a value.\<close>

datatype flag = BoolFlag "bool \<Rightarrow> Flags \<Rightarrow> Flags" | ValueFlag "string \<Rightarrow> Flags \<Rightarrow> Flags"

definition flag_table :: "(string \<times> flag) list" where
  "flag_table =
     [(''help'', BoolFlag (\<lambda>b f. f\<lparr>F_help := b\<rparr>)),
      (''config'', ValueFlag (\<lambda>v f. f\<lparr>F_config := v\<rparr>)),
      (''dns64'', BoolFlag (\<lambda>b f. f\<lparr>F_dns64 := b\<rparr>)),
      (''dns64-prefix'', ValueFlag (\<lambda>v f. f\<lparr>F_dns64Prefix := v\<rparr>)),
      (''api'', BoolFlag (\<lambda>b f. f\<lparr>F_api := b\<rparr>)),
      (''api-bind'', ValueFlag (\<lambda>v f. f\<lparr>F_apiBind := v\<rparr>)),
      (''doh-cert'', ValueFlag (\<lambda>v f. f\<lparr>F_dohCert := v\<rparr>)),
      (''doh-key'', ValueFlag (\<lambda>v f. f\<lparr>F_dohKey := v\<rparr>)),
      (''doh-path'', ValueFlag (\<lambda>v f. f\<lparr>F_dohPath := v\<rparr>)),
      (''refresh'', BoolFlag (\<lambda>b f. f\<lparr>F_refresh := b\<rparr>)),
      (''refresh-interval'', ValueFlag (\<lambda>v f. f\<lparr>F_refreshInterval := v\<rparr>)),
      (''debug'', BoolFlag (\<lambda>b f. f\<lparr>F_debug := b\<rparr>)),
      (''syslog'', BoolFlag (\<lambda>b f. f\<lparr>F_syslog := b\<rparr>)),
      (''discard'', BoolFlag (\<lambda>b f. f\<lparr>F_discard := b\<rparr>)),
      (''setuid'', ValueFlag (\<lambda>v f. f\<lparr>F_setuid := v\<rparr>)),
      (''listen'', ValueFlag (\<lambda>v f. f\<lparr>F_listen := MultiFlag_Set (F_listen f) v\<rparr>)),
      (''upstream'', ValueFlag (\<lambda>v f. f\<lparr>F_upstream := MultiFlag_Set (F_upstream f) v\<rparr>)),
      (''block'', ValueFlag (\<lambda>v f. f\<lparr>F_block := MultiFlag_Set (F_block f) v\<rparr>)),
      (''block-delete'', ValueFlag (\<lambda>v f. f\<lparr>F_blockDelete := MultiFlag_Set (F_blockDelete f) v\<rparr>)),
      (''blocklist'', ValueFlag (\<lambda>v f. f\<lparr>F_blocklist := MultiFlag_Set (F_blocklist f) v\<rparr>)),
      (''blocklist-aaaa'', ValueFlag (\<lambda>v f. f\<lparr>F_blocklistAAAA := MultiFlag_Set (F_blocklistAAAA f) v\<rparr>)),
      (''blocklist-from-hosts'', ValueFlag (\<lambda>v f. f\<lparr>F_blocklistHosts := MultiFlag_Set (F_blocklistHosts f) v\<rparr>)),
      (''localrr'', ValueFlag (\<lambda>v f. f\<lparr>F_localRR := MultiFlag_Set (F_localRR f) v\<rparr>)),
      (''localrr-ptr'', ValueFlag (\<lambda>v f. f\<lparr>F_localRRPtr := MultiFlag_Set (F_localRRPtr f) v\<rparr>)),
      (''localzone'', ValueFlag (\<lambda>v f. f\<lparr>F_localZone := MultiFlag_Set (F_localZone f) v\<rparr>)),
      (''acl'', ValueFlag (\<lambda>v f. f\<lparr>F_acl := MultiFlag_Set (F_acl f) v\<rparr>)),
      (''doh'', ValueFlag (\<lambda>v f. f\<lparr>F_doh := MultiFlag_Set (F_doh f) v\<rparr>))]"

text \<open>\<^verbatim>\<open>strconv.ParseBool\<close>.\<close>

definition ParseBool :: "string \<Rightarrow> bool option" where
  "ParseBool s =
     (if s \<in> {''1'', ''t'', ''T'', ''TRUE'', ''true'', ''True''} then Some True
      else if s \<in> {''0'', ''f'', ''F'', ''FALSE'', ''false'', ''False''} then Some False
      else None)"

text \<open>
  \<^verbatim>\<open>flag.Parse\<close>, one argument after the other: it stops at an argument that is no flag, or after \<^verbatim>\<open>--\<close>. An error
  prints a message and ends the program with code 2; \<^verbatim>\<open>-h\<close>, which is not defined, prints the usage and ends it
  with code 0.
\<close>

datatype flag_exit = ExitUsage | ExitError string

definition flag_name :: "string \<Rightarrow> string \<times> string option" where
  "flag_name body =
     (case body of
        [] \<Rightarrow> ('''', None)
      | c # cs \<Rightarrow>
          (case dropWhile (\<lambda>x. x \<noteq> CHR ''='') cs of
             [] \<Rightarrow> (body, None)
           | _ # value \<Rightarrow> (c # takeWhile (\<lambda>x. x \<noteq> CHR ''='') cs, Some value)))"

fun flag_Parse :: "string list \<Rightarrow> Flags \<Rightarrow> flag_exit + Flags" where
  "flag_Parse [] f = Inr f"
| "flag_Parse (s # args) f =
     (if length s < 2 \<or> s ! 0 \<noteq> CHR ''-'' \<or> s = ''--'' then Inr f
      else
        let body = (if s ! 1 = CHR ''-'' then drop 2 s else drop 1 s)
        in if body = [] \<or> body ! 0 = CHR ''-'' \<or> body ! 0 = CHR ''='' then Inl (ExitError (''bad flag syntax: '' @ s))
           else
             let (name, value) = flag_name body
             in case map_of flag_table name of
                  None \<Rightarrow>
                    if name = ''help'' \<or> name = ''h'' then Inl ExitUsage
                    else Inl (ExitError (''flag provided but not defined: -'' @ name))
                | Some (BoolFlag set_flag) \<Rightarrow>
                    (case value of
                       None \<Rightarrow> flag_Parse args (set_flag True f)
                     | Some v \<Rightarrow>
                         (case ParseBool v of
                            None \<Rightarrow> Inl (ExitError (''invalid boolean value '' @ v @ '' for -'' @ name))
                          | Some b \<Rightarrow> flag_Parse args (set_flag b f)))
                | Some (ValueFlag set_flag) \<Rightarrow>
                    (case value of
                       Some v \<Rightarrow> flag_Parse args (set_flag v f)
                     | None \<Rightarrow>
                         (case args of
                            [] \<Rightarrow> Inl (ExitError (''flag needs an argument: -'' @ name))
                          | v # args \<Rightarrow> flag_Parse args (set_flag v f))))"

declare flag_Parse.simps [simp del]

section \<open>options.go\<close>

text \<open>The command line on top of the options read so far, and the defaults.\<close>

definition merge_flags :: "Flags \<Rightarrow> UserConfig \<Rightarrow> UserConfig" where
  "merge_flags f uc =
     uc\<lparr>Listen := Listen uc @ F_listen f,
        U_Upstream := U_Upstream uc @ F_upstream f,
        LocalRR := LocalRR uc @ F_localRR f,
        LocalRRPtr := LocalRRPtr uc @ F_localRRPtr f,
        Localzone := Localzone uc @ F_localZone f,
        Block := Block uc @ F_block f,
        U_Blocklist := U_Blocklist uc @ F_blocklist f,
        BlocklistAAAA := BlocklistAAAA uc @ F_blocklistAAAA f,
        BlocklistFromHosts := BlocklistFromHosts uc @ F_blocklistHosts f,
        BlockDelete := BlockDelete uc @ F_blockDelete f,
        U_Acl := U_Acl uc @ F_acl f,
        U_Dns64 := U_Dns64 uc \<or> F_dns64 f,
        U_Dns64Prefix := (if F_dns64Prefix f \<noteq> '''' then F_dns64Prefix f else U_Dns64Prefix uc),
        U_Api := U_Api uc \<or> F_api f,
        U_ApiBind := (if F_apiBind f \<noteq> '''' then F_apiBind f else U_ApiBind uc),
        U_Doh := U_Doh uc @ F_doh f,
        U_DohCert := (if F_dohCert f \<noteq> '''' then F_dohCert f else U_DohCert uc),
        U_DohKey := (if F_dohKey f \<noteq> '''' then F_dohKey f else U_DohKey uc),
        U_DohPath := (if F_dohPath f \<noteq> '''' then F_dohPath f else U_DohPath uc),
        U_Refresh := U_Refresh uc \<or> F_refresh f,
        U_RefreshInterval := (if F_refreshInterval f \<noteq> '''' then F_refreshInterval f else U_RefreshInterval uc),
        U_Debug := U_Debug uc \<or> F_debug f,
        U_Syslog := U_Syslog uc \<or> F_syslog f,
        U_Discard := U_Discard uc \<or> F_discard f,
        U_Setuid := F_setuid f\<rparr>"

definition set_defaults :: "UserConfig \<Rightarrow> UserConfig" where
  "set_defaults uc =
     (let uc = (if length (Listen uc) = 0 then uc\<lparr>Listen := Listen uc @ [''lo0:8053'']\<rparr> else uc)
      in if length (U_Upstream uc) = 0 then uc\<lparr>U_Upstream := U_Upstream uc @ [''tls://1.1.1.1:853'', ''tls://1.0.0.1:853'']\<rparr> else uc)"

text \<open>An exit with its code and what is printed, an error, or the options.\<close>

datatype opt_result = OptExit int "string option" | OptErr string | OptOk UserConfig

definition GetUserConfig :: "sysenv \<Rightarrow> (string \<Rightarrow> UserConfig \<Rightarrow> string + UserConfig) \<Rightarrow> string list \<Rightarrow> opt_result" where
  "GetUserConfig E unmarshal args =
     (case flag_Parse args default_flags of
        Inl ExitUsage \<Rightarrow> OptExit 0 None
      | Inl (ExitError err) \<Rightarrow> OptExit 2 (Some err)
      | Inr f \<Rightarrow>
          if F_help f then OptExit 0 None
          else
            (case (if length (F_config f) \<noteq> 0 then
                     and_then (UrlOpen E (F_config f)) (\<lambda>r.
                     case read_err r of
                       Some err \<Rightarrow> Inl err
                     | None \<Rightarrow> unmarshal (content r) NewUserConfig)
                   else Inr NewUserConfig) of
               Inl err \<Rightarrow> OptErr err
             | Inr uc \<Rightarrow> OptOk (set_defaults (merge_flags f uc))))"

section \<open>main.go\<close>

datatype main_result = MainExit int "string option" | MainFatal string | MainPanic go_panic | MainServes ProxyConfig started

text \<open>The first listener, in the order they are started, that ends with an error ends the program.\<close>

definition main :: "dns_lib \<Rightarrow> sysenv \<Rightarrow> (string \<Rightarrow> UserConfig \<Rightarrow> string + UserConfig) \<Rightarrow> (UserConfig option \<Rightarrow> string) \<Rightarrow>
    (dns_server \<Rightarrow> string option) \<Rightarrow> (int \<Rightarrow> string) \<Rightarrow> (Level \<Rightarrow> string option) \<Rightarrow> (nat \<Rightarrow> int) \<Rightarrow> string list \<Rightarrow> main_result" where
  "main D E unmarshal json_indent serve_err fmt_dur dial clk args =
     (case GetUserConfig E unmarshal args of
        OptExit code err \<Rightarrow> MainExit code err
      | OptErr err \<Rightarrow> MainFatal err
      | OptOk user_config \<Rightarrow>
          (case NewProxyConfig of
             Inl p \<Rightarrow> MainPanic p
           | Inr proxy_config \<Rightarrow>
               (case GetProxyConfig D E fmt_dur dial clk user_config proxy_config of
                  Inl (CfgErr err) \<Rightarrow> MainFatal (''Config Error: '' @ err)
                | Inl (CfgFatal err) \<Rightarrow> MainFatal err
                | Inl (CfgPanic p) \<Rightarrow> MainPanic p
                | Inr proxy_config \<Rightarrow>
                    let st = StartServer json_indent serve_err proxy_config
                    in case FatalLines st of
                         [] \<Rightarrow> MainServes proxy_config st
                       | err # _ \<Rightarrow> MainFatal err)))"

section \<open>Properties\<close>

text \<open>Flags written one after the other, the value of a flag as the next argument.\<close>

definition value_args :: "string \<Rightarrow> string list \<Rightarrow> string list" where
  "value_args name vs = concat (map (\<lambda>v. [CHR ''-'' # name, v]) vs)"

definition bool_args :: "string \<Rightarrow> bool \<Rightarrow> string list" where
  "bool_args name b = (if b then [CHR ''-'' # name] else [])"

definition flag_name_ok :: "string \<Rightarrow> bool" where
  "flag_name_ok name \<longleftrightarrow> name \<noteq> [] \<and> hd name \<noteq> CHR ''-'' \<and> CHR ''='' \<notin> set name"

lemma flag_name_plain: "flag_name_ok name \<Longrightarrow> flag_name name = (name, None)"
proof (cases name)
  case (Cons c cs)
  moreover assume "flag_name_ok name"
  ultimately have "dropWhile (\<lambda>x. x \<noteq> CHR ''='') cs = []" by (auto simp: flag_name_ok_def dropWhile_eq_Nil_conv)
  then show ?thesis unfolding flag_name_def Cons by (simp only: list.case)
qed (simp add: flag_name_ok_def)

lemma flag_body:
  assumes "flag_name_ok name"
  shows "\<not> (length (CHR ''-'' # name) < 2 \<or> (CHR ''-'' # name) ! 0 \<noteq> CHR ''-'' \<or> CHR ''-'' # name = ''--'')"
    "(if (CHR ''-'' # name) ! 1 = CHR ''-'' then drop 2 (CHR ''-'' # name) else drop 1 (CHR ''-'' # name)) = name"
    "\<not> (name = [] \<or> name ! 0 = CHR ''-'' \<or> name ! 0 = CHR ''='')"
  using assms by (cases name; auto simp: flag_name_ok_def)+

text \<open>The contract of a flag of the table, by its kind: what parsing it does to the flags read so far.\<close>

locale bool_flag =
  fixes name :: string and get :: "Flags \<Rightarrow> bool" and put :: "bool \<Rightarrow> Flags \<Rightarrow> Flags"
  assumes name: "flag_name_ok name" and table: "map_of flag_table name = Some (BoolFlag put)"
    and put_get: "put (get f) f = f"
begin

lemma parse_one: "flag_Parse ((CHR ''-'' # name) # args) f = flag_Parse args (put True f)"
  unfolding flag_Parse.simps(2) [of "CHR ''-'' # name"] flag_body(2) [OF name]
  using flag_body(1,3) [OF name] by (simp add: Let_def flag_name_plain [OF name] table del: length_Cons nth_Cons_0)

lemma parse: "flag_Parse (bool_args name b @ args) f = flag_Parse args (put (get f \<or> b) f)"
  by (simp add: bool_args_def parse_one put_get)

end

locale value_flag =
  fixes name :: string and set_flag :: "string \<Rightarrow> Flags \<Rightarrow> Flags"
  assumes name: "flag_name_ok name" and table: "map_of flag_table name = Some (ValueFlag set_flag)"
begin

lemma parse_one: "flag_Parse ((CHR ''-'' # name) # v # args) f = flag_Parse args (set_flag v f)"
  unfolding flag_Parse.simps(2) [of "CHR ''-'' # name"] flag_body(2) [OF name]
  using flag_body(1,3) [OF name] by (simp add: Let_def flag_name_plain [OF name] table del: length_Cons nth_Cons_0)

lemma parse_all: "flag_Parse (value_args name vs @ args) f = flag_Parse args (fold set_flag vs f)"
  by (induction vs arbitrary: f) (simp_all add: value_args_def parse_one)

lemma parse: "flag_Parse (value_args name [v] @ args) f = flag_Parse args (set_flag v f)"
  by (simp add: parse_all)

end

locale list_flag = value_flag name "\<lambda>v f. put (MultiFlag_Set (get f) v) f"
  for name :: string and get :: "Flags \<Rightarrow> string list" and put :: "string list \<Rightarrow> Flags \<Rightarrow> Flags" +
  assumes get_put: "get (put x f) = x" and put_put: "put y (put x f) = put y f" and put_get: "put (get f) f = f"
begin

lemma parse_list: "flag_Parse (value_args name vs @ args) f = flag_Parse args (put (get f @ vs) f)"
proof -
  have "fold (\<lambda>v f. put (MultiFlag_Set (get f) v) f) vs f = put (get f @ vs) f"
    by (induction vs arbitrary: f) (simp_all add: MultiFlag_Set_def get_put put_put put_get)
  then show ?thesis by (simp add: parse_all)
qed

end

lemmas flag_laws = flag_name_ok_def flag_table_def

interpretation dns64_flag: bool_flag "''dns64''" F_dns64 "\<lambda>b. F_dns64_update (\<lambda>_. b)"
  by unfold_locales (simp_all add: flag_laws)

interpretation api_flag: bool_flag "''api''" F_api "\<lambda>b. F_api_update (\<lambda>_. b)"
  by unfold_locales (simp_all add: flag_laws)

interpretation refresh_flag: bool_flag "''refresh''" F_refresh "\<lambda>b. F_refresh_update (\<lambda>_. b)"
  by unfold_locales (simp_all add: flag_laws)

interpretation debug_flag: bool_flag "''debug''" F_debug "\<lambda>b. F_debug_update (\<lambda>_. b)"
  by unfold_locales (simp_all add: flag_laws)

interpretation syslog_flag: bool_flag "''syslog''" F_syslog "\<lambda>b. F_syslog_update (\<lambda>_. b)"
  by unfold_locales (simp_all add: flag_laws)

interpretation discard_flag: bool_flag "''discard''" F_discard "\<lambda>b. F_discard_update (\<lambda>_. b)"
  by unfold_locales (simp_all add: flag_laws)

interpretation config_flag: value_flag "''config''" "\<lambda>v. F_config_update (\<lambda>_. v)"
  by unfold_locales (simp_all add: flag_laws)

interpretation dns64Prefix_flag: value_flag "''dns64-prefix''" "\<lambda>v. F_dns64Prefix_update (\<lambda>_. v)"
  by unfold_locales (simp_all add: flag_laws)

interpretation apiBind_flag: value_flag "''api-bind''" "\<lambda>v. F_apiBind_update (\<lambda>_. v)"
  by unfold_locales (simp_all add: flag_laws)

interpretation dohCert_flag: value_flag "''doh-cert''" "\<lambda>v. F_dohCert_update (\<lambda>_. v)"
  by unfold_locales (simp_all add: flag_laws)

interpretation dohKey_flag: value_flag "''doh-key''" "\<lambda>v. F_dohKey_update (\<lambda>_. v)"
  by unfold_locales (simp_all add: flag_laws)

interpretation dohPath_flag: value_flag "''doh-path''" "\<lambda>v. F_dohPath_update (\<lambda>_. v)"
  by unfold_locales (simp_all add: flag_laws)

interpretation refreshInterval_flag: value_flag "''refresh-interval''" "\<lambda>v. F_refreshInterval_update (\<lambda>_. v)"
  by unfold_locales (simp_all add: flag_laws)

interpretation setuid_flag: value_flag "''setuid''" "\<lambda>v. F_setuid_update (\<lambda>_. v)"
  by unfold_locales (simp_all add: flag_laws)

interpretation listen_flag: list_flag "''listen''" F_listen "\<lambda>vs. F_listen_update (\<lambda>_. vs)"
  by unfold_locales (simp_all add: flag_laws)

interpretation upstream_flag: list_flag "''upstream''" F_upstream "\<lambda>vs. F_upstream_update (\<lambda>_. vs)"
  by unfold_locales (simp_all add: flag_laws)

interpretation block_flag: list_flag "''block''" F_block "\<lambda>vs. F_block_update (\<lambda>_. vs)"
  by unfold_locales (simp_all add: flag_laws)

interpretation blockDelete_flag: list_flag "''block-delete''" F_blockDelete "\<lambda>vs. F_blockDelete_update (\<lambda>_. vs)"
  by unfold_locales (simp_all add: flag_laws)

interpretation blocklist_flag: list_flag "''blocklist''" F_blocklist "\<lambda>vs. F_blocklist_update (\<lambda>_. vs)"
  by unfold_locales (simp_all add: flag_laws)

interpretation blocklistAAAA_flag: list_flag "''blocklist-aaaa''" F_blocklistAAAA "\<lambda>vs. F_blocklistAAAA_update (\<lambda>_. vs)"
  by unfold_locales (simp_all add: flag_laws)

interpretation blocklistHosts_flag: list_flag "''blocklist-from-hosts''" F_blocklistHosts "\<lambda>vs. F_blocklistHosts_update (\<lambda>_. vs)"
  by unfold_locales (simp_all add: flag_laws)

interpretation localRR_flag: list_flag "''localrr''" F_localRR "\<lambda>vs. F_localRR_update (\<lambda>_. vs)"
  by unfold_locales (simp_all add: flag_laws)

interpretation localRRPtr_flag: list_flag "''localrr-ptr''" F_localRRPtr "\<lambda>vs. F_localRRPtr_update (\<lambda>_. vs)"
  by unfold_locales (simp_all add: flag_laws)

interpretation localZone_flag: list_flag "''localzone''" F_localZone "\<lambda>vs. F_localZone_update (\<lambda>_. vs)"
  by unfold_locales (simp_all add: flag_laws)

interpretation acl_flag: list_flag "''acl''" F_acl "\<lambda>vs. F_acl_update (\<lambda>_. vs)"
  by unfold_locales (simp_all add: flag_laws)

interpretation doh_flag: list_flag "''doh''" F_doh "\<lambda>vs. F_doh_update (\<lambda>_. vs)"
  by unfold_locales (simp_all add: flag_laws)

lemmas parse_flags =
  dns64_flag.parse api_flag.parse refresh_flag.parse debug_flag.parse syslog_flag.parse discard_flag.parse
  config_flag.parse dns64Prefix_flag.parse apiBind_flag.parse dohCert_flag.parse dohKey_flag.parse dohPath_flag.parse refreshInterval_flag.parse setuid_flag.parse
  listen_flag.parse_list upstream_flag.parse_list block_flag.parse_list blockDelete_flag.parse_list blocklist_flag.parse_list blocklistAAAA_flag.parse_list blocklistHosts_flag.parse_list localRR_flag.parse_list localRRPtr_flag.parse_list localZone_flag.parse_list acl_flag.parse_list doh_flag.parse_list

text \<open>Options written as a command line.\<close>

definition args_of :: "UserConfig \<Rightarrow> string list" where
  "args_of uc =
     value_args ''listen'' (Listen uc) @
     value_args ''upstream'' (U_Upstream uc) @
     value_args ''block'' (Block uc) @
     value_args ''block-delete'' (BlockDelete uc) @
     value_args ''blocklist'' (U_Blocklist uc) @
     value_args ''blocklist-aaaa'' (BlocklistAAAA uc) @
     value_args ''blocklist-from-hosts'' (BlocklistFromHosts uc) @
     value_args ''localrr'' (LocalRR uc) @
     value_args ''localrr-ptr'' (LocalRRPtr uc) @
     value_args ''localzone'' (Localzone uc) @
     value_args ''acl'' (U_Acl uc) @
     value_args ''doh'' (U_Doh uc) @
     value_args ''dns64-prefix'' [U_Dns64Prefix uc] @
     value_args ''api-bind'' [U_ApiBind uc] @
     value_args ''doh-cert'' [U_DohCert uc] @
     value_args ''doh-key'' [U_DohKey uc] @
     value_args ''doh-path'' [U_DohPath uc] @
     value_args ''refresh-interval'' [U_RefreshInterval uc] @
     value_args ''setuid'' [U_Setuid uc] @
     bool_args ''dns64'' (U_Dns64 uc) @
     bool_args ''api'' (U_Api uc) @
     bool_args ''refresh'' (U_Refresh uc) @
     bool_args ''debug'' (U_Debug uc) @
     bool_args ''syslog'' (U_Syslog uc) @
     bool_args ''discard'' (U_Discard uc)"

definition flags_of :: "UserConfig \<Rightarrow> Flags" where
  "flags_of uc =
     \<lparr>F_help = False, F_config = '''', F_dns64 = U_Dns64 uc, F_dns64Prefix = U_Dns64Prefix uc, F_api = U_Api uc,
       F_apiBind = U_ApiBind uc, F_dohCert = U_DohCert uc, F_dohKey = U_DohKey uc, F_dohPath = U_DohPath uc,
       F_refresh = U_Refresh uc, F_refreshInterval = U_RefreshInterval uc, F_debug = U_Debug uc, F_syslog = U_Syslog uc,
       F_discard = U_Discard uc, F_setuid = U_Setuid uc, F_listen = Listen uc, F_upstream = U_Upstream uc, F_block = Block uc,
       F_blockDelete = BlockDelete uc, F_blocklist = U_Blocklist uc, F_blocklistAAAA = BlocklistAAAA uc,
       F_blocklistHosts = BlocklistFromHosts uc, F_localRR = LocalRR uc, F_localRRPtr = LocalRRPtr uc,
       F_localZone = Localzone uc, F_acl = U_Acl uc, F_doh = U_Doh uc\<rparr>"

lemma flag_Parse_args_of: "flag_Parse (args_of uc) default_flags = Inr (flags_of uc)"
proof -
  have "flag_Parse (args_of uc @ []) default_flags = Inr (flags_of uc)"
    unfolding args_of_def append_assoc
    by (simp only: parse_flags, simp only: default_flags_def Flags.simps, simp add: flag_Parse.simps(1) flags_of_def)
  then show ?thesis by simp
qed

lemma merge_flags_of: "merge_flags (flags_of uc) NewUserConfig = uc"
  by (rule UserConfig.equality) (simp_all add: merge_flags_def NewUserConfig_def flags_of_def)

lemma set_defaults_id: "Listen uc \<noteq> [] \<Longrightarrow> U_Upstream uc \<noteq> [] \<Longrightarrow> set_defaults uc = uc"
  by (simp add: set_defaults_def Let_def)

lemma GetUserConfig_args_of:
  assumes "Listen uc \<noteq> []" "U_Upstream uc \<noteq> []"
  shows "GetUserConfig E unmarshal (args_of uc) = OptOk uc"
proof -
  have "\<not> F_help (flags_of uc)" "F_config (flags_of uc) = ''''" by (simp_all add: flags_of_def)
  then show ?thesis by (simp add: GetUserConfig_def flag_Parse_args_of merge_flags_of set_defaults_id [OF assms])
qed

text \<open>
  Claim C21. The options are those given: any options with a listen address and an upstream, written as a command line,
  are read back exactly, whatever the values, a leading dash included. Given as a configuration file instead,
  they are read back exactly but for the user to change to, which is taken from the command line only; the documentation
  says that every flag can be specified in the file.
\<close>

theorem options_as_given:
  assumes "Listen uc \<noteq> []" "U_Upstream uc \<noteq> []"
  shows "GetUserConfig E unmarshal (args_of uc) = OptOk uc \<and>
    (path \<noteq> '''' \<and> UrlOpen E path = Inr r \<and> read_err r = None \<and> unmarshal (content r) NewUserConfig = Inr uc \<longrightarrow>
       GetUserConfig E unmarshal [''-config'', path] = OptOk (uc\<lparr>U_Setuid := ''''\<rparr>))"
proof -
  have "GetUserConfig E unmarshal (args_of uc) = OptOk uc" using assms by (rule GetUserConfig_args_of)
  moreover have "flag_Parse (value_args ''config'' [path] @ []) default_flags = Inr (default_flags\<lparr>F_config := path\<rparr>)"
    unfolding config_flag.parse by (simp add: flag_Parse.simps(1))
  then have "flag_Parse [''-config'', path] default_flags = Inr (default_flags\<lparr>F_config := path\<rparr>)" by (simp add: value_args_def)
  moreover have "merge_flags (default_flags\<lparr>F_config := path\<rparr>) uc = uc\<lparr>U_Setuid := ''''\<rparr>"
    by (simp add: merge_flags_def default_flags_def)
  ultimately show ?thesis
    using assms by (simp add: GetUserConfig_def set_defaults_id default_flags_def)
qed

theorem options_as_given_witness:
  "GetUserConfig sample_env (\<lambda>_ _. Inl '''')
      (args_of (NewUserConfig\<lparr>Listen := [''lo:53''], U_Upstream := [''192.0.2.53''], Block := [''-odd''], U_Setuid := ''nobody''\<rparr>)) =
    OptOk (NewUserConfig\<lparr>Listen := [''lo:53''], U_Upstream := [''192.0.2.53''], Block := [''-odd''], U_Setuid := ''nobody''\<rparr>)"
  using options_as_given [of "NewUserConfig\<lparr>Listen := [''lo:53''], U_Upstream := [''192.0.2.53''], Block := [''-odd''], U_Setuid := ''nobody''\<rparr>"
      sample_env "\<lambda>_ _. Inl ''''" "''''"] by simp

end
