(* ===== verification/Commands.thy ===== *)
theory Commands
  imports Resolver Util
begin

text \<open>
  The two further commands of the repository: \<^verbatim>\<open>cmd/pool\<close>, a client that queries over TLS with connections kept in a
  \<^verbatim>\<open>sync.Pool\<close>, and \<^verbatim>\<open>cmd/json-rpc\<close>, which sends one request to the API. The retry loop of the first need not
  end, so it is a partial function whose value is \<open>None\<close> when it does not return.
\<close>

section \<open>pool: connections in a pool\<close>

record DnsConnPool =
  PC_Client :: string
  PC_Conn :: "nat option"
  PC_Error :: "go_err option"

text \<open>
  Which item \<^verbatim>\<open>Get\<close> selects is not specified, and it may treat the pool as empty: \<open>pick\<close> gives the position of the item for
  the number of items there are, or none. A connection is a number, nil is \<open>None\<close>. An exchange gives the message, the round
  trip time and the error, as the named results of the source.
\<close>

type_synonym exch_res = "Msg option \<times> int \<times> go_err option"

record 'w poolops =
  pick :: "'w \<Rightarrow> nat \<Rightarrow> nat option \<times> 'w"
  pdial :: "'w \<Rightarrow> string \<Rightarrow> (go_err + nat) \<times> 'w"
  pexchange :: "'w \<Rightarrow> Msg \<Rightarrow> nat \<Rightarrow> exch_res \<times> 'w"
  pclose :: "'w \<Rightarrow> nat \<Rightarrow> 'w"

definition pool_New :: "'w poolops \<Rightarrow> 'w \<Rightarrow> DnsConnPool \<times> 'w" where
  "pool_New N w =
     (case pdial N w ''1.1.1.1:853'' of
        (Inl err, w) \<Rightarrow> (\<lparr>PC_Client = ''tcp-tls'', PC_Conn = None, PC_Error = Some err\<rparr>, w)
      | (Inr conn, w) \<Rightarrow> (\<lparr>PC_Client = ''tcp-tls'', PC_Conn = Some conn, PC_Error = None\<rparr>, w))"

definition pool_Get :: "'w poolops \<Rightarrow> DnsConnPool list \<Rightarrow> 'w \<Rightarrow> DnsConnPool \<times> DnsConnPool list \<times> 'w" where
  "pool_Get N items w =
     (case pick N w (length items) of
        (Some i, w) \<Rightarrow>
          if i < length items then (items ! i, take i items @ drop (Suc i) items, w)
          else (let (c, w) = pool_New N w in (c, items, w))
      | (None, w) \<Rightarrow> (let (c, w) = pool_New N w in (c, items, w)))"

abbreviation retryLimit :: nat where "retryLimit \<equiv> 3"

text \<open>
  \<open>res\<close> are the named results as the last exchange left them, \<open>out\<close> the lines printed. A nil connection without an error would
  be dereferenced.
\<close>

partial_function (option) dotQuery_loop :: "'w poolops \<Rightarrow> Msg \<Rightarrow> nat \<Rightarrow> exch_res \<Rightarrow> string list \<Rightarrow> DnsConnPool list \<Rightarrow> 'w \<Rightarrow>
    (exch_res \<times> string list \<times> DnsConnPool list \<times> 'w) go option" where
  "dotQuery_loop N q retries res out items w =
     (if retries < retryLimit then
        (case pool_Get N items w of (c, items, w) \<Rightarrow>
          (case PC_Error c of
             Some _ \<Rightarrow> dotQuery_loop N q retries res out items w
           | None \<Rightarrow>
               (case PC_Conn c of
                  None \<Rightarrow> Some (Inl NilDereference)
                | Some conn \<Rightarrow>
                    (case pexchange N w q conn of (res, w) \<Rightarrow>
                      (case snd (snd res) of
                         None \<Rightarrow> Some (Inr (res, out, items @ [c], w))
                       | Some err \<Rightarrow>
                           if errors_Is err ErrClosed then
                             dotQuery_loop N q (retries + 1) res (out @ [Err_Error err]) items w
                           else Some (Inr (res, out, items, w)))))))
      else Some (Inr (res, out, items, w)))"

declare dotQuery_loop.simps [code]

definition dotQuery :: "'w poolops \<Rightarrow> Msg \<Rightarrow> DnsConnPool list \<Rightarrow> 'w \<Rightarrow> (exch_res \<times> string list \<times> DnsConnPool list \<times> 'w) go option" where
  "dotQuery N q items w = dotQuery_loop N q 0 (None, 0, None) [] items w"

text \<open>\<^verbatim>\<open>CreateQuery\<close> of the test helpers, which the command uses.\<close>

definition CreateQuery :: "dns_lib \<Rightarrow> string \<Rightarrow> string \<Rightarrow> Msg" where
  "CreateQuery D qname qtype = SetQuestion D newMsg (Fqdn D qname) (StringToType0 D qtype)"

text \<open>One round of the command: in rounds 0 and 3 a connection of the pool is closed behind its back.\<close>

definition pool_round :: "'w poolops \<Rightarrow> (int \<Rightarrow> string) \<Rightarrow> Msg \<Rightarrow> nat \<Rightarrow> string list \<times> DnsConnPool list \<times> 'w \<Rightarrow>
    (string list \<times> DnsConnPool list \<times> 'w) go option" where
  "pool_round N fmt_dur q i s =
     (case s of (out, items, w) \<Rightarrow>
      case (if i = 3 \<or> i = 0 then
              (case pool_Get N items w of (c, items, w) \<Rightarrow>
                 (case PC_Conn c of
                    None \<Rightarrow> Inl NilDereference
                  | Some conn \<Rightarrow> Inr (items @ [c], pclose N w conn)))
            else Inr (items, w)) of
        Inl p \<Rightarrow> Some (Inl p)
      | Inr (items, w) \<Rightarrow>
          map_option (map_sum id (\<lambda>((r, rtt, err), lines, items, w).
            (out @ lines @ [fmt_d i @ '' '' @ (case err of Some err \<Rightarrow> Err_Error err | None \<Rightarrow> fmt_dur rtt)], items, w)))
            (dotQuery N q items w))"

fun pool_rounds :: "'w poolops \<Rightarrow> (int \<Rightarrow> string) \<Rightarrow> Msg \<Rightarrow> nat list \<Rightarrow> string list \<times> DnsConnPool list \<times> 'w \<Rightarrow>
    (string list \<times> DnsConnPool list \<times> 'w) go option" where
  "pool_rounds N fmt_dur q [] s = Some (Inr s)"
| "pool_rounds N fmt_dur q (i # is) s =
     (case pool_round N fmt_dur q i s of
        None \<Rightarrow> None
      | Some (Inl p) \<Rightarrow> Some (Inl p)
      | Some (Inr s) \<Rightarrow> pool_rounds N fmt_dur q is s)"

definition pool_main :: "dns_lib \<Rightarrow> 'w poolops \<Rightarrow> (int \<Rightarrow> string) \<Rightarrow> 'w \<Rightarrow> (string list \<times> DnsConnPool list \<times> 'w) go option" where
  "pool_main D N fmt_dur w = pool_rounds N fmt_dur (CreateQuery D ''www.google.com'' ''A'') [0..<5] ([], [], w)"

section \<open>pool: when a query returns\<close>

definition dialled :: "DnsConnPool \<Rightarrow> bool" where
  "dialled c \<longleftrightarrow> PC_Error c = None \<and> PC_Conn c \<noteq> None"

lemma pool_Get_cases:
  assumes "pool_Get N items w = (c, items', w')"
  shows "set items' \<subseteq> set items \<and> (c \<in> set items \<or> (\<exists>w1. pool_New N w1 = (c, w')))"
  using assms by (auto simp: pool_Get_def split: prod.splits option.splits if_splits dest: in_set_takeD in_set_dropD)

lemma pool_Get_dialled:
  assumes dial: "\<And>w a. \<exists>conn w'. pdial N w a = (Inr conn, w')" and items: "\<forall>c \<in> set items. dialled c"
    and get: "pool_Get N items w = (c, items', w')"
  shows "dialled c" "\<forall>c \<in> set items'. dialled c"
proof -
  have new: "dialled (fst (pool_New N w))" for w
    using dial [of w "''1.1.1.1:853''"] by (auto simp: pool_New_def dialled_def)
  show "dialled c" using pool_Get_cases [OF get] items new by (metis fst_conv)
  show "\<forall>c \<in> set items'. dialled c" using pool_Get_cases [OF get] items by blast
qed

lemma pool_Get_failed:
  assumes dial: "\<And>w a. \<exists>err w'. pdial N w a = (Inl err, w')" and items: "\<forall>c \<in> set items. PC_Error c \<noteq> None"
    and get: "pool_Get N items w = (c, items', w')"
  shows "PC_Error c \<noteq> None" "\<forall>c \<in> set items'. PC_Error c \<noteq> None"
proof -
  have new: "PC_Error (fst (pool_New N w)) \<noteq> None" for w
    using dial [of w "''1.1.1.1:853''"] by (auto simp: pool_New_def)
  show "PC_Error c \<noteq> None" using pool_Get_cases [OF get] items new by (metis fst_conv)
  show "\<forall>c \<in> set items'. PC_Error c \<noteq> None" using pool_Get_cases [OF get] items by blast
qed

definition query_ended :: "nat \<Rightarrow> exch_res \<Rightarrow> bool" where
  "query_ended n res \<longleftrightarrow> (case snd (snd res) of None \<Rightarrow> n < retryLimit | Some err \<Rightarrow> if errors_Is err ErrClosed then n = retryLimit else n < retryLimit)"

lemma dotQuery_loop_returns:
  assumes dial: "\<And>w a. \<exists>conn w'. pdial N w a = (Inr conn, w')"
  shows "retries \<le> retryLimit \<Longrightarrow> \<forall>c \<in> set items. dialled c \<Longrightarrow> length out = retries \<Longrightarrow>
    (retries = retryLimit \<Longrightarrow> query_ended retries res) \<Longrightarrow>
    \<exists>res' out' items' w'. dotQuery_loop N q retries res out items w = Some (Inr (res', out', items', w')) \<and>
      query_ended (length out') res' \<and> (\<forall>c \<in> set items'. dialled c)"
proof (induction "retryLimit - retries" arbitrary: retries res out items w)
  case 0
  then show ?case by (subst dotQuery_loop.simps) simp
next
  case (Suc n)
  obtain c items1 w1 where get: "pool_Get N items w = (c, items1, w1)" by (metis prod_cases3)
  note ok = pool_Get_dialled [OF dial Suc.prems(2) get]
  obtain conn where conn: "PC_Error c = None" "PC_Conn c = Some conn" using ok(1) by (auto simp: dialled_def)
  obtain res1 w2 where ex: "pexchange N w1 q conn = (res1, w2)" by (cases "pexchange N w1 q conn")
  have lim: "retries < retryLimit" using Suc.hyps(2) by simp
  show ?case
  proof (cases "\<exists>err. snd (snd res1) = Some err \<and> errors_Is err ErrClosed")
    case True
    then obtain err where err: "snd (snd res1) = Some err" "errors_Is err ErrClosed" by blast
    have "dotQuery_loop N q retries res out items w = dotQuery_loop N q (retries + 1) res1 (out @ [Err_Error err]) items1 w2"
      by (subst dotQuery_loop.simps) (simp add: lim get conn ex err)
    then show ?thesis using Suc.hyps(1) [of "retries + 1" items1 "out @ [Err_Error err]" res1 w2] Suc.hyps(2) Suc.prems ok(2) err
      by (simp add: query_ended_def)
  next
    case False
    then have "\<exists>items'. dotQuery_loop N q retries res out items w = Some (Inr (res1, out, items', w2)) \<and> (\<forall>c \<in> set items'. dialled c)"
      using lim ok by (subst dotQuery_loop.simps) (auto simp: get conn ex split: option.splits)
    moreover have "query_ended (length out) res1" using False lim Suc.prems(3) by (auto simp: query_ended_def split: option.splits)
    ultimately show ?thesis by blast
  qed
qed

lemma dotQuery_loop_stuck:
  assumes "dotQuery_loop N q retries res out items w = Some y"
    and "\<And>w a. \<exists>err w'. pdial N w a = (Inl err, w')" "\<forall>c \<in> set items. PC_Error c \<noteq> None"
  shows "\<not> retries < retryLimit"
  using assms(2,3)
proof (induction rule: dotQuery_loop.raw_induct [OF _ assms(1)])
  case (1 loop N q retries res out items w y)
  show ?case
  proof
    assume lim: "retries < retryLimit"
    obtain c items1 w1 where get: "pool_Get N items w = (c, items1, w1)" by (metis prod_cases3)
    note fail = pool_Get_failed [OF "1.prems"(1) "1.prems"(2) get]
    from "1.hyps" fail(1) lim have "loop N q retries res out items1 w1 = Some y" by (auto simp: get)
    from "1.IH" [OF this "1.prems"(1) fail(2)] lim show False by simp
  qed
qed

text \<open>
  Claim C27. When a query of the pool returns: if connections can be dialled, \<^verbatim>\<open>dotQuery\<close> returns, after at most three
  connections that were found closed, with a message, an error other than a closed connection, or the third such
  error, and every connection it leaves in the pool is a dialled one. If dialling fails and the pool holds no
  connection, it never returns: the failed attempts are not counted.
\<close>

theorem dotQuery_returns_iff_dialled:
  "((\<forall>w a. \<exists>conn w'. pdial N w a = (Inr conn, w')) \<and> (\<forall>c \<in> set items. dialled c) \<longrightarrow>
      (\<exists>res out items' w'. dotQuery N q items w = Some (Inr (res, out, items', w')) \<and> (\<forall>c \<in> set items'. dialled c) \<and>
         (case snd (snd res) of
            None \<Rightarrow> length out < 3
          | Some err \<Rightarrow> if errors_Is err ErrClosed then length out = 3 else length out < 3))) \<and>
   ((\<forall>w a. \<exists>err w'. pdial N w a = (Inl err, w')) \<and> (\<forall>c \<in> set items. PC_Error c \<noteq> None) \<longrightarrow> dotQuery N q items w = None)"
proof (intro conjI impI; elim conjE)
  assume "\<forall>w a. \<exists>conn w'. pdial N w a = (Inr conn, w')" and items: "\<forall>c \<in> set items. dialled c"
  then have dial: "\<And>w a. \<exists>conn w'. pdial N w a = (Inr conn, w')" by blast
  show "\<exists>res out items' w'. dotQuery N q items w = Some (Inr (res, out, items', w')) \<and> (\<forall>c \<in> set items'. dialled c) \<and>
         (case snd (snd res) of
            None \<Rightarrow> length out < 3
          | Some err \<Rightarrow> if errors_Is err ErrClosed then length out = 3 else length out < 3)"
    using dotQuery_loop_returns [OF dial, of 0 items "[]" "(None, 0, None)" q w, OF _ items] unfolding dotQuery_def query_ended_def by fastforce
next
  assume "\<forall>w a. \<exists>err w'. pdial N w a = (Inl err, w')" and items: "\<forall>c \<in> set items. PC_Error c \<noteq> None"
  then have dial: "\<And>w a. \<exists>err w'. pdial N w a = (Inl err, w')" by blast
  show "dotQuery N q items w = None"
    using dotQuery_loop_stuck [OF _ dial items, of q 0 "(None, 0, None)" "[]" w] by (cases "dotQuery N q items w") (auto simp: dotQuery_def)
qed

definition sample_pool :: "(go_err + nat) \<Rightarrow> nat poolops" where
  "sample_pool d = \<lparr>pick = \<lambda>w n. (if n = 0 then None else Some 0, w), pdial = \<lambda>w a. (d, w),
     pexchange = \<lambda>w q c. (if w = 0 then (None, 0, Some ErrClosed) else (Some q, 7, None), w + 1), pclose = \<lambda>w c. w\<rparr>"

theorem dotQuery_returns_iff_dialled_witness:
  "(\<exists>res out items' w'. dotQuery (sample_pool (Inr 4)) newMsg [] 0 = Some (Inr (res, out, items', w'))) \<and>
   dotQuery (sample_pool (Inl EOF)) newMsg [] 0 = None"
proof -
  have "\<forall>w a. \<exists>conn w'. pdial (sample_pool (Inr 4)) w a = (Inr conn, w')"
    "\<forall>w a. \<exists>err w'. pdial (sample_pool (Inl EOF)) w a = (Inl err, w')" by (simp_all add: sample_pool_def)
  then show ?thesis
    using dotQuery_returns_iff_dialled [of "sample_pool (Inr 4)" "[]" newMsg 0] dotQuery_returns_iff_dialled [of "sample_pool (Inl EOF)" "[]" newMsg 0]
    by auto
qed

section \<open>json-rpc\<close>

text \<open>
  The flags as \<^verbatim>\<open>flag.Parse\<close> leaves them. The environment: the contents of the standard input, or the error of reading
  it, unless it is a terminal; \<^verbatim>\<open>json.Valid\<close>, \<^verbatim>\<open>json.Marshal\<close> of the request and the reindentation of a JSON text
  (none when it does not parse); the HTTP exchange with status code, status line and body; a random number; the text of
  \<^verbatim>\<open>flag.PrintDefaults\<close>.
\<close>

record rpc_flags =
  RF_url :: string
  RF_method :: string
  RF_params :: string
  RF_id :: int
  RF_pretty :: bool
  RF_debug :: bool

record rpcRequest =
  RQ_JsonRpc :: string
  RQ_Id :: int
  RQ_Method :: string
  RQ_Params :: string

record rpc_env =
  RE_Stdin :: "(string + string) option"
  RE_Valid :: "string \<Rightarrow> bool"
  RE_Marshal :: "rpcRequest \<Rightarrow> string + string"
  RE_Post :: "string \<Rightarrow> string \<Rightarrow> string \<Rightarrow> string + int \<times> string \<times> (string + string)"
  RE_Reindent :: "string \<Rightarrow> string option"
  RE_Int31 :: int
  RE_Defaults :: string

text \<open>How the command ends: its exit code and what it has written.\<close>

record rpc_run =
  ExitCode :: int
  Stdout :: string
  Stderr_text :: string

definition debugf :: "bool \<Rightarrow> string \<Rightarrow> string \<Rightarrow> string" where
  "debugf debug line err = (if debug then err @ line @ [newline] else err)"

definition fatalf :: "string \<Rightarrow> string \<Rightarrow> rpc_run" where
  "fatalf err msg = \<lparr>ExitCode = 1, Stdout = '''', Stderr_text = err @ ''error: '' @ msg @ [newline]\<rparr>"

definition rpc_usage :: "rpc_env \<Rightarrow> string" where
  "rpc_usage E =
     ''Usage: json-rpc --url URL --method METHOD [--params JSON] [--id N] [--pretty] [--debug]'' @ [newline, newline] @
     ''Params may be supplied via --params or piped to stdin.'' @ [newline, newline] @ RE_Defaults E"

text \<open>The flag takes precedence, then the standard input, then the empty object.\<close>

definition rpc_params :: "rpc_flags \<Rightarrow> rpc_env \<Rightarrow> string + string" where
  "rpc_params fl E =
     and_then
       (if RF_params fl \<noteq> '''' then Inr (RF_params fl)
        else (case RE_Stdin E of
                None \<Rightarrow> Inr ''''
              | Some (Inl err) \<Rightarrow> Inl (''reading stdin: '' @ err)
              | Some (Inr b) \<Rightarrow> Inr (TrimSpace b)))
       (\<lambda>rawParams.
          let rawParams = (if length rawParams = 0 then ''{}'' else rawParams)
          in if \<not> RE_Valid E rawParams then Inl ''params is not valid JSON'' else Inr rawParams)"

definition rpc_output :: "rpc_flags \<Rightarrow> rpc_env \<Rightarrow> string \<Rightarrow> string" where
  "rpc_output fl E respBody =
     (if RF_pretty fl then (case RE_Reindent E respBody of Some out \<Rightarrow> out | None \<Rightarrow> respBody) else respBody) @ [newline]"

definition json_rpc_main :: "rpc_flags \<Rightarrow> rpc_env \<Rightarrow> rpc_run" where
  "json_rpc_main fl E =
     (if RF_url fl = '''' then
        \<lparr>ExitCode = 1, Stdout = '''', Stderr_text = ''error: --url is required'' @ [newline] @ rpc_usage E\<rparr>
      else if RF_method fl = '''' then
        \<lparr>ExitCode = 1, Stdout = '''', Stderr_text = ''error: --method is required'' @ [newline] @ rpc_usage E\<rparr>
      else case rpc_params fl E of
        Inl msg \<Rightarrow> fatalf '''' msg
      | Inr rawParams \<Rightarrow>
          let reqID = (if RF_id fl = 0 then RE_Int31 E else RF_id fl)
          in case RE_Marshal E \<lparr>RQ_JsonRpc = ''2.0'', RQ_Id = reqID, RQ_Method = RF_method fl, RQ_Params = rawParams\<rparr> of
               Inl err \<Rightarrow> fatalf '''' (''encoding request: '' @ err)
             | Inr reqBody \<Rightarrow>
                 let err = debugf (RF_debug fl) (''Request: '' @ reqBody) (debugf (RF_debug fl) (''POST '' @ RF_url fl) '''')
                 in case RE_Post E (RF_url fl) ''application/json'' reqBody of
                      Inl e \<Rightarrow> fatalf err e
                    | Inr (code, status, body) \<Rightarrow>
                        let err = debugf (RF_debug fl) (''HTTP '' @ status) err
                        in case body of
                             Inl e \<Rightarrow> fatalf err (''reading response: '' @ e)
                           | Inr respBody \<Rightarrow>
                               let err = debugf (RF_debug fl) (''Response: '' @ respBody) err
                               in if code \<noteq> 200 then
                                    \<lparr>ExitCode = 2, Stdout = respBody @ [newline], Stderr_text = err @ ''error: HTTP '' @ status @ [newline]\<rparr>
                                  else \<lparr>ExitCode = 0, Stdout = rpc_output fl E respBody, Stderr_text = err\<rparr>)"

text \<open>
  The command succeeds exactly when the server answered the request with status 200, and then it writes the body (reindented
  when it is asked to and the body is JSON); with any other status it writes the body and exits with 2; nothing is
  written to the standard output when there is no body.
\<close>

lemma json_rpc_main_outcomes:
  "ExitCode (json_rpc_main fl E) = 0 \<longleftrightarrow>
     RF_url fl \<noteq> '''' \<and> RF_method fl \<noteq> '''' \<and>
     (\<exists>p b status body. rpc_params fl E = Inr p \<and>
        RE_Marshal E \<lparr>RQ_JsonRpc = ''2.0'', RQ_Id = if RF_id fl = 0 then RE_Int31 E else RF_id fl, RQ_Method = RF_method fl, RQ_Params = p\<rparr> = Inr b \<and>
        RE_Post E (RF_url fl) ''application/json'' b = Inr (200, status, Inr body) \<and> Stdout (json_rpc_main fl E) = rpc_output fl E body)"
  "ExitCode (json_rpc_main fl E) = 1 \<Longrightarrow> Stdout (json_rpc_main fl E) = ''''"
  "ExitCode (json_rpc_main fl E) \<in> {0, 1, 2}"
  by (auto simp: json_rpc_main_def fatalf_def Let_def split: sum.splits if_splits)

text \<open>Without the debug flag nothing is written to the standard error on success.\<close>

lemma json_rpc_main_quiet:
  "ExitCode (json_rpc_main fl E) = 0 \<Longrightarrow> \<not> RF_debug fl \<Longrightarrow> Stderr_text (json_rpc_main fl E) = ''''"
  by (auto simp: json_rpc_main_def fatalf_def debugf_def Let_def split: sum.splits if_splits)

section \<open>testutil.go: the helpers of the tests\<close>

text \<open>
  How a check ends: it passes, it ends the test (\<^verbatim>\<open>t.Fatal\<close>) or it marks it as failed (\<^verbatim>\<open>t.Error\<close>). The printing of a
  question and the table of response codes are arguments. A nil message is \<open>None\<close>.
\<close>

datatype verdict = Passed | TestFatal string | TestError string

fun answers_match :: "RR list \<Rightarrow> string \<Rightarrow> bool" where
  "answers_match [] expected = False"
| "answers_match (a # as) expected =
     (case Data a of
        RA ip \<Rightarrow> if IP_String ip = expected then True else answers_match as expected
      | RAAAA ip \<Rightarrow> if IP_String ip = expected then True else answers_match as expected
      | RPTR name \<Rightarrow> if name = expected then True else answers_match as expected
      | ROther _ \<Rightarrow> True)"

definition CheckResponse :: "Msg option \<Rightarrow> string \<Rightarrow> verdict" where
  "CheckResponse msg expected =
     (case msg of
        None \<Rightarrow> TestFatal ''Invalid DNS Response (Nil)''
      | Some msg \<Rightarrow>
          if length (Answer msg) = 0 then
            if Rcode msg = RcodeServerFailure then TestFatal ''Upstream error (SRVFAIL) - check network?''
            else TestFatal ''Invalid DNS Response - No Answer RRs''
          else if answers_match (Answer msg) expected then Passed
          else TestError (''Response not found:  '' @ expected))"

definition first_question :: "(Question \<Rightarrow> string) \<Rightarrow> Msg \<Rightarrow> string go" where
  "first_question fmt_q q = (case MQuestion q of [] \<Rightarrow> Inl IndexOutOfRange | qu # _ \<Rightarrow> Inr (fmt_q qu))"

definition CheckResponseEmpty :: "(Question \<Rightarrow> string) \<Rightarrow> (int \<Rightarrow> string) \<Rightarrow> Msg \<Rightarrow> Msg option \<Rightarrow> verdict go" where
  "CheckResponseEmpty fmt_q RcodeToString q msg =
     (case msg of
        None \<Rightarrow> Inr (TestFatal ''Invalid DNS Response (Nil)'')
      | Some msg \<Rightarrow>
          if Rcode msg = RcodeSuccess then
            Inr (if length (Answer msg) \<noteq> 0 then TestFatal ''Expected no answer records'' else Passed)
          else if Rcode msg = RcodeServerFailure then Inr (TestFatal ''Upstream error (SRVFAIL) - check network?'')
          else map_sum id (\<lambda>qu. TestFatal (''Invalid response '' @ qu @ '' '' @ RcodeToString (Rcode msg))) (first_question fmt_q q))"

definition CheckResponseNxdomain :: "(Question \<Rightarrow> string) \<Rightarrow> (int \<Rightarrow> string) \<Rightarrow> Msg \<Rightarrow> Msg option \<Rightarrow> verdict go" where
  "CheckResponseNxdomain fmt_q RcodeToString q msg =
     (case msg of
        None \<Rightarrow> Inr (TestFatal ''Invalid DNS Response (Nil)'')
      | Some msg \<Rightarrow>
          if Rcode msg = RcodeNameError then Inr Passed
          else if Rcode msg = RcodeServerFailure then Inr (TestFatal ''Upstream error (SRVFAIL) - check network?'')
          else map_sum id (\<lambda>qu. TestFatal (''Invalid Rcode (expected NXDOMAIN) '' @ qu @ '' '' @ RcodeToString (Rcode msg))) (first_question fmt_q q))"

definition IsGH :: "(string \<Rightarrow> string option) \<Rightarrow> bool" where
  "IsGH LookupEnv \<longleftrightarrow> LookupEnv ''GITHUB_ACTIONS'' \<noteq> None"

definition HasInterface :: "sysenv \<Rightarrow> string \<Rightarrow> bool" where
  "HasInterface E name \<longleftrightarrow> InterfaceByName E name \<noteq> None"

text \<open>
  What a check of a response tells: an answer has the expected address or name, or the answers contain a record of another type, such as the
  alias that comes before the addresses it leads to, which is accepted whatever was expected.
\<close>

lemma CheckResponse_passes:
  "CheckResponse msg expected = Passed \<longleftrightarrow>
     (\<exists>m. msg = Some m \<and> (\<exists>a \<in> set (Answer m). case Data a of
        RA ip \<Rightarrow> IP_String ip = expected | RAAAA ip \<Rightarrow> IP_String ip = expected | RPTR name \<Rightarrow> name = expected | ROther _ \<Rightarrow> True))"
proof -
  have "answers_match as expected \<longleftrightarrow> (\<exists>a \<in> set as. case Data a of
        RA ip \<Rightarrow> IP_String ip = expected | RAAAA ip \<Rightarrow> IP_String ip = expected | RPTR name \<Rightarrow> name = expected | ROther _ \<Rightarrow> True)" for as
    by (induction as) (auto split: RData.splits)
  then show ?thesis by (cases msg) (auto simp: CheckResponse_def)
qed

text \<open>A response that passes as empty passes neither of the other checks.\<close>

lemma checks_exclusive:
  assumes "CheckResponseEmpty fmt_q table q msg = Inr Passed"
  shows "CheckResponseNxdomain fmt_q table q msg \<noteq> Inr Passed" "CheckResponse msg expected \<noteq> Passed"
  using assms
  by (auto simp: CheckResponseEmpty_def CheckResponseNxdomain_def CheckResponse_def map_sum_Inr RcodeSuccess_def RcodeNameError_def RcodeServerFailure_def
      split: option.splits if_splits)

end
