(* ===== verification/Concurrency.thy ===== *)
theory Concurrency
  imports Proxy
begin

text \<open>
  The server runs the handler of each query in a goroutine of its own, and \<^verbatim>\<open>resolve\<close> of \<^verbatim>\<open>proxy.go\<close> is where they
  meet: it looks into the shared cache, copies the shared list of upstreams under its lock, asks the upstreams of the copy without a
  lock, and takes locks again to clear or count errors, to demote the first upstream and to store the answer. Theory
  \<open>Proxy\<close> has the function run alone; here any number of its runs are interleaved at the grain of the locked sections.

  A state holds the shared parts and, for each goroutine, where it stands (\<open>pc\<close>). An event is one locked section or one
  exchange with an upstream, whose outcome the event carries, so that nothing is assumed about the upstreams; an upstream
  is only a name here, the pointer of the source. The clock does not go back. Other goroutines flush the cache,
  remove entries and add local records in between.
\<close>

section \<open>Goroutines\<close>

datatype 'u pc =
    AtGet
  | AtSnapshot
  | AtResolve "'u list" nat
  | AtClear Msg
  | AtCount "'u list"
  | AtStamp Msg
  | AtStore Msg int
  | Returned "string + Msg" bool
  | Panicked go_panic

record 'u conc =
  c_Upstream :: "'u list"
  c_UpstreamErr :: int
  c_Cache :: DNSCache
  c_now :: int
  c_threads :: "nat \<Rightarrow> (Msg \<times> 'u pc) option"

definition conc_start :: "'u list \<Rightarrow> int \<Rightarrow> DNSCache \<Rightarrow> int \<Rightarrow> 'u conc" where
  "conc_start ups err c now = \<lparr>c_Upstream = ups, c_UpstreamErr = err, c_Cache = c, c_now = now, c_threads = \<lambda>_. None\<rparr>"

datatype 'u event =
    E_Begin nat Msg
  | E_Get nat int int
  | E_Snapshot nat
  | E_Resolve nat 'u "go_err + Msg"
  | E_Clear nat
  | E_Count nat
  | E_Stamp nat int
  | E_Store nat
  | E_Flush int
  | E_Delete DNSCacheKey
  | E_AddRR "RR option" bool int int

definition goto :: "nat \<Rightarrow> Msg \<Rightarrow> 'u pc \<Rightarrow> 'u conc \<Rightarrow> 'u conc" where
  "goto t q p s = s\<lparr>c_threads := (c_threads s)(t \<mapsto> (q, p))\<rparr>"

text \<open>The head of the loop over the copied list.\<close>

definition next_upstream :: "'u list \<Rightarrow> nat \<Rightarrow> 'u pc" where
  "next_upstream ups i = (if i < length ups then AtResolve ups i else Returned (Inl all_failed) False)"

text \<open>The locked section that counts an error and demotes the first upstream.\<close>

definition conc_count :: "'u conc \<Rightarrow> 'u conc" where
  "conc_count s =
     (let s = s\<lparr>c_UpstreamErr := c_UpstreamErr s + 1\<rparr>
      in if c_UpstreamErr s > 3 then s\<lparr>c_Upstream := drop 1 (c_Upstream s) @ take 1 (c_Upstream s), c_UpstreamErr := 0\<rparr>
         else s)"

fun conc_step :: "dns_lib \<Rightarrow> 'u event \<Rightarrow> 'u conc \<Rightarrow> 'u conc option" where
  "conc_step D (E_Begin t q) s = (case c_threads s t of None \<Rightarrow> Some (goto t q AtGet s) | Some _ \<Rightarrow> None)"
| "conc_step D (E_Get t n1 n2) s =
     (case c_threads s t of
        Some (q, AtGet) \<Rightarrow>
          if c_now s \<le> n1 \<and> n1 \<le> n2 then
            Some (case Cache_Get D (c_Cache s) q n1 n2 of
                    Inl p \<Rightarrow> goto t q (Panicked p) (s\<lparr>c_now := n2\<rparr>)
                  | Inr (c, Some out) \<Rightarrow> goto t q (Returned (Inr out) True) (s\<lparr>c_Cache := c, c_now := n2\<rparr>)
                  | Inr (c, None) \<Rightarrow> goto t q AtSnapshot (s\<lparr>c_Cache := c, c_now := n2\<rparr>))
          else None
      | _ \<Rightarrow> None)"
| "conc_step D (E_Snapshot t) s =
     (case c_threads s t of
        Some (q, AtSnapshot) \<Rightarrow> Some (goto t q (next_upstream (c_Upstream s) 0) s)
      | _ \<Rightarrow> None)"
| "conc_step D (E_Resolve t u res) s =
     (case c_threads s t of
        Some (q, AtResolve ups i) \<Rightarrow>
          if ups ! i = u then
            Some (goto t q (case res of
                              Inr out \<Rightarrow> if i = 0 then AtClear out else AtStamp out
                            | Inl err \<Rightarrow> if i = 0 then AtCount ups else next_upstream ups (Suc i)) s)
          else None
      | _ \<Rightarrow> None)"
| "conc_step D (E_Clear t) s =
     (case c_threads s t of
        Some (q, AtClear out) \<Rightarrow> Some (goto t q (AtStamp out) (s\<lparr>c_UpstreamErr := 0\<rparr>))
      | _ \<Rightarrow> None)"
| "conc_step D (E_Count t) s =
     (case c_threads s t of
        Some (q, AtCount ups) \<Rightarrow> Some (goto t q (next_upstream ups 1) (conc_count s))
      | _ \<Rightarrow> None)"
| "conc_step D (E_Stamp t n) s =
     (case c_threads s t of
        Some (q, AtStamp out) \<Rightarrow> if c_now s \<le> n then Some (goto t q (AtStore out n) (s\<lparr>c_now := n\<rparr>)) else None
      | _ \<Rightarrow> None)"
| "conc_step D (E_Store t) s =
     (case c_threads s t of
        Some (q, AtStore out n) \<Rightarrow>
          Some (case Cache_Add D (c_Cache s) out n of
                  Inl p \<Rightarrow> goto t q (Panicked p) s
                | Inr c \<Rightarrow> goto t q (Returned (Inr out) False) (s\<lparr>c_Cache := c\<rparr>))
      | _ \<Rightarrow> None)"
| "conc_step D (E_Flush n) s = (if c_now s \<le> n then Some (s\<lparr>c_Cache := snd (snd (Flush (c_Cache s) n)), c_now := n\<rparr>) else None)"
| "conc_step D (E_Delete k) s = Some (s\<lparr>c_Cache := cache_del (c_Cache s) k\<rparr>)"
| "conc_step D (E_AddRR rr permanent n1 n2) s =
     (if c_now s \<le> n1 \<and> n1 \<le> n2 then Some (s\<lparr>c_Cache := AddRR D (c_Cache s) rr permanent n1 n2, c_now := n2\<rparr>) else None)"

fun conc_run :: "dns_lib \<Rightarrow> 'u event list \<Rightarrow> 'u conc \<Rightarrow> 'u conc option" where
  "conc_run D [] s = Some s"
| "conc_run D (e # es) s = (case conc_step D e s of None \<Rightarrow> None | Some s \<Rightarrow> conc_run D es s)"

text \<open>What a goroutine has asked, and how it was answered.\<close>

fun asks :: "nat \<Rightarrow> 'u event list \<Rightarrow> ('u \<times> (go_err + Msg)) list" where
  "asks t [] = []"
| "asks t (E_Resolve t' u res # es) = (if t' = t then [(u, res)] else []) @ asks t es"
| "asks t (_ # es) = asks t es"

section \<open>What a goroutine knows of itself\<close>

text \<open>
  The requests of a goroutine are a part of a rotation of the configured list, from its start, and all but the last one
  failed; where it stands says how the last one ended. \<open>names\<close> is the configured list.
\<close>

definition rotation_of :: "'u list \<Rightarrow> 'u list \<Rightarrow> bool" where
  "rotation_of names us \<longleftrightarrow> (\<exists>k. us = rotate k names)"

definition failed_on :: "'u list \<Rightarrow> ('u \<times> (go_err + Msg)) list \<Rightarrow> bool" where
  "failed_on us as \<longleftrightarrow> map fst as = us \<and> (\<forall>(u, res) \<in> set as. \<exists>err. res = Inl err)"

definition answered_by :: "'u list \<Rightarrow> nat \<Rightarrow> Msg \<Rightarrow> ('u \<times> (go_err + Msg)) list \<Rightarrow> bool" where
  "answered_by ups i out as \<longleftrightarrow> i < length ups \<and> (\<exists>as'. failed_on (take i ups) as' \<and> as = as' @ [(ups ! i, Inr out)])"

fun pc_ok :: "'u list \<Rightarrow> int \<Rightarrow> ('u \<times> (go_err + Msg)) list \<Rightarrow> 'u pc \<Rightarrow> bool" where
  "pc_ok names now as AtGet \<longleftrightarrow> as = []"
| "pc_ok names now as AtSnapshot \<longleftrightarrow> as = []"
| "pc_ok names now as (AtResolve ups i) \<longleftrightarrow> rotation_of names ups \<and> i < length ups \<and> failed_on (take i ups) as"
| "pc_ok names now as (AtCount ups) \<longleftrightarrow> rotation_of names ups \<and> ups \<noteq> [] \<and> failed_on (take 1 ups) as"
| "pc_ok names now as (AtClear out) \<longleftrightarrow> (\<exists>ups. rotation_of names ups \<and> answered_by ups 0 out as)"
| "pc_ok names now as (AtStamp out) \<longleftrightarrow> (\<exists>ups i. rotation_of names ups \<and> answered_by ups i out as)"
| "pc_ok names now as (AtStore out n) \<longleftrightarrow> n \<le> now \<and> (\<exists>ups i. rotation_of names ups \<and> answered_by ups i out as)"
| "pc_ok names now as (Returned (Inr out) False) \<longleftrightarrow> (\<exists>ups i. rotation_of names ups \<and> answered_by ups i out as)"
| "pc_ok names now as (Returned (Inl err) False) \<longleftrightarrow> err = all_failed \<and> (\<exists>ups. rotation_of names ups \<and> failed_on ups as)"
| "pc_ok names now as (Returned (Inr out) True) \<longleftrightarrow> as = []"
| "pc_ok names now as (Returned (Inl err) True) \<longleftrightarrow> False"
| "pc_ok names now as (Panicked p) \<longleftrightarrow> True"

definition conc_inv :: "'u list \<Rightarrow> (nat \<Rightarrow> ('u \<times> (go_err + Msg)) list) \<Rightarrow> 'u conc \<Rightarrow> bool" where
  "conc_inv names as s \<longleftrightarrow>
     rotation_of names (c_Upstream s) \<and> 0 \<le> c_UpstreamErr s \<and> c_UpstreamErr s \<le> 3 \<and> cache_inv (c_now s) (c_Cache s) \<and>
     (\<forall>t. c_threads s t = None \<longrightarrow> as t = []) \<and> (\<forall>t q p. c_threads s t = Some (q, p) \<longrightarrow> pc_ok names (c_now s) (as t) p)"

lemma pc_ok_mono: "pc_ok names now as p \<Longrightarrow> now \<le> now' \<Longrightarrow> pc_ok names now' as p"
  by (cases "(names, now, as, p)" rule: pc_ok.cases) auto

lemma failed_on_Nil [simp]: "failed_on [] as \<longleftrightarrow> as = []"
  by (auto simp: failed_on_def)

lemma failed_on_snoc: "failed_on (take i ups) as \<Longrightarrow> i < length ups \<Longrightarrow> failed_on (take (Suc i) ups) (as @ [(ups ! i, Inl err)])"
  by (auto simp: failed_on_def take_Suc_conv_app_nth)

lemma answered_by_snoc: "failed_on (take i ups) as \<Longrightarrow> i < length ups \<Longrightarrow> answered_by ups i out (as @ [(ups ! i, Inr out)])"
  by (auto simp: answered_by_def)

lemma next_upstream_ok:
  "rotation_of names ups \<Longrightarrow> failed_on (take i ups) as \<Longrightarrow> pc_ok names now as (next_upstream ups i)"
  by (auto simp: next_upstream_def)

lemma conc_count_inv:
  assumes "rotation_of names (c_Upstream s)" "0 \<le> c_UpstreamErr s" "c_UpstreamErr s \<le> 3"
  shows "rotation_of names (c_Upstream (conc_count s)) \<and> 0 \<le> c_UpstreamErr (conc_count s) \<and> c_UpstreamErr (conc_count s) \<le> 3"
proof -
  have "drop 1 us @ take 1 us = rotate1 us" for us :: "'a list" by (cases us) simp_all
  then show ?thesis using assms rotate1_step [of _ names] by (auto simp: conc_count_def rotation_of_def Let_def)
qed

lemma conc_count_simps [simp]:
  "c_Cache (conc_count s) = c_Cache s" "c_now (conc_count s) = c_now s" "c_threads (conc_count s) = c_threads s"
  by (simp_all add: conc_count_def Let_def)

lemma goto_simps [simp]:
  "c_Upstream (goto t q p s) = c_Upstream s" "c_UpstreamErr (goto t q p s) = c_UpstreamErr s" "c_Cache (goto t q p s) = c_Cache s"
  "c_now (goto t q p s) = c_now s" "c_threads (goto t q p s) = (c_threads s)(t \<mapsto> (q, p))"
  by (simp_all add: goto_def)

lemma conc_invD:
  assumes "conc_inv names as s"
  shows "rotation_of names (c_Upstream s)" "0 \<le> c_UpstreamErr s" "c_UpstreamErr s \<le> 3" "cache_inv (c_now s) (c_Cache s)"
    "c_threads s t = Some (q, p) \<Longrightarrow> pc_ok names (c_now s) (as t) p" "c_threads s t = None \<Longrightarrow> as t = []"
  using assms by (auto simp: conc_inv_def)

text \<open>A step of one goroutine: the shared parts are as they should be, the others have not moved.\<close>

lemma conc_inv_move:
  assumes inv: "conc_inv names as s"
    and shared: "rotation_of names (c_Upstream s1) \<and> 0 \<le> c_UpstreamErr s1 \<and> c_UpstreamErr s1 \<le> 3" "cache_inv (c_now s1) (c_Cache s1)"
      "c_threads s1 = c_threads s" "c_now s \<le> c_now s1"
    and p: "pc_ok names (c_now s1) (as' t) p" and others: "\<And>t'. t' \<noteq> t \<Longrightarrow> as' t' = as t'"
  shows "conc_inv names as' (goto t q p s1)"
  using assms by (auto simp: conc_inv_def intro: pc_ok_mono [OF _ shared(4)])

lemma conc_inv_shared:
  assumes inv: "conc_inv names as s" and shared: "cache_inv n c" "c_now s \<le> n"
  shows "conc_inv names as (s\<lparr>c_Cache := c, c_now := n\<rparr>)"
  using inv shared by (auto simp: conc_inv_def intro: pc_ok_mono [OF _ shared(2)])

lemma conc_step_inv:
  assumes D: "SetQuestion_doc D" and inv: "conc_inv names as s" and step: "conc_step D e s = Some s'"
  shows "conc_inv names (\<lambda>t. as t @ asks t [e]) s'"
proof -
  note sh = conc_invD(1-4) [OF inv] and th = conc_invD(5) [OF inv]
  show ?thesis
  proof (cases e)
    case (E_Begin t q)
    then show ?thesis using step sh conc_invD(6) [OF inv]
      by (auto split: option.splits intro!: conc_inv_move [OF inv])
  next
    case (E_Get t n1 n2)
    then obtain q where t: "c_threads s t = Some (q, AtGet)" and n: "c_now s \<le> n1" "n1 \<le> n2"
      using step by (auto split: option.splits pc.splits if_splits)
    have get: "Cache_Get D (c_Cache s) q n1 n2 = Inr (c, r) \<Longrightarrow> cache_inv n2 c" for c r using Cache_Get_inv [OF sh(4) n] .
    have old: "cache_inv n2 (c_Cache s)" using cache_inv_mono [OF sh(4)] n by simp
    from step E_Get t n sh th [OF t] get old show ?thesis
      by (auto split: sum.splits option.splits intro!: conc_inv_move [OF inv])
  next
    case (E_Snapshot t)
    then show ?thesis using step sh
      by (auto split: option.splits pc.splits dest!: th intro!: conc_inv_move [OF inv] next_upstream_ok)
  next
    case (E_Resolve t u res)
    then obtain q ups i where t: "c_threads s t = Some (q, AtResolve ups i)" and u: "ups ! i = u"
      using step by (auto split: option.splits pc.splits if_splits)
    from th [OF t] have ups: "rotation_of names ups" "i < length ups" "failed_on (take i ups) (as t)" by auto
    note snoc = failed_on_snoc [OF ups(3,2)] answered_by_snoc [OF ups(3,2)]
    from step E_Resolve t u sh ups snoc show ?thesis
      by (auto split: sum.splits intro!: conc_inv_move [OF inv] next_upstream_ok) blast+
  next
    case (E_Clear t)
    then show ?thesis using step sh th
      by (fastforce split: option.splits pc.splits intro!: conc_inv_move [OF inv])
  next
    case (E_Count t)
    then show ?thesis using step sh th conc_count_inv [OF sh(1-3)]
      by (fastforce split: option.splits pc.splits intro!: conc_inv_move [OF inv] next_upstream_ok)
  next
    case (E_Stamp t n)
    then show ?thesis using step sh th cache_inv_mono [OF sh(4)]
      by (fastforce split: option.splits pc.splits if_splits intro!: conc_inv_move [OF inv])
  next
    case (E_Store t)
    then obtain q out n where t: "c_threads s t = Some (q, AtStore out n)"
      using step by (auto split: option.splits pc.splits)
    have "n \<le> c_now s" using th [OF t] by simp
    with Cache_Add_inv_late [OF sh(4)] step E_Store t sh th [OF t] show ?thesis
      by (auto split: sum.splits intro!: conc_inv_move [OF inv]) blast
  next
    case (E_Flush n)
    then show ?thesis using step conc_inv_shared [OF inv, of n] cache_inv_mono [OF sh(4), of n] Flush_inv [of n "c_Cache s" n]
      by (auto split: if_splits)
  next
    case (E_Delete k)
    then show ?thesis using step conc_inv_shared [OF inv, of "c_now s"] cache_inv_del [OF sh(4)] by (auto simp: cache_del_def)
  next
    case (E_AddRR rr permanent n1 n2)
    then show ?thesis using step conc_inv_shared [OF inv, of n2] AddRR_inv [OF D sh(4)] by (auto split: if_splits)
  qed
qed

lemma asks_append: "asks t (es @ es') = asks t es @ asks t es'"
  by (induction t es rule: asks.induct) simp_all

lemma conc_run_inv:
  assumes D: "SetQuestion_doc D"
  shows "conc_run D es s = Some s' \<Longrightarrow> conc_inv names as s \<Longrightarrow> conc_inv names (\<lambda>t. as t @ asks t es) s'"
proof (induction es arbitrary: s as)
  case (Cons e es)
  then obtain s1 where s1: "conc_step D e s = Some s1" "conc_run D es s1 = Some s'" by (auto split: option.splits)
  from Cons.IH [OF s1(2) conc_step_inv [OF D Cons.prems(2) s1(1)]] show ?case
    using asks_append [of _ "[e]" es] by simp
qed simp

section \<open>Progress\<close>

text \<open>Whose event it is, how many steps a goroutine has left at most, and where it ends.\<close>

fun event_of :: "'u event \<Rightarrow> nat option" where
  "event_of (E_Begin t q) = None"
| "event_of (E_Get t n1 n2) = Some t"
| "event_of (E_Snapshot t) = Some t"
| "event_of (E_Resolve t u res) = Some t"
| "event_of (E_Clear t) = Some t"
| "event_of (E_Count t) = Some t"
| "event_of (E_Stamp t n) = Some t"
| "event_of (E_Store t) = Some t"
| "event_of (E_Flush n) = None"
| "event_of (E_Delete k) = None"
| "event_of (E_AddRR rr permanent n1 n2) = None"

fun steps_left :: "nat \<Rightarrow> 'u pc \<Rightarrow> nat" where
  "steps_left n AtGet = n + 5"
| "steps_left n AtSnapshot = n + 4"
| "steps_left n (AtResolve ups i) = (n - i) + (if i = 0 then 3 else 2)"
| "steps_left n (AtClear out) = 3"
| "steps_left n (AtCount ups) = n + 2"
| "steps_left n (AtStamp out) = 2"
| "steps_left n (AtStore out m) = 1"
| "steps_left n (Returned r cached) = 0"
| "steps_left n (Panicked p) = 0"

definition thread_left :: "nat \<Rightarrow> 'u conc \<Rightarrow> nat \<Rightarrow> nat" where
  "thread_left n s t = (case c_threads s t of None \<Rightarrow> n + 5 | Some (q, p) \<Rightarrow> steps_left n p)"

lemma next_upstream_left: "i \<le> n \<Longrightarrow> 0 < i \<Longrightarrow> length ups = n \<Longrightarrow> steps_left n (next_upstream ups i) \<le> n - i + 2"
  by (simp add: next_upstream_def)

lemma rotation_length: "rotation_of names us \<Longrightarrow> length us = length names"
  by (auto simp: rotation_of_def)

lemma conc_step_left:
  assumes inv: "conc_inv names as s" and step: "conc_step D e s = Some s'"
  shows "thread_left (length names) s' t + (if event_of e = Some t then 1 else 0) \<le> thread_left (length names) s t"
proof (cases "event_of e = Some t")
  case True
  then obtain q p where t: "c_threads s t = Some (q, p)" using step by (cases e) (auto split: option.splits)
  note ok = conc_invD(5) [OF inv t] and up = conc_invD(1) [OF inv]
  show ?thesis using True step t ok up
    by (cases e) (auto simp: thread_left_def next_upstream_def rotation_length Suc_le_eq split: pc.splits sum.splits option.splits if_splits)
next
  case False
  then show ?thesis using step
    by (cases e) (auto simp: thread_left_def split: pc.splits sum.splits option.splits if_splits)
qed

lemma conc_run_left:
  assumes D: "SetQuestion_doc D"
  shows "conc_run D es s = Some s' \<Longrightarrow> conc_inv names as s \<Longrightarrow>
    length (filter (\<lambda>e. event_of e = Some t) es) + thread_left (length names) s' t \<le> thread_left (length names) s t"
proof (induction es arbitrary: s as)
  case (Cons e es)
  then obtain s1 where s1: "conc_step D e s = Some s1" "conc_run D es s1 = Some s'" by (auto split: option.splits)
  from Cons.IH [OF s1(2) conc_step_inv [OF D Cons.prems(2) s1(1)]] conc_step_left [OF Cons.prems(2) s1(1), of t]
  show ?case by auto
qed simp

text \<open>The event a goroutine waits for, at a time \<open>n\<close> and with the outcome \<open>res\<close> of an exchange.\<close>

fun next_event :: "nat \<Rightarrow> int \<Rightarrow> (go_err + Msg) \<Rightarrow> 'u pc \<Rightarrow> 'u event option" where
  "next_event t n res AtGet = Some (E_Get t n n)"
| "next_event t n res AtSnapshot = Some (E_Snapshot t)"
| "next_event t n res (AtResolve ups i) = Some (E_Resolve t (ups ! i) res)"
| "next_event t n res (AtClear out) = Some (E_Clear t)"
| "next_event t n res (AtCount ups) = Some (E_Count t)"
| "next_event t n res (AtStamp out) = Some (E_Stamp t n)"
| "next_event t n res (AtStore out m) = Some (E_Store t)"
| "next_event t n res (Returned r cached) = None"
| "next_event t n res (Panicked p) = None"

lemma next_event_enabled:
  assumes "c_threads s t = Some (q, p)" "c_now s \<le> n" "next_event t n res p = Some e"
  shows "conc_step D e s \<noteq> None \<and> event_of e = Some t"
  using assms by (cases p) auto

section \<open>Properties\<close>

lemma conc_start_inv:
  "0 \<le> err \<Longrightarrow> err \<le> 3 \<Longrightarrow> cache_inv now c \<Longrightarrow> conc_inv names (\<lambda>_. []) (conc_start names err c now)"
  by (auto simp: conc_inv_def conc_start_def rotation_of_def intro: exI [of _ 0])

text \<open>
  Claim C3. However the queries of many clients interleave, and whatever the upstreams do, the list of upstreams stays a
  rotation of the configured one with an error count between 0 and 3, and the cache keeps its invariant. Each query asks the upstreams
  in the order of one rotation of the configured list, each at most once and none after one that answered: a query
  that returned an answer from the network got it from the first upstream of its order that answered, one that
  returned an error had asked them all in vain, and one answered from the cache asked nobody.
\<close>

theorem concurrent_queries_ask_in_order:
  assumes D: "SetQuestion_doc D" and start: "0 \<le> err" "err \<le> 3" "cache_inv now c"
    and run: "conc_run D es (conc_start names err c now) = Some s"
  shows "(\<exists>k. c_Upstream s = rotate k names) \<and> 0 \<le> c_UpstreamErr s \<and> c_UpstreamErr s \<le> 3 \<and> cache_inv (c_now s) (c_Cache s) \<and>
    (\<forall>t q r cached. c_threads s t = Some (q, Returned r cached) \<longrightarrow>
       (if cached then asks t es = [] \<and> (\<exists>out. r = Inr out)
        else \<exists>k failed. (\<forall>x \<in> set failed. \<exists>u err. x = (u, Inl err)) \<and>
          (case r of
             Inr out \<Rightarrow> \<exists>i < length names. asks t es = failed @ [(rotate k names ! i, Inr out)] \<and> map fst failed = take i (rotate k names)
           | Inl e \<Rightarrow> e = all_failed \<and> asks t es = failed \<and> map fst failed = rotate k names)))"
proof -
  have inv: "conc_inv names (\<lambda>t. asks t es) s"
    using conc_run_inv [OF D run conc_start_inv [OF start]] by simp
  have ret: "if cached then asks t es = [] \<and> (\<exists>out. r = Inr out)
      else \<exists>k failed. (\<forall>x \<in> set failed. \<exists>u err. x = (u, Inl err)) \<and>
        (case r of
           Inr out \<Rightarrow> \<exists>i < length names. asks t es = failed @ [(rotate k names ! i, Inr out)] \<and> map fst failed = take i (rotate k names)
         | Inl e \<Rightarrow> e = all_failed \<and> asks t es = failed \<and> map fst failed = rotate k names)"
    if "c_threads s t = Some (q, Returned r cached)" for t q r cached
    using conc_invD(5) [OF inv that]
    by (cases r; cases cached) (fastforce simp: rotation_of_def answered_by_def failed_on_def)+
  show ?thesis using conc_invD(1-4) [OF inv] ret unfolding rotation_of_def by blast
qed

text \<open>Eight queries find the first of two upstreams broken; all of them fall back to the second.\<close>

definition sample_burst :: "string event list" where
  "sample_burst =
     concat (map (\<lambda>t. [E_Begin t (sample_query ''h.local'' TypeA), E_Get t 0 0, E_Snapshot t, E_Resolve t ''broken'' (Inl EOF)]) [0..<8]) @
     map E_Count [0..<8] @ concat (map (\<lambda>t. [E_Resolve t ''healthy'' (Inr sample_answer), E_Stamp t 0, E_Store t]) [0..<8])"

lemma sample_burst_run:
  "\<exists>s. conc_run sample_lib sample_burst (conc_start [''broken'', ''healthy''] 0 Cache_New 0) = Some s \<and>
     c_Upstream s = [''broken'', ''healthy''] \<and> c_threads s 7 = Some (sample_query ''h.local'' TypeA, Returned (Inr sample_answer) False)"
proof -
  have "map_option (\<lambda>s. (c_Upstream s, c_threads s 7)) (conc_run sample_lib sample_burst (conc_start [''broken'', ''healthy''] 0 Cache_New 0)) =
    Some ([''broken'', ''healthy''], Some (sample_query ''h.local'' TypeA, Returned (Inr sample_answer) False))" by code_simp
  then show ?thesis by auto
qed

theorem concurrent_queries_ask_in_order_witness:
  "\<exists>s k failed. conc_run sample_lib sample_burst (conc_start [''broken'', ''healthy''] 0 Cache_New 0) = Some s \<and>
     c_threads s 7 = Some (sample_query ''h.local'' TypeA, Returned (Inr sample_answer) False) \<and>
     (\<exists>i < length [''broken'', ''healthy'']. asks 7 sample_burst = failed @ [(rotate k [''broken'', ''healthy''] ! i, Inr sample_answer)])"
proof -
  obtain s where s: "conc_run sample_lib sample_burst (conc_start [''broken'', ''healthy''] 0 Cache_New 0) = Some s"
    "c_threads s 7 = Some (sample_query ''h.local'' TypeA, Returned (Inr sample_answer) False)" using sample_burst_run by blast
  have "(0 :: int) \<le> 0" "(0 :: int) \<le> 3" by simp_all
  note all = concurrent_queries_ask_in_order [OF sample_set_question this cache_inv_New s(1)]
  have "\<exists>k failed. \<exists>i < length [''broken'', ''healthy'']. asks 7 sample_burst = failed @ [(rotate k [''broken'', ''healthy''] ! i, Inr sample_answer)]"
    using all [THEN conjunct2, THEN conjunct2, THEN conjunct2, THEN conjunct2, rule_format, OF s(2)]
    by (simp only: if_False sum.case) blast
  with s show ?thesis by blast
qed





section \<open>The handler alone\<close>

text \<open>A configuration and a state of the goroutines show the same upstreams, error count and cache.\<close>

definition conc_view :: "ProxyConfig \<Rightarrow> string conc \<Rightarrow> bool" where
  "conc_view config s \<longleftrightarrow>
     c_Upstream s = map Resolver_String (Upstream config) \<and> c_UpstreamErr s = UpstreamErr config \<and> c_Cache s = P_Cache config"

lemma conc_run_append: "conc_run D (es @ es') s = (case conc_run D es s of None \<Rightarrow> None | Some s' \<Rightarrow> conc_run D es' s')"
  by (induction es arbitrary: s) (simp_all split: option.splits)

lemma goto_goto [simp]: "goto t q p' (goto t q p s) = goto t q p' s"
  by (simp add: goto_def)

text \<open>The tail of the loop: from its second round on the shared state is not touched.\<close>

lemma tail_run:
  assumes "try_upstreams D N rs w q = (res, rs', w')"
  shows "0 < i \<Longrightarrow> i \<le> length ups \<Longrightarrow> drop i ups = map Resolver_String rs \<Longrightarrow>
    \<exists>es. conc_run D es (goto t q (next_upstream ups i) s) =
      Some (goto t q (case res of None \<Rightarrow> Returned (Inl all_failed) False | Some (j, out) \<Rightarrow> AtStamp out) s)"
  using assms
proof (induction rs arbitrary: i w res rs' w')
  case Nil
  then have "i = length ups" by simp
  with Nil show ?case by (intro exI [of _ "[]"]) (simp add: next_upstream_def)
next
  case (Cons r rs)
  obtain x r1 w1 where call: "Resolve D N r w q = (x, r1, w1)" by (metis prod_cases3)
  have i: "i < length ups" "ups ! i = Resolver_String r" "drop (Suc i) ups = map Resolver_String rs"
    using Cons.prems(2,3) by (cases "i < length ups"; simp add: Cons_nth_drop_Suc [symmetric])+
  show ?case
  proof (cases x)
    case (Inr out)
    then show ?thesis using i Cons.prems(1,4) call
      by (intro exI [of _ "[E_Resolve t (Resolver_String r) (Inr out)]"]) (auto simp: next_upstream_def)
  next
    case (Inl e)
    obtain res1 rs1 w2 where rest: "try_upstreams D N rs w1 q = (res1, rs1, w2)" by (metis prod_cases3)
    from Cons.IH [OF _ _ i(3) rest] i(1) obtain es where
      "conc_run D es (goto t q (next_upstream ups (Suc i)) s) =
        Some (goto t q (case res1 of None \<Rightarrow> Returned (Inl all_failed) False | Some (j, out) \<Rightarrow> AtStamp out) s)" by auto
    then show ?thesis using i Inl call rest Cons.prems(1,4)
      by (intro exI [of _ "E_Resolve t (Resolver_String r) (Inl (snd e)) # es"])
        (auto simp: next_upstream_def split: option.splits)
  qed
qed

lemma store_run:
  assumes "Cache_Add D (c_Cache s) out n = Inr c" "c_now s \<le> n"
  shows "conc_run D [E_Stamp t n, E_Store t] (goto t q (AtStamp out) s) =
    Some (goto t q (Returned (Inr out) False) (s\<lparr>c_Cache := c, c_now := n\<rparr>))"
  using assms by (simp add: goto_def)

lemma conc_view_goto [simp]: "conc_view config (goto t q p s) \<longleftrightarrow> conc_view config s"
  by (simp add: conc_view_def)

lemma conc_count_goto: "conc_count (goto t q p s) = goto t q p (conc_count s)"
  by (simp add: conc_count_def goto_def Let_def)

lemma returns_by:
  assumes "conc_run D es s = Some (goto t q (Returned out cached) s1)" "conc_view config s1"
  shows "\<exists>es s'. conc_run D es s = Some s' \<and> c_threads s' t = Some (q, Returned out cached) \<and> conc_view config s'"
  using assms by (intro exI [of _ es] exI [of _ "goto t q (Returned out cached) s1"]) simp

text \<open>The loop, from the copied list on.\<close>

lemma loop_run:
  assumes tr: "try_upstreams D N (Upstream config) w q = (res, rs, w')" and inv: "list_all resolver_inv (Upstream config)"
    and view: "conc_view config s" and n: "c_now s \<le> n"
    and loop: "resolve_loop D N n q [0..<length (Upstream config)] False config w = Inr (out, config', w'')"
  shows "\<exists>es s'. conc_run D es (goto t q (next_upstream (c_Upstream s) 0) s) = Some s' \<and>
    c_threads s' t = Some (q, Returned out False) \<and> conc_view config' s'"
proof (cases "Upstream config")
  case Nil
  then show ?thesis using tr view loop
    by (intro exI [of _ "[]"]) (auto simp: conc_view_def next_upstream_def all_failed_def)
next
  case (Cons r rest)
  obtain x r1 w1 where call: "Resolve D N r w q = (x, r1, w1)" by (metis prod_cases3)
  have names: "map Resolver_String rs = map Resolver_String (Upstream config)" using try_upstreams_keeps [OF inv tr] by simp
  have up: "c_Upstream s = Resolver_String r # map Resolver_String rest" using view Cons by (simp add: conc_view_def)
  have first: "next_upstream (c_Upstream s) 0 = AtResolve (c_Upstream s) 0" by (simp add: next_upstream_def up)
  note eq = loop [unfolded resolve_loop_eq [OF tr]]
  show ?thesis
  proof (cases x)
    case (Inr m)
    then have res: "res = Some (0, m)" using tr Cons call by auto
    then obtain c where c: "Cache_Add D (P_Cache config) m n = Inr c" "out = Inr m" "config' = (after_first True config rs)\<lparr>P_Cache := c\<rparr>"
      using eq by (auto simp: map_sum_Inr)
    let ?s = "s\<lparr>c_UpstreamErr := 0\<rparr>"
    have "conc_run D [E_Resolve t (Resolver_String r) (Inr m), E_Clear t] (goto t q (next_upstream (c_Upstream s) 0) s) = Some (goto t q (AtStamp m) ?s)"
      by (simp add: next_upstream_def up goto_def)
    with store_run [of D ?s m n c t q] c(1) n view have
      "conc_run D ([E_Resolve t (Resolver_String r) (Inr m), E_Clear t] @ [E_Stamp t n, E_Store t]) (goto t q (next_upstream (c_Upstream s) 0) s) =
        Some (goto t q (Returned (Inr m) False) (?s\<lparr>c_Cache := c, c_now := n\<rparr>))"
      unfolding conc_run_append by (simp add: conc_view_def)
    from returns_by [OF this, of config'] show ?thesis using view names c(2,3) by (simp add: conc_view_def after_first_def)
  next
    case (Inl e)
    obtain res1 rs1 w2 where rest: "try_upstreams D N rest w1 q = (res1, rs1, w2)" by (metis prod_cases3)
    then have res: "res = map_option (\<lambda>(i, m). (Suc i, m)) res1" using tr Cons call Inl by auto
    let ?s = "conc_count s" and ?p = "case res1 of None \<Rightarrow> Returned (Inl all_failed) False | Some (j, m) \<Rightarrow> AtStamp m"
    obtain es where "conc_run D es (goto t q (next_upstream (c_Upstream s) 1) ?s) = Some (goto t q ?p ?s)"
      using tail_run [OF rest, of 1 "c_Upstream s" t ?s] up by auto
    then have run: "conc_run D (E_Resolve t (Resolver_String r) (Inl (snd e)) # E_Count t # es) (goto t q (next_upstream (c_Upstream s) 0) s) =
        Some (goto t q ?p ?s)" using first up by (simp add: conc_count_goto)
    have view': "conc_view (after_first False config rs) ?s" using view names
      by (auto simp: conc_view_def after_first_def conc_count_def Let_def rotate1_map up)
    show ?thesis
    proof (cases res1)
      case None
      then have "out = Inl all_failed" "config' = after_first False config rs" using eq res Cons by auto
      with returns_by [OF run [unfolded None option.case] view'] show ?thesis by simp
    next
      case (Some jm)
      then obtain j m where jm: "res1 = Some (j, m)" by (cases jm) simp
      then obtain c where c: "Cache_Add D (P_Cache config) m n = Inr c" "out = Inr m" "config' = (after_first False config rs)\<lparr>P_Cache := c\<rparr>"
        using eq res by (auto simp: map_sum_Inr)
      have "conc_run D ((E_Resolve t (Resolver_String r) (Inl (snd e)) # E_Count t # es) @ [E_Stamp t n, E_Store t]) (goto t q (next_upstream (c_Upstream s) 0) s) =
          Some (goto t q (Returned (Inr m) False) (?s\<lparr>c_Cache := c, c_now := n\<rparr>))"
        unfolding conc_run_append run using store_run [of D ?s m n c t q] c(1) n view jm by (simp add: conc_view_def)
      from returns_by [OF this, of config'] show ?thesis using view' c(2,3) by (simp add: conc_view_def)
    qed
  qed
qed




section \<open>Stale failures\<close>

text \<open>A query that copies the list, asks its first upstream in vain and is about to count the failure.\<close>

definition failing :: "'u \<Rightarrow> Msg \<Rightarrow> int \<Rightarrow> nat \<Rightarrow> 'u event list" where
  "failing u q n t = [E_Begin t q, E_Get t n n, E_Snapshot t, E_Resolve t u (Inl EOF)]"

lemma failing_run:
  assumes "MQuestion q = [qu]" "c_Cache s = Cache_New" "c_now s = n" "c_Upstream s = u # us" "c_threads s t = None"
  shows "conc_run D (failing u q n t) s = Some (goto t q (AtCount (u # us)) s)"
proof -
  have "Cache_Get D Cache_New q n n = Inr (Cache_New, None)" using assms(1) by (simp add: Cache_Get_def Cache_New_def)
  then show ?thesis using assms(2-) by (simp add: failing_def goto_def next_upstream_def)
qed

lemma failing_runs:
  assumes "MQuestion q = [qu]"
  shows "c_Cache s = Cache_New \<Longrightarrow> c_now s = n \<Longrightarrow> c_Upstream s = u # us \<Longrightarrow> distinct ts \<Longrightarrow> \<forall>t \<in> set ts. c_threads s t = None \<Longrightarrow>
    \<exists>s'. conc_run D (concat (map (failing u q n) ts)) s = Some s' \<and> c_Upstream s' = u # us \<and> c_UpstreamErr s' = c_UpstreamErr s \<and>
      (\<forall>t. c_threads s' t = (if t \<in> set ts then Some (q, AtCount (u # us)) else c_threads s t))"
proof (induction ts arbitrary: s)
  case (Cons t ts)
  have "c_threads s t = None" using Cons.prems(5) by simp
  note first = failing_run [OF assms Cons.prems(1-3) this, of D]
  let ?s = "goto t q (AtCount (u # us)) s"
  have others: "\<forall>t' \<in> set ts. c_threads ?s t' = None" using Cons.prems(4,5) by auto
  obtain s' where "conc_run D (concat (map (failing u q n) ts)) ?s = Some s'" "c_Upstream s' = u # us" "c_UpstreamErr s' = c_UpstreamErr s"
    "\<forall>t'. c_threads s' t' = (if t' \<in> set ts then Some (q, AtCount (u # us)) else c_threads ?s t')"
    using Cons.IH [of ?s, OF _ _ _ _ others] Cons.prems(1-4) by auto
  then show ?case using first Cons.prems(4) by (auto simp: conc_run_append)
qed simp

lemma count_arith:
  "(e + Suc n) div 4 = ((if e = 3 then 0 else Suc e) + n) div 4 + (if e = 3 then 1 else 0)"
  "(e + Suc n) mod 4 = ((if e = 3 then 0 else Suc e) + n) mod 4" for e n :: nat
proof -
  have "(n + 4) div 4 = n div 4 + 1" "(n + 4) mod 4 = n mod 4" by (simp_all only: div_add_self2 mod_add_self2 zero_neq_numeral not_False_eq_True)
  moreover have "3 + Suc n = n + 4" by simp
  ultimately show "(e + Suc n) div 4 = ((if e = 3 then 0 else Suc e) + n) div 4 + (if e = 3 then 1 else 0)"
    "(e + Suc n) mod 4 = ((if e = 3 then 0 else Suc e) + n) mod 4"
    by (cases "e = 3"; simp only: if_True if_False simp_thms add_0 add_Suc add_Suc_right add_0_right)+
qed

lemma count_runs:
  "distinct ts \<Longrightarrow> \<forall>t \<in> set ts. \<exists>q ups. c_threads s t = Some (q, AtCount ups) \<Longrightarrow> c_UpstreamErr s = int e \<Longrightarrow> e < 4 \<Longrightarrow>
    \<exists>s'. conc_run D (map E_Count ts) s = Some s' \<and> c_Upstream s' = rotate ((e + length ts) div 4) (c_Upstream s) \<and>
      c_UpstreamErr s' = int ((e + length ts) mod 4)"
proof (induction ts arbitrary: s e)
  case (Cons t ts)
  then obtain q ups where t: "c_threads s t = Some (q, AtCount ups)" by auto
  let ?s = "goto t q (next_upstream ups 1) (conc_count s)" and ?e = "if e = 3 then 0 else Suc e"
  have err: "c_UpstreamErr ?s = int ?e" "?e < 4" using Cons.prems(3,4) by (auto simp: conc_count_def Let_def)
  have up: "c_Upstream ?s = rotate (if e = 3 then 1 else 0) (c_Upstream s)"
    using Cons.prems(3,4) by (cases "c_Upstream s") (auto simp: conc_count_def Let_def)
  have others: "\<forall>t' \<in> set ts. \<exists>q ups. c_threads ?s t' = Some (q, AtCount ups)" using Cons.prems(1,2) by auto
  obtain s' where s': "conc_run D (map E_Count ts) ?s = Some s'" "c_Upstream s' = rotate ((?e + length ts) div 4) (c_Upstream ?s)"
    "c_UpstreamErr s' = int ((?e + length ts) mod 4)" using Cons.IH [OF _ others err] Cons.prems(1) by auto
  show ?case
  proof (intro exI conjI)
    show "conc_run D (map E_Count (t # ts)) s = Some s'" using t s'(1) by simp
    show "c_Upstream s' = rotate ((e + length (t # ts)) div 4) (c_Upstream s)"
      unfolding s'(2) up length_Cons count_arith(1) by (simp only: rotate_rotate)
    show "c_UpstreamErr s' = int ((e + length (t # ts)) mod 4)" unfolding s'(3) length_Cons count_arith(2) ..
  qed
qed simp

lemma asks_count: "asks t (map E_Count ts) = []"
  by (induction ts) simp_all

lemma asks_failing: "asks t (concat (map (failing u q n) ts)) = map (\<lambda>_. (u, Inl EOF)) (filter (\<lambda>t'. t' = t) ts)"
  by (induction ts) (simp_all add: asks_append failing_def)




end
