(* ===== verification/Log_Stream.thy ===== *)
theory Log_Stream
  imports Stats "HOL-Library.Sublist"
begin

text \<open>
  The live log under concurrency. In theory \<open>Stats\<close> logging an item and sending it to the sessions is one step; here it is taken
  apart. \<^verbatim>\<open>Insert\<close> of \<^verbatim>\<open>buffer.go\<close> holds the buffer's lock while it calls the hooks one after the other; a hook
  (\<^verbatim>\<open>stats.go\<close>) sends on the unbuffered channel of a session and so waits until the session (\<^verbatim>\<open>api/log.go\<close>) receives, or until
  the channel is closed, when the send panics and the hook recovers. A session waits in its \<^verbatim>\<open>select\<close>, writes the line it
  received to its client, which may take as long as the client likes, and when the client has gone closes the channel and
  removes the hook. Adding and removing a hook takes no lock: while an insertion iterates over the hooks this is a
  concurrent access to a Go map, after which nothing is known of the program, so the model stops there (\<open>sm_raced\<close>).
\<close>

section \<open>Sessions and insertions\<close>

datatype session_pc = Selecting | Writing ConnectionLog | Leaving | Unhooking | Ended

record session =
  ss_addr :: string
  ss_pc :: session_pc
  ss_events :: "string list"

record stream =
  sm_stats :: "nat stats"
  sm_sending :: "(nat \<times> ConnectionLog) list option"
  sm_sessions :: "nat \<Rightarrow> session option"
  sm_next :: nat
  sm_raced :: bool

definition stream_New :: "nat stats \<Rightarrow> stream" where
  "stream_New s = \<lparr>sm_stats = s, sm_sending = None, sm_sessions = \<lambda>_. None, sm_next = 0, sm_raced = False\<rparr>"

datatype stream_event = S_Connect string | S_Log ConnectionLog | S_Send | S_Unlock | S_Write nat | S_Leave nat | S_Close nat | S_Unhook nat

definition set_pc :: "nat \<Rightarrow> session_pc \<Rightarrow> stream \<Rightarrow> stream" where
  "set_pc ch p s = s\<lparr>sm_sessions := (sm_sessions s)(ch := map_option (\<lambda>x. x\<lparr>ss_pc := p\<rparr>) (sm_sessions s ch))\<rparr>"

text \<open>The channel of a session is closed from \<open>Unhooking\<close> on.\<close>

definition pc_of :: "stream \<Rightarrow> nat \<Rightarrow> session_pc" where
  "pc_of s ch = (case sm_sessions s ch of None \<Rightarrow> Ended | Some x \<Rightarrow> ss_pc x)"

fun stream_step :: "(ConnectionLog \<Rightarrow> string) \<Rightarrow> stream_event \<Rightarrow> stream \<Rightarrow> stream option" where
  "stream_step json (S_Connect r) s =
     (if sm_raced s then None
      else Some (s\<lparr>sm_stats := MakeLogChannel (sm_stats s) r (sm_next s),
                   sm_sessions := (sm_sessions s)(sm_next s \<mapsto> \<lparr>ss_addr = r, ss_pc = Selecting, ss_events = []\<rparr>),
                   sm_next := sm_next s + 1, sm_raced := sm_sending s \<noteq> None\<rparr>))"
| "stream_step json (S_Log c) s =
     (if sm_raced s \<or> sm_sending s \<noteq> None then None
      else case Stats_Add (sm_stats s) c of
             Inl p \<Rightarrow> None
           | Inr (b, calls) \<Rightarrow> Some (s\<lparr>sm_stats := b, sm_sending := Some calls\<rparr>))"
| "stream_step json S_Send s =
     (if sm_raced s then None
      else case sm_sending s of
             Some ((ch, c) # calls) \<Rightarrow>
               (case pc_of s ch of
                  Selecting \<Rightarrow> Some (set_pc ch (Writing c) s\<lparr>sm_sending := Some calls\<rparr>)
                | Unhooking \<Rightarrow> Some (s\<lparr>sm_sending := Some calls\<rparr>)
                | Ended \<Rightarrow> Some (s\<lparr>sm_sending := Some calls\<rparr>)
                | _ \<Rightarrow> None)
           | _ \<Rightarrow> None)"
| "stream_step json S_Unlock s =
     (if sm_raced s then None else if sm_sending s = Some [] then Some (s\<lparr>sm_sending := None\<rparr>) else None)"
| "stream_step json (S_Write ch) s =
     (if sm_raced s then None
      else case sm_sessions s ch of
             Some x \<Rightarrow>
               (case ss_pc x of
                  Writing c \<Rightarrow>
                    Some (s\<lparr>sm_sessions := (sm_sessions s)(ch \<mapsto> x\<lparr>ss_pc := Selecting, ss_events := ss_events x @ [sse_event json c]\<rparr>)\<rparr>)
                | _ \<Rightarrow> None)
           | None \<Rightarrow> None)"
| "stream_step json (S_Leave ch) s = (if \<not> sm_raced s \<and> pc_of s ch = Selecting then Some (set_pc ch Leaving s) else None)"
| "stream_step json (S_Close ch) s = (if \<not> sm_raced s \<and> pc_of s ch = Leaving then Some (set_pc ch Unhooking s) else None)"
| "stream_step json (S_Unhook ch) s =
     (if sm_raced s then None
      else case sm_sessions s ch of
             Some x \<Rightarrow>
               (case ss_pc x of
                  Unhooking \<Rightarrow>
                    Some (set_pc ch Ended s\<lparr>sm_stats := CloseLogChannel (sm_stats s) (ss_addr x), sm_raced := sm_sending s \<noteq> None\<rparr>)
                | _ \<Rightarrow> None)
           | None \<Rightarrow> None)"

fun stream_run :: "(ConnectionLog \<Rightarrow> string) \<Rightarrow> stream_event list \<Rightarrow> stream \<Rightarrow> stream option" where
  "stream_run json [] s = Some s"
| "stream_run json (e # es) s = (case stream_step json e s of None \<Rightarrow> None | Some s \<Rightarrow> stream_run json es s)"

text \<open>The addresses that connect, in order, and the items logged after the session number \<open>ch\<close> has connected, when \<open>n\<close> have before.\<close>

fun connects :: "stream_event list \<Rightarrow> string list" where
  "connects [] = []"
| "connects (S_Connect r # es) = r # connects es"
| "connects (_ # es) = connects es"

fun heard :: "nat \<Rightarrow> nat \<Rightarrow> stream_event list \<Rightarrow> ConnectionLog list" where
  "heard n ch [] = []"
| "heard n ch (S_Connect r # es) = heard (n + 1) ch es"
| "heard n ch (S_Log c # es) = (if ch < n then [c] else []) @ heard n ch es"
| "heard n ch (_ # es) = heard n ch es"

section \<open>What a session has received\<close>

definition pending :: "stream \<Rightarrow> nat \<Rightarrow> ConnectionLog list" where
  "pending s ch = (case sm_sending s of None \<Rightarrow> [] | Some calls \<Rightarrow> map snd (filter (\<lambda>(c, _). c = ch) calls))"

text \<open>
  \<open>h\<close> is what the session should have heard: until it leaves, that is what it has written, the line it is about to write, and
  the line that is about to be sent to it; afterwards what it has written is the start of it.
\<close>

definition session_ok :: "(ConnectionLog \<Rightarrow> string) \<Rightarrow> ConnectionLog list \<Rightarrow> ConnectionLog list \<Rightarrow> session \<Rightarrow> bool" where
  "session_ok json h pend x \<longleftrightarrow>
     (\<exists>d. ss_events x = map (sse_event json) d \<and>
       (case ss_pc x of
          Selecting \<Rightarrow> d @ pend = h
        | Writing c \<Rightarrow> d @ [c] @ pend = h
        | Leaving \<Rightarrow> d @ pend = h
        | _ \<Rightarrow> prefix d h))"

definition stream_inv :: "(ConnectionLog \<Rightarrow> string) \<Rightarrow> stream_event list \<Rightarrow> stream \<Rightarrow> bool" where
  "stream_inv json es s \<longleftrightarrow>
     rb_wf (sm_stats s) \<and> gm_wf (hooks (sm_stats s)) \<and> sm_next s = length (connects es) \<and>
     (\<forall>ch. sm_sessions s ch = None \<longleftrightarrow> sm_next s \<le> ch) \<and>
     (\<forall>ch x. sm_sessions s ch = Some x \<longrightarrow> ss_addr x = connects es ! ch \<and> session_ok json (heard 0 ch es) (pending s ch) x) \<and>
     (\<forall>r ch. gm_get (hooks (sm_stats s)) r = Some ch \<longleftrightarrow> ch < sm_next s \<and> connects es ! ch = r \<and> pc_of s ch \<noteq> Ended) \<and>
     (\<forall>calls. sm_sending s = Some calls \<longrightarrow> fst ` set calls \<subseteq> {..<sm_next s})"

lemma connects_append: "connects (es @ es') = connects es @ connects es'"
  by (induction es rule: connects.induct) simp_all

lemma heard_append: "heard n ch (es @ es') = heard n ch es @ heard (n + length (connects es)) ch es'"
  by (induction n ch es rule: heard.induct) simp_all

lemma heard_late: "n + length (connects es) \<le> ch \<Longrightarrow> heard n ch es = []"
  by (induction n ch es rule: heard.induct) simp_all

lemma session_ok_pc:
  "session_ok json h pend (x\<lparr>ss_pc := Selecting\<rparr>) \<longleftrightarrow> (\<exists>d. ss_events x = map (sse_event json) d \<and> d @ pend = h)"
  "session_ok json h pend (x\<lparr>ss_pc := Leaving\<rparr>) \<longleftrightarrow> (\<exists>d. ss_events x = map (sse_event json) d \<and> d @ pend = h)"
  "session_ok json h pend (x\<lparr>ss_pc := Writing c\<rparr>) \<longleftrightarrow> (\<exists>d. ss_events x = map (sse_event json) d \<and> d @ [c] @ pend = h)"
  "session_ok json h pend (x\<lparr>ss_pc := Unhooking\<rparr>) \<longleftrightarrow> (\<exists>d. ss_events x = map (sse_event json) d \<and> prefix d h)"
  "session_ok json h pend (x\<lparr>ss_pc := Ended\<rparr>) \<longleftrightarrow> (\<exists>d. ss_events x = map (sse_event json) d \<and> prefix d h)"
  by (simp_all add: session_ok_def)

lemma session_ok_cases:
  assumes "session_ok json h pend x"
  shows "ss_pc x = Selecting \<or> ss_pc x = Leaving \<Longrightarrow> \<exists>d. ss_events x = map (sse_event json) d \<and> d @ pend = h"
    "ss_pc x = Writing c \<Longrightarrow> \<exists>d. ss_events x = map (sse_event json) d \<and> d @ [c] @ pend = h"
    "\<exists>d. ss_events x = map (sse_event json) d \<and> prefix d h"
  using assms by (cases "ss_pc x"; auto simp: session_ok_def prefix_def)+

text \<open>A closed session does not mind what is pending.\<close>

lemma session_ok_closed: "ss_pc x \<in> {Unhooking, Ended} \<Longrightarrow> session_ok json h pend x \<Longrightarrow> session_ok json h pend' x"
  by (auto simp: session_ok_def)

lemma session_ok_log:
  "session_ok json h [] x \<Longrightarrow> pend = (if ss_pc x = Ended then [] else [c]) \<Longrightarrow> session_ok json (h @ [c]) pend x"
  by (auto simp: session_ok_def split: session_pc.splits)

lemma stream_invD:
  assumes "stream_inv json es s"
  shows "rb_wf (sm_stats s)" "gm_wf (hooks (sm_stats s))" "sm_next s = length (connects es)"
    "sm_sessions s ch = None \<longleftrightarrow> sm_next s \<le> ch"
    "sm_sessions s ch = Some x \<Longrightarrow> ss_addr x = connects es ! ch \<and> session_ok json (heard 0 ch es) (pending s ch) x"
    "gm_get (hooks (sm_stats s)) r = Some ch \<longleftrightarrow> ch < sm_next s \<and> connects es ! ch = r \<and> pc_of s ch \<noteq> Ended"
    "sm_sending s = Some calls \<Longrightarrow> fst ` set calls \<subseteq> {..<sm_next s}"
  using assms unfolding stream_inv_def by blast+

lemma stream_inv_connect:
  assumes inv: "stream_inv json es s" and step: "stream_step json (S_Connect r) s = Some s'" and dist: "distinct (connects (es @ [S_Connect r]))"
  shows "stream_inv json (es @ [S_Connect r]) s'"
proof -
  note D = stream_invD [OF inv]
  let ?n = "sm_next s"
  have s': "s' = s\<lparr>sm_stats := MakeLogChannel (sm_stats s) r ?n,
      sm_sessions := (sm_sessions s)(?n \<mapsto> \<lparr>ss_addr = r, ss_pc = Selecting, ss_events = []\<rparr>), sm_next := ?n + 1, sm_raced := sm_sending s \<noteq> None\<rparr>"
    using step by (simp split: if_splits)
  have fresh: "connects es ! ch \<noteq> r" if "ch < ?n" for ch using dist that D(3) by (auto simp: connects_append)
  have nth: "(connects es @ [r]) ! ?n = r" "ch < ?n \<Longrightarrow> (connects es @ [r]) ! ch = connects es ! ch" for ch
    using D(3) by (simp_all add: nth_append)
  have pend: "pending s ?n = []" using D(7) by (fastforce simp: pending_def filter_empty_conv split: option.splits)
  have heard: "heard 0 ch (es @ [S_Connect r]) = heard 0 ch es" for ch by (simp add: heard_append)
  have late: "heard 0 ?n es = []" using heard_late [of 0 es ?n] D(3) by simp
  have pc: "pc_of s' ch = (if ch = ?n then Selecting else pc_of s ch)" for ch by (simp add: s' pc_of_def)
  have p': "pending s' ch = pending s ch" for ch by (simp add: s' pending_def)
  show ?thesis unfolding stream_inv_def
  proof (intro conjI allI impI)
    show "rb_wf (sm_stats s')" "gm_wf (hooks (sm_stats s'))" "sm_next s' = length (connects (es @ [S_Connect r]))"
      using D(1-3) by (simp_all add: s' MakeLogChannel_def AddHook_def connects_append)
    show "sm_sessions s' ch = None \<longleftrightarrow> sm_next s' \<le> ch" for ch using D(4) [of ch] by (auto simp: s')
    show "ss_addr x = connects (es @ [S_Connect r]) ! ch" "session_ok json (heard 0 ch (es @ [S_Connect r])) (pending s' ch) x"
      if "sm_sessions s' ch = Some x" for ch x
      using that D(4) [of ch] D(5) [of ch x] late pend unfolding heard p'
      by (cases "ch = ?n"; auto simp: s' connects_append nth session_ok_def)+
    show "gm_get (hooks (sm_stats s')) r' = Some ch \<longleftrightarrow> ch < sm_next s' \<and> connects (es @ [S_Connect r]) ! ch = r' \<and> pc_of s' ch \<noteq> Ended" for r' ch
      using D(6) [of r' ch] fresh [of ch] unfolding pc by (cases "ch = ?n"; auto simp: s' MakeLogChannel_def AddHook_def connects_append nth less_Suc_eq)
    show "fst ` set calls \<subseteq> {..<sm_next s'}" if "sm_sending s' = Some calls" for calls using that D(7) [of calls] by (auto simp: s')
  qed
qed

lemma pc_of_session: "sm_sessions s ch = Some x \<Longrightarrow> pc_of s ch = ss_pc x"
  by (simp add: pc_of_def)

lemma stream_inv_log:
  assumes inv: "stream_inv json es s" and step: "stream_step json (S_Log c) s = Some s'"
  shows "stream_inv json (es @ [S_Log c]) s'"
proof -
  note D = stream_invD [OF inv]
  let ?h = "hooks (sm_stats s)"
  have free: "sm_sending s = None" and s': "s' = s\<lparr>sm_stats := inserted (sm_stats s) c, sm_sending := Some (map (\<lambda>(hid, h). (h, c)) ?h)\<rparr>"
    using step by (auto simp: Stats_Add_def Insert_eq [OF D(1)] split: if_splits)
  have pc: "pc_of s' ch = pc_of s ch" for ch by (simp add: s' pc_of_def)
  have in_h: "(r, ch) \<in> set ?h \<longleftrightarrow> ch < sm_next s \<and> connects es ! ch = r \<and> pc_of s ch \<noteq> Ended" for r ch
    using gm_get_in [of ?h r ch] gm_in_get [OF D(2), of r ch] D(6) [of r ch] by blast
  have "fst z = connects es ! snd z" if "z \<in> set ?h" for z using in_h [of "fst z" "snd z"] that by simp
  then have "inj_on snd (set ?h)" by (simp add: inj_on_def prod_eq_iff)
  moreover have "distinct ?h" using D(2) distinct_map by blast
  ultimately have dist: "distinct (map snd ?h)" using distinct_map by blast
  have "ch \<in> snd ` set ?h \<longleftrightarrow> ch < sm_next s \<and> pc_of s ch \<noteq> Ended" for ch
  proof -
    have "ch \<in> snd ` set ?h \<longleftrightarrow> (\<exists>r. (r, ch) \<in> set ?h)" by force
    then show ?thesis unfolding in_h by simp
  qed
  then have pend: "pending s' ch = (if ch < sm_next s \<and> pc_of s ch \<noteq> Ended then [c] else [])" for ch
    using calls_to [OF dist, of ch c] by (simp add: s' pending_def)
  have pend0: "pending s ch = []" for ch using free by (simp add: pending_def)
  show ?thesis unfolding stream_inv_def
  proof (intro conjI allI impI)
    show "rb_wf (sm_stats s')" "gm_wf (hooks (sm_stats s'))" "sm_next s' = length (connects (es @ [S_Log c]))"
      using D(1-3) by (simp_all add: s' connects_append inserted_wf)
    show "sm_sessions s' ch = None \<longleftrightarrow> sm_next s' \<le> ch" for ch using D(4) [of ch] by (simp add: s')
    show "ss_addr x = connects (es @ [S_Log c]) ! ch" "session_ok json (heard 0 ch (es @ [S_Log c])) (pending s' ch) x"
      if x: "sm_sessions s' ch = Some x" for ch x
    proof -
      have x': "sm_sessions s ch = Some x" "ch < sm_next s" using x D(4) [of ch] by (auto simp: s')
      from D(5) [OF x'(1)] show "ss_addr x = connects (es @ [S_Log c]) ! ch" by (simp add: connects_append)
      have "session_ok json (heard 0 ch es) [] x" using D(5) [OF x'(1)] pend0 by simp
      from session_ok_log [OF this refl, of c] show "session_ok json (heard 0 ch (es @ [S_Log c])) (pending s' ch) x"
        using x' D(3) by (simp add: heard_append pend pc_of_session split: if_splits)
    qed
    show "gm_get (hooks (sm_stats s')) r = Some ch \<longleftrightarrow> ch < sm_next s' \<and> connects (es @ [S_Log c]) ! ch = r \<and> pc_of s' ch \<noteq> Ended" for r ch
      using D(6) [of r ch] D(1) unfolding pc by (simp add: s' connects_append)
    show "fst ` set calls \<subseteq> {..<sm_next s'}" if "sm_sending s' = Some calls" for calls
      using that in_h by (fastforce simp: s')
  qed
qed

text \<open>The other events: one session moves, nobody connects and nothing is logged.\<close>

lemma stream_inv_move:
  assumes inv: "stream_inv json es s" and e: "connects [e] = []" "\<And>n ch. heard n ch [e] = []"
    and stats: "rb_wf (sm_stats s')" "gm_wf (hooks (sm_stats s'))" "sm_next s' = sm_next s"
      "\<And>r ch. gm_get (hooks (sm_stats s')) r = Some ch \<longleftrightarrow> gm_get (hooks (sm_stats s)) r = Some ch \<and> pc_of s' ch \<noteq> Ended"
    and ended: "\<And>ch. pc_of s ch = Ended \<Longrightarrow> pc_of s' ch = Ended"
    and sessions: "\<And>ch. sm_sessions s' ch = None \<longleftrightarrow> sm_sessions s ch = None"
      "\<And>ch x x'. sm_sessions s ch = Some x \<Longrightarrow> sm_sessions s' ch = Some x' \<Longrightarrow>
         session_ok json (heard 0 ch es) (pending s ch) x \<Longrightarrow> ss_addr x' = ss_addr x \<and> session_ok json (heard 0 ch es) (pending s' ch) x'"
    and calls: "\<And>calls. sm_sending s' = Some calls \<Longrightarrow> \<exists>pre. sm_sending s = Some (pre @ calls)"
  shows "stream_inv json (es @ [e]) s'"
proof -
  note D = stream_invD [OF inv]
  show ?thesis unfolding stream_inv_def connects_append heard_append e append_Nil2
  proof (intro conjI allI impI)
    show "sm_next s' = length (connects es)" using stats(3) D(3) by simp
    show "sm_sessions s' ch = None \<longleftrightarrow> sm_next s' \<le> ch" for ch using D(4) [of ch] sessions(1) stats(3) by simp
    show "ss_addr x' = connects es ! ch" "session_ok json (heard 0 ch es) (pending s' ch) x'" if x': "sm_sessions s' ch = Some x'" for ch x'
    proof -
      obtain x where x: "sm_sessions s ch = Some x" using x' sessions(1) [of ch] by (cases "sm_sessions s ch") auto
      from sessions(2) [OF x x'] D(5) [OF x] show "ss_addr x' = connects es ! ch" "session_ok json (heard 0 ch es) (pending s' ch) x'" by auto
    qed
    show "gm_get (hooks (sm_stats s')) r = Some ch \<longleftrightarrow> ch < sm_next s' \<and> connects es ! ch = r \<and> pc_of s' ch \<noteq> Ended" for r ch
      using D(6) [of r ch] stats(3) stats(4) [of r ch] ended [of ch] by auto
    show "fst ` set cs \<subseteq> {..<sm_next s'}" if "sm_sending s' = Some cs" for cs
      using calls [OF that] D(7) stats(3) by fastforce
  qed (rule stats)+
qed

lemma set_pc_simps [simp]:
  "sm_stats (set_pc ch p s) = sm_stats s" "sm_sending (set_pc ch p s) = sm_sending s" "sm_next (set_pc ch p s) = sm_next s"
  "sm_raced (set_pc ch p s) = sm_raced s" "pending (set_pc ch p s) ch' = pending s ch'"
  "sm_sessions (set_pc ch p s) ch' = (if ch' = ch then map_option (\<lambda>x. x\<lparr>ss_pc := p\<rparr>) (sm_sessions s ch) else sm_sessions s ch')"
  by (simp_all add: set_pc_def pending_def)

lemma pc_of_set_pc: "pc_of (set_pc ch p s) ch' = (if ch' = ch \<and> sm_sessions s ch \<noteq> None then p else pc_of s ch')"
  by (auto simp: pc_of_def split: option.splits)

lemma pc_of_update [simp]:
  "pc_of (s\<lparr>sm_sending := x\<rparr>) ch = pc_of s ch" "pc_of (s\<lparr>sm_stats := b\<rparr>) ch = pc_of s ch" "pc_of (s\<lparr>sm_raced := b'\<rparr>) ch = pc_of s ch"
  by (simp_all add: pc_of_def)

lemma hooks_not_ended:
  assumes "stream_inv json es s" "gm_get (hooks (sm_stats s)) r = Some ch"
  shows "pc_of s ch \<noteq> Ended"
  using stream_invD(6) [OF assms(1), of r ch] assms(2) by simp

lemma pending_head:
  assumes "sm_sending s = Some ((ch, c) # calls)"
  shows "pending s ch' = (if ch' = ch then [c] else []) @ pending (s\<lparr>sm_sending := Some calls\<rparr>) ch'"
  using assms by (simp add: pending_def)

lemma stream_inv_send:
  assumes inv: "stream_inv json es s" and step: "stream_step json S_Send s = Some s'"
  shows "stream_inv json (es @ [S_Send]) s'"
proof -
  obtain ch c calls where send: "sm_sending s = Some ((ch, c) # calls)" using step by (auto split: if_splits option.splits list.splits)
  let ?s = "s\<lparr>sm_sending := Some calls\<rparr>"
  note D = stream_invD [OF inv] and head = pending_head [OF send]
  have cases: "pc_of s ch = Selecting \<and> s' = set_pc ch (Writing c) ?s \<or> pc_of s ch \<in> {Unhooking, Ended} \<and> s' = ?s"
    using step send by (auto simp: set_pc_def split: if_splits session_pc.splits)
  have pend: "pending s' ch' = pending ?s ch'" for ch' using cases by auto
  have ok: "ss_addr x' = ss_addr x \<and> session_ok json (heard 0 ch' es) (pending s' ch') x'"
    if x: "sm_sessions s ch' = Some x" "sm_sessions s' ch' = Some x'" "session_ok json (heard 0 ch' es) (pending s ch') x" for ch' x x'
  proof (cases "ch' = ch")
    case True
    from cases show ?thesis
    proof (elim disjE)
      assume a: "pc_of s ch = Selecting \<and> s' = set_pc ch (Writing c) ?s"
      then have "x' = x\<lparr>ss_pc := Writing c\<rparr>" "ss_pc x = Selecting" using x True by (auto simp: pc_of_session)
      then show ?thesis using session_ok_cases(1) [OF x(3)] True by (simp add: pend head session_ok_pc)
    next
      assume a: "pc_of s ch \<in> {Unhooking, Ended} \<and> s' = ?s"
      then have "x' = x" "ss_pc x \<in> {Unhooking, Ended}" using x True by (auto simp: pc_of_session)
      then show ?thesis using session_ok_closed [OF _ x(3)] by simp
    qed
  next
    case False
    then show ?thesis using x cases by (auto simp: pend head)
  qed
  show ?thesis
  proof (rule stream_inv_move [OF inv _ _ _ _ _ _ _ _ ok])
    show "\<exists>pre. sm_sending s = Some (pre @ cs)" if "sm_sending s' = Some cs" for cs
      using that cases send by (intro exI [of _ "[(ch, c)]"]) auto
    show "gm_get (hooks (sm_stats s')) r = Some ch' \<longleftrightarrow> gm_get (hooks (sm_stats s)) r = Some ch' \<and> pc_of s' ch' \<noteq> Ended" for r ch'
      using cases hooks_not_ended [OF inv, of r ch'] by (auto simp: pc_of_set_pc split: if_splits)
  qed (use D(1,2) cases in \<open>auto simp: pc_of_set_pc pc_of_def split: if_splits\<close>)
qed

lemma stream_inv_quiet:
  assumes inv: "stream_inv json es s" and e: "connects [e] = []" "\<And>n ch. heard n ch [e] = []"
    and x: "sm_sessions s ch = Some x" and s': "s' = s\<lparr>sm_sessions := (sm_sessions s)(ch \<mapsto> x')\<rparr>" and addr: "ss_addr x' = ss_addr x"
    and ok: "session_ok json (heard 0 ch es) (pending s ch) x \<Longrightarrow> session_ok json (heard 0 ch es) (pending s ch) x'"
    and ended: "ss_pc x \<noteq> Ended" "ss_pc x' \<noteq> Ended"
  shows "stream_inv json (es @ [e]) s'"
proof -
  have pend: "pending s' ch' = pending s ch'" for ch' by (simp add: s' pending_def)
  have pc: "pc_of s' ch' = (if ch' = ch then ss_pc x' else pc_of s ch')" for ch' by (simp add: s' pc_of_def)
  show ?thesis
  proof (rule stream_inv_move [OF inv e])
    show "gm_get (hooks (sm_stats s')) r = Some ch' \<longleftrightarrow> gm_get (hooks (sm_stats s)) r = Some ch' \<and> pc_of s' ch' \<noteq> Ended" for r ch'
      using hooks_not_ended [OF inv, of r ch'] ended(2) unfolding pc by (auto simp: s')
    show "pc_of s' ch' = Ended" if "pc_of s ch' = Ended" for ch' using that ended(1) pc_of_session [OF x] by (auto simp: pc)
    show "ss_addr y' = ss_addr y \<and> session_ok json (heard 0 ch' es) (pending s' ch') y'"
      if "sm_sessions s ch' = Some y" "sm_sessions s' ch' = Some y'" "session_ok json (heard 0 ch' es) (pending s ch') y" for ch' y y'
      using that x addr ok unfolding pend by (auto simp: s' split: if_splits)
  qed (use stream_invD(1,2) [OF inv] x in \<open>auto simp: s' intro: exI [of _ "[]"]\<close>)
qed

lemma stream_step_inv:
  assumes inv: "stream_inv json es s" and step: "stream_step json e s = Some s'" and dist: "distinct (connects (es @ [e]))"
  shows "stream_inv json (es @ [e]) s'"
proof (cases e)
  case (S_Connect r)
  then show ?thesis using stream_inv_connect [OF inv] step dist by blast
next
  case (S_Log c)
  then show ?thesis using stream_inv_log [OF inv] step by blast
next
  case S_Send
  then show ?thesis using stream_inv_send [OF inv] step by blast
next
  case S_Unlock
  then have s': "s' = s\<lparr>sm_sending := None\<rparr>" "sm_sending s = Some []" using step by (auto split: if_splits)
  have "pending s' ch = pending s ch" for ch using s' by (simp add: pending_def)
  then show ?thesis using S_Unlock s' stream_invD(1,2) [OF inv] hooks_not_ended [OF inv]
    by (intro stream_inv_move [OF inv]) auto
next
  case (S_Write ch)
  then obtain x c where x: "sm_sessions s ch = Some x" "ss_pc x = Writing c"
    and s': "s' = s\<lparr>sm_sessions := (sm_sessions s)(ch \<mapsto> x\<lparr>ss_pc := Selecting, ss_events := ss_events x @ [sse_event json c]\<rparr>)\<rparr>"
    using step by (auto split: if_splits option.splits session_pc.splits)
  have "session_ok json h pend (x\<lparr>ss_pc := Selecting, ss_events := ss_events x @ [sse_event json c]\<rparr>)" if ok: "session_ok json h pend x" for h pend
  proof -
    obtain d where "ss_events x = map (sse_event json) d" "d @ [c] @ pend = h" using session_ok_cases(2) [OF ok x(2)] by blast
    then show ?thesis unfolding session_ok_def by (intro exI [of _ "d @ [c]"]) simp
  qed
  then show ?thesis using S_Write x by (intro stream_inv_quiet [OF inv _ _ x(1) s']) auto
next
  case (S_Leave ch)
  then obtain x where x: "sm_sessions s ch = Some x" "ss_pc x = Selecting" and s': "s' = s\<lparr>sm_sessions := (sm_sessions s)(ch \<mapsto> x\<lparr>ss_pc := Leaving\<rparr>)\<rparr>"
    using step by (auto simp: pc_of_def set_pc_def split: if_splits option.splits)
  then show ?thesis using S_Leave by (intro stream_inv_quiet [OF inv _ _ x(1) s']) (auto simp: session_ok_def)
next
  case (S_Close ch)
  then obtain x where x: "sm_sessions s ch = Some x" "ss_pc x = Leaving" and s': "s' = s\<lparr>sm_sessions := (sm_sessions s)(ch \<mapsto> x\<lparr>ss_pc := Unhooking\<rparr>)\<rparr>"
    using step by (auto simp: pc_of_def set_pc_def split: if_splits option.splits)
  then show ?thesis using S_Close by (intro stream_inv_quiet [OF inv _ _ x(1) s']) (auto simp: session_ok_pc dest: session_ok_cases(3))
next
  case (S_Unhook ch)
  then obtain x where x: "sm_sessions s ch = Some x" "ss_pc x = Unhooking"
    and s': "s' = set_pc ch Ended s\<lparr>sm_stats := CloseLogChannel (sm_stats s) (ss_addr x), sm_raced := sm_sending s \<noteq> None\<rparr>"
    using step by (auto split: if_splits option.splits session_pc.splits)
  note D = stream_invD [OF inv]
  have addr: "ss_addr x = connects es ! ch" using D(5) [OF x(1)] by simp
  have "distinct (connects es)" using dist by (simp add: connects_append)
  then have other: "gm_get (hooks (sm_stats s)) (ss_addr x) = Some ch' \<longleftrightarrow> ch' = ch" for ch'
    using D(6) [of "ss_addr x" ch'] D(4) [of ch] x D(3) addr by (auto simp: nth_eq_iff_index_eq pc_of_session)
  have pc: "pc_of s' ch' = (if ch' = ch then Ended else pc_of s ch')" for ch' using x by (simp add: s' pc_of_set_pc)
  have pend: "pending s' ch' = pending s ch'" for ch' by (simp add: s' pending_def)
  show ?thesis unfolding S_Unhook
  proof (rule stream_inv_move [OF inv])
    show "gm_get (hooks (sm_stats s')) r = Some ch' \<longleftrightarrow> gm_get (hooks (sm_stats s)) r = Some ch' \<and> pc_of s' ch' \<noteq> Ended" for r ch'
      using other [of ch'] hooks_not_ended [OF inv, of r ch'] D(6) [of r ch'] addr unfolding pc by (auto simp: s' CloseLogChannel_def DeleteHook_def)
    show "ss_addr y' = ss_addr y \<and> session_ok json (heard 0 ch' es) (pending s' ch') y'"
      if "sm_sessions s ch' = Some y" "sm_sessions s' ch' = Some y'" "session_ok json (heard 0 ch' es) (pending s ch') y" for ch' y y'
      using that x unfolding pend by (auto simp: s' session_ok_def split: if_splits)
  qed (use D(1,2) x pc in \<open>auto simp: s' CloseLogChannel_def DeleteHook_def intro: exI [of _ "[]"]\<close>)
qed

lemma stream_run_inv:
  "stream_run json es' s = Some s' \<Longrightarrow> stream_inv json es s \<Longrightarrow> distinct (connects (es @ es')) \<Longrightarrow> stream_inv json (es @ es') s'"
proof (induction es' arbitrary: s es)
  case (Cons e es')
  then obtain s1 where s1: "stream_step json e s = Some s1" "stream_run json es' s1 = Some s'" by (auto split: option.splits)
  have "distinct (connects (es @ [e]))" using Cons.prems(3) connects_append [of "[e]" es'] by (auto simp: connects_append)
  from Cons.IH [OF s1(2) stream_step_inv [OF Cons.prems(2) s1(1) this]] Cons.prems(3) show ?case by simp
qed simp

lemma stream_New_inv: "rb_wf b \<Longrightarrow> hooks b = [] \<Longrightarrow> stream_inv json [] (stream_New b)"
  by (simp add: stream_inv_def stream_New_def)

section \<open>The lock is released\<close>

text \<open>The events that serve an insertion: a send, the end of a write, a channel closed by a session that leaves.\<close>

fun serving :: "stream_event \<Rightarrow> bool" where
  "serving S_Send \<longleftrightarrow> True"
| "serving S_Unlock \<longleftrightarrow> True"
| "serving (S_Write ch) \<longleftrightarrow> True"
| "serving (S_Close ch) \<longleftrightarrow> True"
| "serving _ \<longleftrightarrow> False"

text \<open>What a pending send waits for: the session's own next step at most.\<close>

lemma send_unblocked:
  assumes "\<not> sm_raced s" "sm_sending s = Some ((ch, c) # calls)"
  shows "\<exists>es s'. stream_run json es s = Some s' \<and> sm_sending s' = Some calls \<and> \<not> sm_raced s' \<and> length es \<le> 2 \<and> list_all serving es"
proof (cases "sm_sessions s ch")
  case None
  then show ?thesis using assms by (intro exI [of _ "[S_Send]"]) (simp add: pc_of_def)
next
  case (Some x)
  let ?es = "case ss_pc x of Writing c' \<Rightarrow> [S_Write ch, S_Send] | Leaving \<Rightarrow> [S_Close ch, S_Send] | _ \<Rightarrow> [S_Send]"
  show ?thesis using Some assms
    by (intro exI [of _ ?es]) (auto simp: pc_of_def set_pc_def split: session_pc.splits)
qed

lemma stream_run_append: "stream_run json (es @ es') s = (case stream_run json es s of None \<Rightarrow> None | Some s' \<Rightarrow> stream_run json es' s')"
  by (induction es arbitrary: s) (simp_all split: option.splits)

lemma sends_unblocked:
  "\<not> sm_raced s \<Longrightarrow> sm_sending s = Some calls \<Longrightarrow>
   \<exists>es s'. stream_run json es s = Some s' \<and> sm_sending s' = None \<and> \<not> sm_raced s' \<and> length es \<le> 2 * length calls + 1 \<and> list_all serving es"
proof (induction calls arbitrary: s)
  case Nil
  then show ?case by (intro exI [of _ "[S_Unlock]"]) simp
next
  case (Cons a calls)
  obtain ch c where a: "a = (ch, c)" by (cases a)
  obtain es1 s1 where 1: "stream_run json es1 s = Some s1" "sm_sending s1 = Some calls" "\<not> sm_raced s1" "length es1 \<le> 2" "list_all serving es1"
    using send_unblocked [of s ch c calls json] Cons.prems a by blast
  obtain es2 s2 where 2: "stream_run json es2 s1 = Some s2" "sm_sending s2 = None" "\<not> sm_raced s2" "length es2 \<le> 2 * length calls + 1" "list_all serving es2"
    using Cons.IH [OF 1(3,2)] by blast
  show ?case using 1 2 by (intro exI [of _ "es1 @ es2"] exI [of _ s2]) (simp add: stream_run_append)
qed

section \<open>Properties\<close>

text \<open>
  Claim C7. The live log under concurrency: however insertions and sessions interleave, as long as no two sessions share an address and
  the hook map is not raced for, every session has written to its client a beginning of the items logged since it
  connected, in order and each once; while it is connected the rest is at most the line it is writing and the one
  that is being sent. And whenever an insertion holds the lock, it can finish in a number of steps that is bounded by the
  number of hooks, provided that the clients take the lines that are being written to them.
\<close>

theorem sessions_hear_the_log:
  assumes b: "rb_wf b" "hooks b = []" and run: "stream_run json es (stream_New b) = Some s" and ok: "distinct (connects es)" "\<not> sm_raced s"
  shows "(\<forall>ch x. sm_sessions s ch = Some x \<longrightarrow>
      (\<exists>d rest. ss_events x = map (sse_event json) d \<and> d @ rest = heard 0 ch es \<and>
        (\<forall>c. ss_pc x = Writing c \<longrightarrow> rest = c # pending s ch) \<and> (ss_pc x = Selecting \<or> ss_pc x = Leaving \<longrightarrow> rest = pending s ch))) \<and>
    (\<forall>calls. sm_sending s = Some calls \<longrightarrow>
      (\<exists>es' s'. stream_run json es' s = Some s' \<and> sm_sending s' = None \<and> length es' \<le> 2 * length calls + 1 \<and> list_all serving es'))"
proof -
  have inv: "stream_inv json es s" using stream_run_inv [OF run stream_New_inv [OF b]] ok(1) by simp
  have hear: "\<exists>d rest. ss_events x = map (sse_event json) d \<and> d @ rest = heard 0 ch es \<and>
      (\<forall>c. ss_pc x = Writing c \<longrightarrow> rest = c # pending s ch) \<and> (ss_pc x = Selecting \<or> ss_pc x = Leaving \<longrightarrow> rest = pending s ch)"
    if x: "sm_sessions s ch = Some x" for ch x
    using stream_invD(5) [OF inv x] by (cases "ss_pc x") (fastforce simp: session_ok_def prefix_def)+
  then show ?thesis using sends_unblocked [OF ok(2)] by blast
qed

lemma stuck_step:
  assumes "stream_step json e s = Some s'" "e \<noteq> S_Write ch" "sm_sending s = Some ((ch, c) # calls)" "pc_of s ch = Writing c'" "ch < sm_next s"
  shows "sm_sending s' = sm_sending s \<and> pc_of s' ch = Writing c' \<and> ch < sm_next s' \<and> (\<forall>x. e \<noteq> S_Log x)"
  using assms
  by (cases e) (auto simp: pc_of_def set_pc_def split: if_splits option.splits session_pc.splits)

text \<open>
  Claim C39. A client that does not read stops the log: while a line for a session is waiting to be sent and the session is still
  writing an earlier one, the lock is not released and no query is logged, whatever the other sessions and
  insertions do, until that client takes its line. Meanwhile a client that connects makes a concurrent access to the map of hooks.
\<close>

theorem unread_session_stops_the_log:
  assumes "stream_run json es s = Some s'" "S_Write ch \<notin> set es"
    and "sm_sending s = Some ((ch, c) # calls)" "pc_of s ch = Writing c'" "ch < sm_next s" "\<not> sm_raced s"
  shows "sm_sending s' = Some ((ch, c) # calls) \<and> (\<forall>x. S_Log x \<notin> set es) \<and> stream_step json S_Send s' = None \<and>
    (\<exists>s''. stream_step json (S_Connect r) s = Some s'' \<and> sm_raced s'')"
proof -
  have "sm_sending s' = Some ((ch, c) # calls) \<and> pc_of s' ch = Writing c' \<and> (\<forall>x. S_Log x \<notin> set es)"
    using assms(1-5)
  proof (induction es arbitrary: s)
    case (Cons e es)
    then obtain s1 where s1: "stream_step json e s = Some s1" "stream_run json es s1 = Some s'" by (auto split: option.splits)
    have "e \<noteq> S_Write ch" using Cons.prems(2) by auto
    from stuck_step [OF s1(1) this Cons.prems(3-5)] Cons.IH [OF s1(2)] Cons.prems(2,3) show ?case by auto
  qed simp
  then show ?thesis using assms(3,6) by simp
qed

definition sample_items :: "nat \<Rightarrow> ConnectionLog" where
  "sample_items n = zeroLog\<lparr>CL_Rcode := int n\<rparr>"

text \<open>Two sessions, and three items, the second session slow and the first one gone after its first line.\<close>

definition sample_stream :: "stream_event list" where
  "sample_stream = [S_Connect ''192.0.2.7:1000'', S_Connect ''192.0.2.7:1001'', S_Log (sample_items 1), S_Send, S_Send, S_Unlock,
     S_Write 0, S_Leave 0, S_Log (sample_items 2), S_Close 0, S_Send]"

definition sample_log :: "nat stats" where
  "sample_log = \<lparr>hooks = [], buffer = [zeroLog, zeroLog], capacity = 2, position = 0, rlength = 0\<rparr>"

lemma sample_log_wf: "rb_wf sample_log" "hooks sample_log = []"
  by (simp_all add: sample_log_def rb_wf_def)

lemma sample_stream_run:
  "\<exists>s x. stream_run (\<lambda>_. '''') sample_stream (stream_New sample_log) = Some s \<and> \<not> sm_raced s \<and>
    sm_sending s = Some [(1, sample_items 2)] \<and> pc_of s 1 = Writing (sample_items 1) \<and> sm_next s = 2 \<and> sm_sessions s 0 = Some x \<and>
    ss_events x = [sse_event (\<lambda>_. '''') (sample_items 1)] \<and> ss_pc x = Unhooking"
proof -
  have "map_option (\<lambda>s. (sm_raced s, sm_sending s, pc_of s 1, sm_next s, map_option (\<lambda>x. (ss_events x, ss_pc x)) (sm_sessions s 0)))
      (stream_run (\<lambda>_. '''') sample_stream (stream_New sample_log)) =
    Some (False, Some [(1, sample_items 2)], Writing (sample_items 1), 2, Some ([sse_event (\<lambda>_. '''') (sample_items 1)], Unhooking))" by code_simp
  then show ?thesis by auto
qed

theorem sessions_hear_the_log_witness:
  "\<exists>s x. stream_run (\<lambda>_. '''') sample_stream (stream_New sample_log) = Some s \<and> sm_sessions s 0 = Some x \<and>
    (\<exists>d rest. ss_events x = map (sse_event (\<lambda>_. '''')) d \<and> d @ rest = heard 0 0 sample_stream)"
proof -
  obtain s x where s: "stream_run (\<lambda>_. '''') sample_stream (stream_New sample_log) = Some s" "\<not> sm_raced s" "sm_sessions s 0 = Some x"
    using sample_stream_run by blast
  have "distinct (connects sample_stream)" by (simp add: sample_stream_def)
  from sessions_hear_the_log [OF sample_log_wf s(1) this s(2)] s(1,3) show ?thesis by blast
qed

theorem unread_session_stops_the_log_witness:
  "\<exists>s. stream_run (\<lambda>_. '''') sample_stream (stream_New sample_log) = Some s \<and> stream_step (\<lambda>_. '''') S_Send s = None \<and>
    (\<exists>s''. stream_step (\<lambda>_. '''') (S_Connect ''192.0.2.7:1002'') s = Some s'' \<and> sm_raced s'')"
proof -
  obtain s where s: "stream_run (\<lambda>_. '''') sample_stream (stream_New sample_log) = Some s" "\<not> sm_raced s"
    "sm_sending s = Some [(1, sample_items 2)]" "pc_of s 1 = Writing (sample_items 1)" "sm_next s = 2" using sample_stream_run by blast
  have "stream_run (\<lambda>_. '''') [] s = Some s" "S_Write 1 \<notin> set []" "1 < sm_next s" using s(5) by simp_all
  from unread_session_stops_the_log [OF this(1,2) s(3,4) this(3) s(2)] s(1) show ?thesis by blast
qed

section \<open>Sessions that share an address\<close>

text \<open>Without hooks, logging reaches nobody.\<close>

lemma log_without_hooks:
  "rb_wf (sm_stats s) \<Longrightarrow> hooks (sm_stats s) = [] \<Longrightarrow> sm_sending s = None \<Longrightarrow> \<not> sm_raced s \<Longrightarrow>
   \<exists>s'. stream_run json (concat (map (\<lambda>c. [S_Log c, S_Unlock]) cs)) s = Some s' \<and> sm_sessions s' = sm_sessions s \<and> \<not> sm_raced s' \<and> sm_sending s' = None"
proof (induction cs arbitrary: s)
  case (Cons c cs)
  let ?s = "s\<lparr>sm_stats := inserted (sm_stats s) c, sm_sending := None\<rparr>"
  obtain s' where "stream_run json (concat (map (\<lambda>c. [S_Log c, S_Unlock]) cs)) ?s = Some s'" "sm_sessions s' = sm_sessions s"
    "\<not> sm_raced s'" "sm_sending s' = None" using Cons.IH [of ?s] Cons.prems by (auto simp: inserted_wf)
  then show ?case using Cons.prems by (simp add: Stats_Add_def Insert_eq)
qed simp

definition shared_address :: "string \<Rightarrow> ConnectionLog list \<Rightarrow> stream_event list" where
  "shared_address r cs =
     [S_Connect r, S_Connect r, S_Leave 0, S_Close 0, S_Unhook 0] @ concat (map (\<lambda>c. [S_Log c, S_Unlock]) cs)"

text \<open>
  Claim C40. Hooks are registered under the client's address alone: when two sessions have the same address, as all clients of a Unix
  socket have, the end of the first removes the hook of the second. The second session stays connected, and of any
  number of items logged from then on it receives none.
\<close>

theorem shared_address_loses_lines:
  assumes b: "rb_wf b" "hooks b = []"
  shows "\<exists>s x. stream_run json (shared_address r cs) (stream_New b) = Some s \<and> \<not> sm_raced s \<and> sm_sending s = None \<and>
    sm_sessions s 1 = Some x \<and> ss_pc x = Selecting \<and> ss_events x = [] \<and> heard 0 1 (shared_address r cs) = cs"
proof -
  let ?pre = "[S_Connect r, S_Connect r, S_Leave 0, S_Close 0, S_Unhook 0]"
  obtain s0 x where s0: "stream_run json ?pre (stream_New b) = Some s0" "sm_sessions s0 1 = Some x" "ss_pc x = Selecting" "ss_events x = []"
      "rb_wf (sm_stats s0)" "hooks (sm_stats s0) = []" "sm_sending s0 = None" "\<not> sm_raced s0"
    using b by (simp add: stream_New_def MakeLogChannel_def AddHook_def CloseLogChannel_def DeleteHook_def pc_of_def set_pc_def)
  from log_without_hooks [OF s0(5-8), of json cs] obtain s where
    s: "stream_run json (concat (map (\<lambda>c. [S_Log c, S_Unlock]) cs)) s0 = Some s" "sm_sessions s = sm_sessions s0" "\<not> sm_raced s" "sm_sending s = None" by blast
  have "heard 2 1 (concat (map (\<lambda>c. [S_Log c, S_Unlock]) cs)) = cs" by (induction cs) simp_all
  then have "heard 0 1 (shared_address r cs) = cs" by (simp add: shared_address_def numeral_2_eq_2)
  moreover have "stream_run json (shared_address r cs) (stream_New b) = Some s" unfolding shared_address_def stream_run_append using s0(1) s(1) by simp
  ultimately show ?thesis using s s0(2-4) by (intro exI [of _ s] exI [of _ x]) simp
qed

theorem shared_address_loses_lines_witness:
  "\<exists>s x. stream_run (\<lambda>_. '''') (shared_address ''@'' [sample_items 1, sample_items 2]) (stream_New sample_log) = Some s \<and> sm_sessions s 1 = Some x \<and> ss_pc x = Selecting \<and> ss_events x = []"
  using shared_address_loses_lines [OF sample_log_wf, where r = "''@''" and cs = "[sample_items 1, sample_items 2]" and json = "\<lambda>_. ''''"] by blast

end
