(* ===== verification/Spec2Isabelle.thy ===== *)
theory Spec2Isabelle
  imports Options Commands Concurrency Log_Stream
begin

text \<open>
  The verification of \<^verbatim>\<open>dinosaur-dns\<close>, a filtering DNS proxy written in Go.

  \<^bold>\<open>The program.\<close> A query arrives over UDP or TCP (\<^verbatim>\<open>server\<close>) or HTTPS (\<^verbatim>\<open>doh\<close>) and goes to one handler
  (\<^verbatim>\<open>proxy\<close>). The handler checks the client against the ACL, answers blocked names with NXDOMAIN (\<^verbatim>\<open>blocklist\<close>), answers
  from the cache (\<^verbatim>\<open>cache\<close>), otherwise asks the upstream resolvers in order (\<^verbatim>\<open>resolver\<close>: UDP, TLS with a pool of
  connections, HTTPS), stores the answer, synthesises AAAA records when DNS64 is on, and logs the query in a ring buffer
  (\<^verbatim>\<open>statshandler\<close>) to which log sessions can be attached. The shared state is one \<^verbatim>\<open>ProxyConfig\<close>, built at start-up from
  flags and a JSON file (\<^verbatim>\<open>cmd/dinosaur\<close>, \<^verbatim>\<open>config\<close>, with the parsers of \<^verbatim>\<open>util\<close>). A JSON-RPC service (\<^verbatim>\<open>api\<close>) changes
  cache and blocklist while the program runs and keeps a log of the changes, from which it can write a configuration that
  includes them. Two loops flush the cache and reload the blocklist.

  \<^bold>\<open>The theories,\<close> each with the sources it translates under \<^verbatim>\<open>src/\<close>:

  \<^item> \<open>Prelude_Go\<close>: Go's integers, maps (\<open>gomap\<close>, an association list with unique keys), panics (\<open>'a go\<close> is
    \<open>go_panic + 'a\<close>), and the functions of \<^verbatim>\<open>strings\<close>, \<^verbatim>\<open>fmt\<close>, \<^verbatim>\<open>strconv\<close> that the sources call.
  \<^item> \<open>Dns_Types\<close>: messages and records; the library \<^verbatim>\<open>miekg/dns\<close> as a record \<open>dns_lib\<close> of functions.
  \<^item> \<open>Go_Net\<close>: addresses, networks, \<^verbatim>\<open>ParseIP\<close>, \<^verbatim>\<open>ParseCIDR\<close>, \<^verbatim>\<open>SplitHostPort\<close> of Go's library.
  \<^item> \<open>Blocklist\<close>: \<^verbatim>\<open>blocklist/trie.go\<close>, \<^verbatim>\<open>blocklist/blocklist.go\<close>. The trie is a datatype; the locale \<open>block_set\<close> is the
    set of entries it stands for.
  \<^item> \<open>Cache\<close>: \<^verbatim>\<open>cache/cache.go\<close>, \<^verbatim>\<open>cache/ptr.go\<close>. The locale \<open>expiring_store\<close> says what a lookup finds after each operation.
  \<^item> \<open>Stats\<close>: \<^verbatim>\<open>statshandler/\<close>, \<^verbatim>\<open>api/log.go\<close>. The locale \<open>bounded_log\<close> is the log of the last items.
  \<^item> \<open>Util\<close>, \<open>Logger\<close>: \<^verbatim>\<open>util/\<close>, \<^verbatim>\<open>logger/log.go\<close>.
  \<^item> \<open>Resolver\<close>: \<^verbatim>\<open>resolver/resolver.go\<close>, sequentially and, for the connection pool, as a step relation over any number
    of concurrent queries. The locale \<open>upstream_resolver\<close> is what the proxy relies on.
  \<^item> \<open>Config\<close>: \<^verbatim>\<open>config/config.go\<close>, \<^verbatim>\<open>config/userconfig.go\<close>.
  \<^item> \<open>Proxy\<close>: \<^verbatim>\<open>proxy/proxy.go\<close>.
  \<^item> \<open>Doh\<close>: \<^verbatim>\<open>doh/doh.go\<close>. \<open>Api\<close>: \<^verbatim>\<open>api/changelog.go\<close>, \<^verbatim>\<open>api/jsonrpc.go\<close>, \<^verbatim>\<open>api/api.go\<close>.
  \<^item> \<open>Server\<close>: \<^verbatim>\<open>server/\<close>, and the running server as a step relation \<open>server_step\<close>. The locale \<open>kept_invariant\<close> is
    interpreted by it.
  \<^item> \<open>Options\<close>: \<^verbatim>\<open>cmd/dinosaur/options.go\<close>, \<^verbatim>\<open>cmd/dinosaur/main.go\<close>. The locales \<open>bool_flag\<close>, \<open>value_flag\<close> and \<open>list_flag\<close>
    say what a flag does and are interpreted by every flag of the program.
  \<^item> \<open>Concurrency\<close>: \<^verbatim>\<open>resolve\<close> of \<^verbatim>\<open>proxy/proxy.go\<close> in any number of goroutines, one event for each locked section and each exchange.
  \<^item> \<open>Log_Stream\<close>: the insertions of \<^verbatim>\<open>statshandler/buffer.go\<close> under their lock, the hooks of \<^verbatim>\<open>statshandler/stats.go\<close> and the
    sessions of \<^verbatim>\<open>api/log.go\<close> with their unbuffered channels, interleaved.
  \<^item> \<open>Commands\<close>: \<^verbatim>\<open>cmd/pool/main.go\<close> and \<^verbatim>\<open>cmd/json-rpc/main.go\<close>, two clients beside the server, and \<^verbatim>\<open>util/testutil.go\<close>, the helpers of
    the tests.

  \<^bold>\<open>How the code is read.\<close> A struct is a record with the fields of the source (a prefix is added where Isabelle's field names
  would clash), an operation is a function to the new state. An error result is \<open>Inl\<close> of its text, a panic \<open>Inl\<close> of a
  \<open>go_panic\<close>. Times are nanoseconds as integers; each reading of the clock is an argument (\<open>clk 0\<close>, \<open>clk 1\<close>, ... in the order of
  the code), and where a theorem needs it the readings do not decrease (\<open>clock_ok\<close>). The network is a record \<open>netops\<close> of functions
  on a world of any type, so that nothing is assumed about it but what a theorem says. What the machine holds (files,
  pages, interfaces, users) is the record \<open>sysenv\<close>. TTLs are 32-bit words, types 16-bit words, \<^verbatim>\<open>int\<close> is an integer with the 64-bit
  wrap-around where the code adds or multiplies values from outside. Go's iteration over a map has no order: the model takes
  the order of the association list, and the theorems do not depend on it.

  \<^bold>\<open>What is assumed of code outside the repository.\<close> The predicates of \<open>Dns_Types\<close> state documented behaviour of
  \<^verbatim>\<open>miekg/dns\<close> (\<open>SetQuestion_doc\<close>: a question is set to the name and type given, and so on); \<open>replies_have_question\<close> says that
  upstream responses carry a question, without which the cache panics. Each witness gives a library and a network for
  which the hypotheses hold.

  \<^bold>\<open>What is shown.\<close>

  \<^item> The whole server: in every state it can reach the handler is total and keeps the invariant of cache, upstream list,
    log and change log; a refresh is all or nothing; local records given as arguments are served from the start.
  \<^item> Handler: totality and exact admission; upstreams in order; blocking and pausing; the cache answers the second query;
    rotation of the upstream list; DNS64; the ACL as a prefix test.
  \<^item> Concurrent queries: whatever the interleaving, each query asks the upstreams in the order of one rotation of the list until one
    answers, and returns within a bounded number of its own steps; the handler run alone is one of these runs; failures are
    counted against the wrong upstream when they are late.
  \<^item> Blocklist: refinement of a set of entries, round trip over a dump, the one panic; entries, order and case as lemmas.
  \<^item> Cache: only live entries, exact TTLs, flushing invisible, reverse records.
  \<^item> Log: refinement of a bounded log, the overflow of a window; sessions hear what is logged, in order and once, and hold up the
    log only by the client they write to; what an idle client and a shared address do.
  \<^item> Resolver: connections are exclusive under concurrency, the code refines the step relation, retries are bounded and
    survive stale connections.
  \<^item> HTTPS: GET and POST agree with the handler; every request is answered and the ACL holds.
  \<^item> API: the change log is the difference of the blocklists, a restart with the merged configuration restores the list, a replaced
    local record does not survive it; pausing up to the overflow of the duration.
  \<^item> Options: the program runs with the options it is given.
  \<^item> Commands: when the query over the pool returns; how the API client ends.

  \<^bold>\<open>Loops and bounds.\<close> Every loop of the server's own code ends and is a total function: recursion on the trie, on lists, on the length
  of the pool, or on the attempts left. The endless loops of the server are single passes with \<open>server_step\<close> as their composition. The retry
  loop of \<^verbatim>\<open>cmd/pool\<close> may run for ever: it is a partial function, shown to return when connections can be dialled and not
  to return when they cannot. No fuel is used anywhere.

  \<^bold>\<open>Not modelled.\<close> The debug lines of the handler; the settings of the TLS and HTTP clients; the text of JSON documents (encoders and
  decoders are arguments); interleavings other than those of the resolutions, of the log and of the connection pool: elsewhere a locked
  operation is one step; the commented-out change of user in \<^verbatim>\<open>server.go\<close>; \<^verbatim>\<open>util/user.go\<close>,
  stubs for systems without Unix users; the web pages under \<^verbatim>\<open>api/static\<close>.
\<close>

section \<open>From the command line to an answer\<close>

lemma main_serves:
  assumes "main D E unmarshal json_indent serve_err fmt_dur dial clk args = MainServes config st"
  obtains uc c0 where "GetUserConfig E unmarshal args = OptOk uc" "NewProxyConfig = Inr c0"
    "GetProxyConfig D E fmt_dur dial clk uc c0 = Inr config" "st = StartServer json_indent serve_err config"
  using assms by (auto simp: main_def Let_def split: opt_result.splits sum.splits cfg_error.splits list.splits)

text \<open>The entry that a permanent record leaves in the cache.\<close>

definition local_item :: "RR \<Rightarrow> DNSCacheItem \<Rightarrow> bool" where
  "local_item rr v \<longleftrightarrow> Permanent v \<and> Answer (Message v) = [rr] \<and> Authoritative (Message v) \<and> Rcode (Message v) = RcodeSuccess"

lemma AddRRString_plain:
  "AddRRString D c text permanent False clk = map_sum (\<lambda>err. ''Error creating RR: '' @ err) (\<lambda>rr. AddRR D c rr permanent (clk 2) (clk 3)) (NewRR D text)"
  by (simp add: AddRRString_def split: sum.splits)

lemma add_records_keep:
  assumes "\<forall>x \<in> set xs. \<forall>r. NewRR D x = Inr (Some r) \<longrightarrow> rr_key D r \<noteq> k"
  shows "add_records D False clk i c xs = Inr c' \<Longrightarrow> live c' t k = live c t k"
  using assms
proof (induction xs arbitrary: c i)
  case (Cons x xs)
  then obtain rr where rr: "NewRR D x = Inr rr" by (auto simp: AddRRString_plain map_sum_Inr split: sum.splits)
  let ?c = "AddRR D c rr True (clk (i + 2)) (clk (i + 3))"
  have "live ?c t k = live c t k" using Cons.prems(2) rr by (cases rr) (auto simp: AddRR_def [of _ _ None] live_AddRR)
  moreover have "add_records D False clk (i + 4) ?c xs = Inr c'" using Cons.prems(1) rr by (simp add: AddRRString_plain)
  ultimately show ?case using Cons.IH [of "i + 4" ?c] Cons.prems(2) by simp
qed simp

lemma add_records_append:
  "add_records D ptr clk i c (xs @ ys) = and_then (add_records D ptr clk i c xs) (\<lambda>c. add_records D ptr clk (i + 4 * length xs) c ys)"
  by (induction xs arbitrary: c i) (simp_all add: add.assoc split: sum.splits)

lemma add_records_last:
  assumes D: "SetQuestion_doc D" and rr: "NewRR D x = Inr (Some rr)" and post: "\<forall>x \<in> set post. \<forall>r. NewRR D x = Inr (Some r) \<longrightarrow> rr_key D r \<noteq> rr_key D rr"
    and run: "add_records D False clk i c (pre @ x # post) = Inr c'"
  shows "\<exists>v. live c' t (rr_key D rr) = Some v \<and> local_item rr v"
proof -
  let ?j = "i + 4 * length pre"
  from run obtain c1 where "add_records D False clk ?j c1 (x # post) = Inr c'" unfolding add_records_append and_then_Inr by blast
  then have "add_records D False clk (?j + 4) (AddRR D c1 (Some rr) True (clk (?j + 2)) (clk (?j + 3))) post = Inr c'"
    by (simp add: AddRRString_plain rr)
  from add_records_keep [OF post this, of t] show ?thesis
    using D by (simp add: live_AddRR local_item_def SetQuestion_doc_def newMsg_def)
qed

lemma resolve_local:
  assumes "MQuestion q = [qu]" "live (P_Cache config) (clk k) (query_key D qu) = Some v"
  shows "resolve D N clk k config w q = Inr (Inr (reply_of q (clk (k + 1)) v), True, config, w)"
proof -
  have "cache_touch (P_Cache config) (query_key D qu) (clk k) = P_Cache config" using assms(2) by (simp add: cache_touch_live)
  then show ?thesis using assms by (simp add: resolve_def Cache_Get_eq)
qed


definition sample_options :: UserConfig where
  "sample_options = NewUserConfig\<lparr>Listen := [''127.0.0.1:53''], U_Upstream := [''192.0.2.53''], LocalRR := [''h.local. 60 IN A 192.0.2.1'']\<rparr>"

lemma sample_main:
  "\<exists>config st. main sample_lib sample_env (\<lambda>_ _. Inl '''') (\<lambda>_. '''') (\<lambda>_. None) (\<lambda>_. '''') (\<lambda>_. None) (\<lambda>_. 0) (args_of sample_options) = MainServes config st \<and>
    P_Acl config = [] \<and> P_BlockList config = BlockList_New"
proof -
  obtain st :: "nat stats" where st: "Stats_New 1000 = Inr st"
    using NewCircularBuffer_wf [of 1000 zeroLog] by (auto simp: Stats_New_def)
  have addr: "ParseAddr sample_env ''127.0.0.1:53'' 53 = Inr [''127.0.0.1:53'']" by code_simp
  have opts: "GetUserConfig sample_env (\<lambda>_ _. Inl '''') (args_of sample_options) = OptOk sample_options"
    by (rule GetUserConfig_args_of) (simp_all add: sample_options_def)
  have serves: "FatalLines (StartServer j (\<lambda>_. None) c) = []" for j c by (simp add: StartServer_def List.map_filter_def Let_def)
  show ?thesis
    unfolding main_def opts using st
    by (simp add: serves addr sample_options_def NewProxyConfig_def GetProxyConfig_def set_Listen_def NewUserConfig_def UpdateBlockList_def set_Local_def set_Acl_def
        set_Dns64_def set_Api_Doh_def set_Refresh_def set_Log_def set_Setuid_def Let_def lift_addr_def set_Upstream_def AddRRString_def sample_lib_def sample_records_def)
qed


end
